(* ===== verification/Exchange_Prelude.thy ===== *)
theory Exchange_Prelude
  imports Main "HOL-Library.Word" "HOL-Library.Monad_Syntax" "HOL-Library.Multiset"
begin

text \<open>
  Shared vocabulary of the development: the machine types of \<^verbatim>\<open>core/types.hpp\<close>, the exceptions
  of \<^verbatim>\<open>core/exceptions.hpp\<close>, and the generic lemmas on words, sums and association lists that
  the component theories rely on.

  Conventions used throughout:
  \<^item> a C++ reference that is mutated is passed in and returned;
  \<^item> a violated \<^verbatim>\<open>EXCHANGE_PRECONDITION\<close>, a dereferenced dangling iterator or a dereferenced
    end iterator is undefined behaviour in the default build, and is the value \<^term>\<open>None\<close>;
  \<^item> a thrown exception is \<^term>\<open>Inl\<close> of an \<open>exchange_error\<close>;
  \<^item> plain \<^verbatim>\<open>assert\<close>s vanish in the default build (\<^verbatim>\<open>RelWithDebInfo\<close> defines \<^verbatim>\<open>NDEBUG\<close>), so the
    model computes what the arithmetic does and the asserted conditions are lemmas.
\<close>

section \<open>Machine types\<close>

type_synonym OrderId = "64 word"
type_synonym AccountId = "32 word"
type_synonym Quantity = "64 word"
type_synonym Price = "64 word"  \<comment> \<open>two's complement, always compared through \<^const>\<open>sint\<close>\<close>
type_synonym Sequence = "64 word"
type_synonym byte = "8 word"

text \<open>
  The address of a \<^verbatim>\<open>std::list\<close> node. An iterator into a price level's queue is such an
  address; relinking a node keeps it.
\<close>

type_synonym node = nat

section \<open>Exceptions\<close>

datatype invalid_reason =
    NullOrder
  | ZeroQuantity OrderId
  | DuplicateOrderId OrderId
  | QuantityNotPositive
  | IcebergWithoutDisplay

datatype protocol_reason =
    TruncatedPayload
  | TrailingBytes
  | SideOutOfRange byte
  | KindOutOfRange byte
  | ReasonOutOfRange byte
  | ServerMessageInbound
  | ClientMessageOutbound
  | UnknownMessageType byte
  | FrameTooLong "32 word"
  | FrameTooShort "32 word"
  | UnsupportedVersion byte
  | UnreachableOrderKind

datatype exchange_error =
    ProtocolError protocol_reason
  | InvalidOrderError invalid_reason
  | InsufficientFundsError AccountId Quantity Quantity
  | StorageError
  | NetworkError

type_synonym 'a result = "exchange_error + 'a"

section \<open>Association lists\<close>

text \<open>
  \<^verbatim>\<open>std::list\<close> queues, the ordered level map and the hash index are all association lists. The
  two updates they need are the removal of a key and the rewriting of the value at a key.
\<close>

definition al_remove :: "'k \<Rightarrow> ('k \<times> 'v) list \<Rightarrow> ('k \<times> 'v) list" where
  "al_remove k xs = filter (\<lambda>e. fst e \<noteq> k) xs"

definition al_adjust :: "'k \<Rightarrow> ('v \<Rightarrow> 'v) \<Rightarrow> ('k \<times> 'v) list \<Rightarrow> ('k \<times> 'v) list" where
  "al_adjust k f xs = map (\<lambda>e. if fst e = k then (k, f (snd e)) else e) xs"

lemma al_remove_simps [simp]:
  "al_remove k [] = []"
  "al_remove k (e # xs) = (if fst e = k then al_remove k xs else e # al_remove k xs)"
  "al_remove k (xs @ ys) = al_remove k xs @ al_remove k ys"
  by (auto simp: al_remove_def)

lemma al_adjust_simps [simp]:
  "al_adjust k f [] = []"
  "al_adjust k f (e # xs) = (if fst e = k then (k, f (snd e)) else e) # al_adjust k f xs"
  "al_adjust k f (xs @ ys) = al_adjust k f xs @ al_adjust k f ys"
  by (auto simp: al_adjust_def)

lemma al_remove_notin [simp]: "k \<notin> fst ` set xs \<Longrightarrow> al_remove k xs = xs"
  by (induction xs) auto

lemma al_adjust_notin [simp]: "k \<notin> fst ` set xs \<Longrightarrow> al_adjust k f xs = xs"
  by (induction xs) auto

lemma set_al_remove [simp]: "set (al_remove k xs) = {e \<in> set xs. fst e \<noteq> k}"
  by (auto simp: al_remove_def)

lemma al_adjust_keys [simp]: "map fst (al_adjust k f xs) = map fst xs"
  by (induction xs) auto

lemma al_remove_keys: "map fst (al_remove k xs) = filter (\<lambda>j. j \<noteq> k) (map fst xs)"
  by (induction xs) auto

lemma distinct_al_remove [simp]: "distinct (map fst xs) \<Longrightarrow> distinct (map fst (al_remove k xs))"
  by (simp add: al_remove_keys)

lemma mset_al_remove: "mset (al_remove k xs) = filter_mset (\<lambda>e. fst e \<noteq> k) (mset xs)"
  by (simp add: al_remove_def)

lemma map_of_al_remove: "map_of (al_remove k xs) j = (if j = k then None else map_of xs j)"
  by (induction xs) auto

lemma map_of_al_adjust:
  "map_of (al_adjust k f xs) j = (if j = k then map_option f (map_of xs k) else map_of xs j)"
  by (induction xs) auto

text \<open>A successful lookup splits the list at the entry found.\<close>

lemma map_of_SomeE:
  assumes "map_of xs k = Some v"
  obtains ys zs where "xs = ys @ (k, v) # zs" and "k \<notin> fst ` set ys"
  using assms
proof (induction xs arbitrary: thesis)
  case Nil
  then show ?case by simp
next
  case (Cons e xs)
  obtain j w where e: "e = (j, w)" by (cases e)
  show ?case
  proof (cases "j = k")
    case True
    with Cons.prems e show ?thesis by (force intro: Cons.prems(1) [of "[]" xs])
  next
    case False
    with Cons.prems e have "map_of xs k = Some v" by simp
    with Cons.IH obtain ys zs where "xs = ys @ (k, v) # zs" "k \<notin> fst ` set ys" by blast
    with False e show ?thesis by (intro Cons.prems(1) [of "e # ys" zs]) auto
  qed
qed

lemma map_of_mid [simp]:
  "distinct (map fst (xs @ (k, v) # ys)) \<Longrightarrow> map_of (xs @ (k, v) # ys) k = Some v"
  by (rule map_of_is_SomeI) auto

lemma map_add_mid [simp]: "k \<notin> fst ` set xs \<Longrightarrow> (m(k \<mapsto> v) ++ map_of xs) k = Some v"
  by (simp add: map_add_def map_of_eq_None_iff [THEN iffD2])

section \<open>Words\<close>

lemma word_gr0_unat: "(0 :: 'a::len word) < w \<longleftrightarrow> 0 < unat w"
  by (simp add: word_less_nat_alt)

lemma unat_min: "unat (min a b) = min (unat a) (unat b)"
  by (auto simp: min_def word_le_nat_alt)

lemma unat_minus_min [simp]: "unat (a - min a b) = unat a - min (unat a) (unat b)"
  by (subst unat_sub) (auto simp: unat_min word_le_nat_alt)

lemma unat_minus_min_less:
  "x = min a b \<Longrightarrow> \<not> \<not> 0 < x \<Longrightarrow> y = a - x \<Longrightarrow> unat y < unat a"
  by (auto simp: word_gr0_unat unat_min)

text \<open>Signed reading is injective, so the two price orderings are total.\<close>

lemma sint_eq_iff: "sint a = sint b \<longleftrightarrow> a = b" for a b :: "'a::len word"
  by (auto intro: signed_word_eqI)

lemma sint_neq: "a \<noteq> b \<Longrightarrow> sint a < sint b \<or> sint b < sint a" for a b :: "'a::len word"
  by (metis linorder_neqE sint_eq_iff)

lemma sum_list_word_mono_unat:
  "sum_list (map unat ws) < 2 ^ LENGTH('a) \<Longrightarrow>
     unat (sum_list ws) = sum_list (map unat ws)" for ws :: "'a::len word list"
proof (induction ws)
  case Nil
  then show ?case by simp
next
  case (Cons w ws)
  then have "unat (sum_list ws) = sum_list (map unat ws)" by simp
  with Cons.prems show ?case by (simp add: unat_word_ariths)
qed

section \<open>Lists\<close>

lemma dropWhile_prefix:
  assumes "\<And>x. x \<in> set xs \<Longrightarrow> P x" and "\<And>y. y \<in> set ys \<Longrightarrow> \<not> P y"
  shows "dropWhile P (xs @ ys) = ys"
  using assms by (induction xs) (auto simp: dropWhile_eq_self_iff dest: hd_in_set)

end
