(* ===== verification/Wire.thy ===== *)
theory Wire
  imports Exchange_Prelude
begin

text \<open>
  \<^verbatim>\<open>core/wire.hpp\<close>: the little-endian encoding shared by the network protocol and the write-ahead
  log. A \<^verbatim>\<open>Writer\<close> only appends, so a write is the list of bytes it appends; a \<^verbatim>\<open>Reader\<close> is a
  buffer and a position, and every read either throws or moves the position forward.
\<close>

unbundle bit_operations_syntax

section \<open>Model\<close>

definition emit :: "64 word \<Rightarrow> nat \<Rightarrow> byte list" where
  "emit value bytes = map (\<lambda>i. ucast (drop_bit (8 * i) value AND 0xFF)) [0..<bytes]"

definition w_u8 :: "8 word \<Rightarrow> byte list" where
  "w_u8 value = [value]"

definition w_u16 :: "16 word \<Rightarrow> byte list" where
  "w_u16 value = emit (ucast value) 2"

definition w_u32 :: "32 word \<Rightarrow> byte list" where
  "w_u32 value = emit (ucast value) 4"

definition w_u64 :: "64 word \<Rightarrow> byte list" where
  "w_u64 value = emit value 8"

definition w_i64 :: "64 word \<Rightarrow> byte list" where
  "w_i64 value = w_u64 value"

record Reader =
  rd_in :: "byte list"
  rd_pos :: nat

type_synonym 'a read = "protocol_reason + 'a \<times> Reader"

definition new_Reader :: "byte list \<Rightarrow> Reader" where
  "new_Reader bs = \<lparr>rd_in = bs, rd_pos = 0\<rparr>"

definition rd_remaining :: "Reader \<Rightarrow> nat" where
  "rd_remaining r = length (rd_in r) - rd_pos r"

definition exhausted :: "Reader \<Rightarrow> bool" where
  "exhausted r \<longleftrightarrow> rd_pos r = length (rd_in r)"

definition consume :: "nat \<Rightarrow> Reader \<Rightarrow> 64 word read" where
  "consume bytes r =
     (if rd_remaining r < bytes then Inl TruncatedPayload
      else Inr (foldl (\<lambda>value i. value OR push_bit (8 * i) (ucast (rd_in r ! (rd_pos r + i)))) 0 [0..<bytes],
                r\<lparr>rd_pos := rd_pos r + bytes\<rparr>))"

definition r_u8 :: "Reader \<Rightarrow> 8 word read" where
  "r_u8 r =
     (if rd_remaining r < 1 then Inl TruncatedPayload
      else Inr (rd_in r ! rd_pos r, r\<lparr>rd_pos := rd_pos r + 1\<rparr>))"

text \<open>Sequencing of reads: an exception ends the sequence, a value and the moved reader go on.\<close>

definition andThen :: "'a read \<Rightarrow> ('a \<Rightarrow> Reader \<Rightarrow> protocol_reason + 'b) \<Rightarrow> protocol_reason + 'b" where
  "andThen m f = (case m of Inl e \<Rightarrow> Inl e | Inr (v, r) \<Rightarrow> f v r)"

definition r_u16 :: "Reader \<Rightarrow> 16 word read" where
  "r_u16 r = andThen (consume 2 r) (\<lambda>v r'. Inr (ucast v, r'))"

definition r_u32 :: "Reader \<Rightarrow> 32 word read" where
  "r_u32 r = andThen (consume 4 r) (\<lambda>v r'. Inr (ucast v, r'))"

definition r_u64 :: "Reader \<Rightarrow> 64 word read" where
  "r_u64 r = consume 8 r"

definition r_i64 :: "Reader \<Rightarrow> 64 word read" where
  "r_i64 r = r_u64 r"

definition requireFullyConsumed :: "Reader \<Rightarrow> protocol_reason + unit" where
  "requireFullyConsumed r = (if \<not> exhausted r then Inl TrailingBytes else Inr ())"

lemmas wire_defs = w_u8_def w_u16_def w_u32_def w_u64_def w_i64_def
  r_u8_def r_u16_def r_u32_def r_u64_def r_i64_def

section \<open>Lengths\<close>

lemma length_emit [simp]: "length (emit value n) = n"
  by (simp add: emit_def)

lemma length_writes [simp]:
  "length (w_u8 a) = 1" "length (w_u16 b) = 2" "length (w_u32 c) = 4" "length (w_u64 d) = 8" "length (w_i64 d) = 8"
  by (simp_all add: wire_defs)

lemma andThen_simps [simp]:
  "andThen (Inl e) f = Inl e"
  "andThen (Inr (v, r)) f = f v r"
  by (simp_all add: andThen_def)

section \<open>Round trip\<close>

text \<open>A reader whose unread bytes are \<open>bs\<close>.\<close>

definition unread :: "Reader \<Rightarrow> byte list" where
  "unread r = drop (rd_pos r) (rd_in r)"

definition reader_ok :: "Reader \<Rightarrow> bool" where
  "reader_ok r \<longleftrightarrow> rd_pos r \<le> length (rd_in r)"

lemma new_Reader_ok [simp]: "reader_ok (new_Reader bs)" "unread (new_Reader bs) = bs"
  by (simp_all add: reader_ok_def unread_def new_Reader_def)

lemma exhausted_unread: "reader_ok r \<Longrightarrow> exhausted r \<longleftrightarrow> unread r = []"
  by (auto simp: exhausted_def unread_def reader_ok_def)

lemma requireFullyConsumed_cases:
  "reader_ok r \<Longrightarrow> requireFullyConsumed r = (if unread r = [] then Inr () else Inl TrailingBytes)"
  by (simp add: requireFullyConsumed_def exhausted_unread)

definition le_value :: "byte list \<Rightarrow> 'a::len word" where
  "le_value bs = foldl (\<lambda>value i. value OR push_bit (8 * i) (ucast (bs ! i))) 0 [0..<length bs]"

lemma consume_unread:
  "consume n r =
     (if length (unread r) < n then Inl TruncatedPayload
      else Inr (le_value (take n (unread r)), r\<lparr>rd_pos := rd_pos r + n\<rparr>))"
proof (cases "rd_remaining r < n")
  case False
  then have n: "rd_pos r + n \<le> length (rd_in r) \<or> n = 0" by (auto simp: rd_remaining_def)
  have eq: "take n (unread r) ! i = rd_in r ! (rd_pos r + i)" if "i < n" for i
    using n that by (auto simp: unread_def)
  have len: "length (take n (unread r)) = n" using n by (auto simp: unread_def)
  have "foldl (\<lambda>value i. value OR push_bit (8 * i) (ucast (rd_in r ! (rd_pos r + i)))) 0 [0..<n] =
      le_value (take n (unread r))"
    unfolding le_value_def len by (rule foldl_cong) (auto simp: eq simp del: nth_take)
  then show ?thesis using False by (simp add: consume_def unread_def rd_remaining_def)
qed (simp add: consume_def unread_def rd_remaining_def)

lemma bit_foldl_or:
  "bit (foldl (\<lambda>value i. value OR f i) a xs) k \<longleftrightarrow> bit a k \<or> (\<exists>i \<in> set xs. bit (f i) k)"
  for a :: "'a::len word"
  by (induction xs arbitrary: a) (auto simp: bit_or_iff)

lemma le_value_emit:
  assumes "n \<le> 8"
  shows "(le_value (emit v n) :: 'a::len word) = ucast (take_bit (8 * n) v)"
proof (rule bit_word_eqI)
  fix k assume k: "k < LENGTH('a)"
  have byte: "bit (push_bit (8 * i) (ucast (emit v n ! i)) :: 'a word) k \<longleftrightarrow>
      8 * i \<le> k \<and> k < 8 * i + 8 \<and> bit v k" if "i < n" for i
  proof -
    have mask: "(0xFF :: 64 word) = mask 8" by (simp add: mask_eq_exp_minus_1)
    show ?thesis using that k assms
      by (auto simp: emit_def mask bit_push_bit_iff bit_ucast_iff bit_and_iff bit_mask_iff bit_drop_bit_eq)
  qed
  have "bit (le_value (emit v n) :: 'a word) k \<longleftrightarrow>
      (\<exists>i < n. bit (push_bit (8 * i) (ucast (emit v n ! i)) :: 'a word) k)"
    by (auto simp: le_value_def bit_foldl_or)
  also have "\<dots> \<longleftrightarrow> (\<exists>i < n. 8 * i \<le> k \<and> k < 8 * i + 8 \<and> bit v k)"
    using byte by blast
  also have "\<dots> \<longleftrightarrow> k < 8 * n \<and> bit v k"
  proof
    assume r: "k < 8 * n \<and> bit v k"
    then have "k div 8 < n \<and> 8 * (k div 8) \<le> k \<and> k < 8 * (k div 8) + 8 \<and> bit v k" by auto
    then show "\<exists>i < n. 8 * i \<le> k \<and> k < 8 * i + 8 \<and> bit v k" by blast
  qed auto
  finally show "bit (le_value (emit v n) :: 'a word) k = bit (ucast (take_bit (8 * n) v) :: 'a word) k"
    using k by (simp add: bit_take_bit_iff bit_ucast_iff)
qed

lemma consume_emit:
  assumes "unread r = emit v n @ rest" and "n \<le> 8" and "reader_ok r"
  obtains r' where "consume n r = Inr (take_bit (8 * n) v, r')" and "unread r' = rest" and "reader_ok r'"
    and "rd_in r' = rd_in r"
proof
  let ?r = "r\<lparr>rd_pos := rd_pos r + n\<rparr>"
  show "consume n r = Inr (take_bit (8 * n) v, ?r)"
    using assms(1) le_value_emit [OF assms(2), of v, where 'a = 64] by (simp add: consume_unread)
  have "unread ?r = drop n (unread r)" by (simp add: unread_def add.commute)
  then show "unread ?r = rest" using assms(1) by simp
  have "n \<le> length (unread r)" using assms(1) by simp
  then show "reader_ok ?r" using assms(3) by (simp add: unread_def reader_ok_def)
qed simp

lemma take_bit_ucast_full: "LENGTH('a) = n \<Longrightarrow> ucast (take_bit n (ucast v :: 64 word)) = v"
  if "LENGTH('a) \<le> 64" for v :: "'a::len word"
  using that by (intro bit_word_eqI) (auto simp: bit_ucast_iff bit_take_bit_iff)

text \<open>Reading back what was written yields the value and leaves the reader after it.\<close>

lemma read_back:
  "reader_ok r \<Longrightarrow> unread r = w_u8 a @ rest \<Longrightarrow> \<exists>r'. r_u8 r = Inr (a, r') \<and> unread r' = rest \<and> reader_ok r'"
  "reader_ok r \<Longrightarrow> unread r = w_u16 b @ rest \<Longrightarrow> \<exists>r'. r_u16 r = Inr (b, r') \<and> unread r' = rest \<and> reader_ok r'"
  "reader_ok r \<Longrightarrow> unread r = w_u32 c @ rest \<Longrightarrow> \<exists>r'. r_u32 r = Inr (c, r') \<and> unread r' = rest \<and> reader_ok r'"
  "reader_ok r \<Longrightarrow> unread r = w_u64 d @ rest \<Longrightarrow> \<exists>r'. r_u64 r = Inr (d, r') \<and> unread r' = rest \<and> reader_ok r'"
  "reader_ok r \<Longrightarrow> unread r = w_i64 d @ rest \<Longrightarrow> \<exists>r'. r_i64 r = Inr (d, r') \<and> unread r' = rest \<and> reader_ok r'"
proof -
  assume ok: "reader_ok r"
  { assume u: "unread r = w_u8 a @ rest"
    then have "rd_pos r < length (rd_in r)" by (auto simp: unread_def w_u8_def intro: ccontr)
    with u show "\<exists>r'. r_u8 r = Inr (a, r') \<and> unread r' = rest \<and> reader_ok r'"
      by (auto simp: r_u8_def rd_remaining_def unread_def w_u8_def reader_ok_def simp flip: Cons_nth_drop_Suc) }
  { assume "unread r = w_u16 b @ rest"
    then show "\<exists>r'. r_u16 r = Inr (b, r') \<and> unread r' = rest \<and> reader_ok r'"
      unfolding w_u16_def r_u16_def using ok take_bit_ucast_full [of 16 b] by (elim consume_emit) auto }
  { assume "unread r = w_u32 c @ rest"
    then show "\<exists>r'. r_u32 r = Inr (c, r') \<and> unread r' = rest \<and> reader_ok r'"
      unfolding w_u32_def r_u32_def using ok take_bit_ucast_full [of 32 c] by (elim consume_emit) auto }
  { assume "unread r = w_u64 d @ rest"
    then show "\<exists>r'. r_u64 r = Inr (d, r') \<and> unread r' = rest \<and> reader_ok r'"
      unfolding w_u64_def r_u64_def using ok by (elim consume_emit) (auto simp: take_bit_word_eq_self) }
  { assume "unread r = w_i64 d @ rest"
    then show "\<exists>r'. r_i64 r = Inr (d, r') \<and> unread r' = rest \<and> reader_ok r'"
      unfolding w_i64_def r_i64_def w_u64_def r_u64_def using ok
      by (elim consume_emit) (auto simp: take_bit_word_eq_self) }
qed

text \<open>The same as rules for a whole sequence of reads, one step at a time.\<close>

lemma andThen_assoc: "andThen (andThen m f) g = andThen m (\<lambda>v r. andThen (f v r) g)"
  by (simp add: andThen_def split: sum.split)

lemma then_u8:
  "unread r = w_u8 a @ rest \<Longrightarrow> reader_ok r \<Longrightarrow>
     (\<And>r'. unread r' = rest \<Longrightarrow> reader_ok r' \<Longrightarrow> f a r' = x) \<Longrightarrow> andThen (r_u8 r) f = x"
  using read_back(1) [of r a rest] by auto

lemma then_u16:
  "unread r = w_u16 b @ rest \<Longrightarrow> reader_ok r \<Longrightarrow>
     (\<And>r'. unread r' = rest \<Longrightarrow> reader_ok r' \<Longrightarrow> f b r' = x) \<Longrightarrow> andThen (r_u16 r) f = x"
  using read_back(2) [of r b rest] by auto

lemma then_u32:
  "unread r = w_u32 c @ rest \<Longrightarrow> reader_ok r \<Longrightarrow>
     (\<And>r'. unread r' = rest \<Longrightarrow> reader_ok r' \<Longrightarrow> f c r' = x) \<Longrightarrow> andThen (r_u32 r) f = x"
  using read_back(3) [of r c rest] by auto

lemma then_u64:
  "unread r = w_u64 d @ rest \<Longrightarrow> reader_ok r \<Longrightarrow>
     (\<And>r'. unread r' = rest \<Longrightarrow> reader_ok r' \<Longrightarrow> f d r' = x) \<Longrightarrow> andThen (r_u64 r) f = x"
  using read_back(4) [of r d rest] by auto

lemma then_i64:
  "unread r = w_i64 d @ rest \<Longrightarrow> reader_ok r \<Longrightarrow>
     (\<And>r'. unread r' = rest \<Longrightarrow> reader_ok r' \<Longrightarrow> f d r' = x) \<Longrightarrow> andThen (r_i64 r) f = x"
  using read_back(5) [of r d rest] by auto

lemmas then_rules = then_u8 then_u16 then_u32 then_u64 then_i64

text \<open>A write at the end of the message reads back like one followed by nothing.\<close>

lemma unread_last: "unread r = bs \<Longrightarrow> unread r = bs @ []"
  by simp

text \<open>A little-endian value determines its bytes.\<close>

lemma bit_le_value:
  "bit (le_value bs :: 'a::len word) k \<longleftrightarrow> k < LENGTH('a) \<and> k div 8 < length bs \<and> bit (bs ! (k div 8)) (k mod 8)"
proof -
  have byte: "bit (push_bit (8 * i) (ucast (bs ! i)) :: 'a word) k \<longleftrightarrow>
      k < LENGTH('a) \<and> i = k div 8 \<and> bit (bs ! i) (k mod 8)" for i
  proof
    assume l: "bit (push_bit (8 * i) (ucast (bs ! i)) :: 'a word) k"
    then have k: "k < LENGTH('a)" "8 * i \<le> k" "bit (bs ! i) (k - 8 * i)"
      by (auto simp: bit_push_bit_iff bit_ucast_iff)
    then have "k - 8 * i < 8" using bit_imp_le_length [OF k(3)] by simp
    then obtain j where j: "k = j + 8 * i" "j < 8" using k(2) by (auto simp: le_iff_add)
    then have "i = k div 8" "k - 8 * i = k mod 8" by simp_all
    with k show "k < LENGTH('a) \<and> i = k div 8 \<and> bit (bs ! i) (k mod 8)" by simp
  next
    assume "k < LENGTH('a) \<and> i = k div 8 \<and> bit (bs ! i) (k mod 8)"
    then show "bit (push_bit (8 * i) (ucast (bs ! i)) :: 'a word) k"
      by (auto simp: bit_push_bit_iff bit_ucast_iff minus_mult_div_eq_mod)
  qed
  show ?thesis unfolding le_value_def bit_foldl_or by (auto simp: byte)
qed

lemma le_value_inj:
  assumes "(le_value bs :: 'a::len word) = le_value cs" and "length bs = length cs" and "8 * length bs \<le> LENGTH('a)"
  shows "bs = cs"
proof (rule nth_equalityI)
  fix i assume i: "i < length bs"
  show "bs ! i = cs ! i"
  proof (rule bit_word_eqI)
    fix j assume j: "j < LENGTH(8)"
    have "(8 * i + j) div 8 = i" "(8 * i + j) mod 8 = j" using j by auto
    moreover have "8 * i + j < LENGTH('a)" using i j assms(3) by simp
    ultimately show "bit (bs ! i) j = bit (cs ! i) j"
      using bit_le_value [of bs "8 * i + j", where 'a = 'a] bit_le_value [of cs "8 * i + j", where 'a = 'a] assms i
      by simp
  qed
qed (rule assms(2))

lemma le_value_surj:
  assumes "length bs = 4"
  shows "\<exists>v. bs = w_u32 v"
proof
  let ?v = "le_value bs :: 32 word"
  have "(le_value (w_u32 ?v) :: 32 word) = ?v"
    unfolding w_u32_def le_value_emit [of 4, simplified] by (rule take_bit_ucast_full) simp_all
  then show "bs = w_u32 ?v" using le_value_inj [of bs "w_u32 ?v", where 'a = 32] assms by simp
qed

end
