(* ===== verification/Crc32.thy ===== *)
theory Crc32
  imports Exchange_Prelude
begin

text \<open>
  \<^verbatim>\<open>store/crc32.hpp\<close>: the checksum of the write-ahead log. The code runs a byte at a time over a
  precomputed table; the reference is the shift register it abbreviates, one bit at a time. The
  register step is linear over exclusive or and injective, which gives both the equivalence and the
  detection of damage.
\<close>

unbundle bit_operations_syntax

section \<open>Model\<close>

definition kPolynomial :: "32 word" where
  "kPolynomial = 0xEDB88320"

definition crc_shift :: "32 word \<Rightarrow> 32 word" where
  "crc_shift v = (if v AND 1 \<noteq> 0 then drop_bit 1 v XOR kPolynomial else drop_bit 1 v)"

definition makeCrcTable :: "32 word list" where
  "makeCrcTable = map (\<lambda>i. (crc_shift ^^ 8) (of_nat i)) [0..<256]"

definition crc_step :: "32 word \<Rightarrow> byte \<Rightarrow> 32 word" where
  "crc_step crc b =
     (let index = ucast ((crc XOR ucast b) AND 0xFF) :: 8 word
      in drop_bit 8 crc XOR makeCrcTable ! unat index)"

definition crc32 :: "byte list \<Rightarrow> 32 word" where
  "crc32 bytes = foldl crc_step 0xFFFFFFFF bytes XOR 0xFFFFFFFF"

section \<open>Reference: the shift register\<close>

definition crc_register :: "32 word \<Rightarrow> byte \<Rightarrow> 32 word" where
  "crc_register crc b = (crc_shift ^^ 8) (crc XOR ucast b)"

definition crc32_bitwise :: "byte list \<Rightarrow> 32 word" where
  "crc32_bitwise bytes = foldl crc_register 0xFFFFFFFF bytes XOR 0xFFFFFFFF"

section \<open>Algebra of the register step\<close>

lemma xor_right_cancel: "a XOR c = b XOR c \<longleftrightarrow> a = b" for a b c :: "'a::len word"
  by (metis xor.assoc xor.right_neutral xor_self_eq)

lemma xor_left_cancel: "c XOR a = c XOR b \<longleftrightarrow> a = b" for a b c :: "'a::len word"
  by (simp add: xor.commute [of c] xor_right_cancel)

lemma and_one_bit: "v AND 1 \<noteq> 0 \<longleftrightarrow> bit v 0" for v :: "32 word"
  by (simp add: and_one_eq mod_2_eq_odd bit_0)

lemma crc_shift_bit:
  "crc_shift v = drop_bit 1 v XOR (if bit v 0 then kPolynomial else 0)"
  by (simp add: crc_shift_def and_one_bit)

lemma crc_shift_xor: "crc_shift (a XOR b) = crc_shift a XOR crc_shift b"
  by (rule bit_word_eqI) (auto simp: crc_shift_bit bit_xor_iff bit_drop_bit_eq)

lemma crc_shifts_xor: "(crc_shift ^^ n) (a XOR b) = (crc_shift ^^ n) a XOR (crc_shift ^^ n) b"
  by (induction n) (simp_all add: crc_shift_xor)

lemma crc_shift_high:
  assumes "\<And>k. k < n \<Longrightarrow> \<not> bit v k"
  shows "(crc_shift ^^ n) v = drop_bit n v"
  using assms
proof (induction n)
  case (Suc n)
  then have ih: "(crc_shift ^^ n) v = drop_bit n v" by simp
  have "\<not> bit (drop_bit n v) 0" using Suc.prems [of n] by (simp add: bit_drop_bit_eq)
  then show ?case using ih crc_shift_bit [of "drop_bit n v"] by (simp add: drop_bit_drop_bit add.commute)
qed simp

lemma crc_shift_inj: "crc_shift a = crc_shift b \<Longrightarrow> a = b"
proof -
  assume eq: "crc_shift a = crc_shift b"
  have p: "bit kPolynomial 31" by (simp add: kPolynomial_def)
  have top: "bit (crc_shift v) 31 = bit v 0" for v
    using p bit_imp_le_length [of v 32] by (auto simp: crc_shift_bit bit_xor_iff bit_drop_bit_eq)
  have low: "bit a 0 = bit b 0" using top [of a] top [of b] eq by simp
  have "drop_bit 1 a = drop_bit 1 b" using eq low by (simp add: crc_shift_bit xor_right_cancel)
  then have "bit (drop_bit 1 a) k = bit (drop_bit 1 b) k" for k by simp
  then have high: "bit a (Suc k) = bit b (Suc k)" for k by (simp add: bit_drop_bit_eq)
  show "a = b"
  proof (rule bit_word_eqI)
    fix k show "bit a k = bit b k" using low high by (cases k) auto
  qed
qed

lemma crc_shifts_inj: "(crc_shift ^^ n) a = (crc_shift ^^ n) b \<Longrightarrow> a = b"
  by (induction n) (auto dest: crc_shift_inj)

lemma mask_255: "(0xFF :: 32 word) = mask 8"
  by (simp add: mask_eq_exp_minus_1)

lemma crc_table: "makeCrcTable ! unat i = (crc_shift ^^ 8) (ucast i)" for i :: byte
proof -
  have "unat i < 256" using unsigned_less [of i] by simp
  moreover have "of_nat (unat i) = (ucast i :: 32 word)" by (simp add: unsigned_of_nat)
  ultimately show ?thesis by (simp add: makeCrcTable_def)
qed

text \<open>One table lookup is eight shifts of the register.\<close>

lemma crc_step_register [code]: "crc_step crc b = crc_register crc b"
proof -
  let ?x = "crc XOR ucast b :: 32 word"
  let ?hi = "?x AND NOT (mask 8)"
  have split: "?x = (?x AND mask 8) XOR ?hi"
    by (rule bit_word_eqI) (auto simp: bit_xor_iff bit_and_iff bit_not_iff)
  have "crc_register crc b = (crc_shift ^^ 8) (?x AND mask 8) XOR (crc_shift ^^ 8) ?hi"
    unfolding crc_register_def by (subst split) (rule crc_shifts_xor)
  also have "(crc_shift ^^ 8) ?hi = drop_bit 8 ?hi"
    by (rule crc_shift_high) (simp add: bit_and_iff bit_not_iff bit_mask_iff)
  also have "drop_bit 8 ?hi = drop_bit 8 crc"
    by (rule bit_word_eqI)
       (auto simp: bit_drop_bit_eq bit_and_iff bit_not_iff bit_mask_iff bit_xor_iff bit_ucast_iff
          dest: bit_imp_le_length)
  also have "?x AND mask 8 = ucast (ucast (?x AND 0xFF) :: byte)"
    by (rule bit_word_eqI) (auto simp: mask_255 bit_and_iff bit_mask_iff bit_ucast_iff)
  finally show ?thesis by (simp add: crc_step_def Let_def crc_table xor.commute)
qed

lemma foldl_crc_step: "foldl crc_step = foldl crc_register"
proof -
  have "crc_step = crc_register" by (intro ext crc_step_register)
  then show ?thesis by simp
qed

lemma crc_register_inj: "crc_register a b = crc_register a' b \<Longrightarrow> a = a'"
  unfolding crc_register_def by (drule crc_shifts_inj) (simp add: xor_right_cancel)

lemma crc_register_byte_inj: "crc_register a b = crc_register a b' \<Longrightarrow> b = b'"
proof -
  assume "crc_register a b = crc_register a b'"
  then have "a XOR ucast b = a XOR ucast b'" unfolding crc_register_def by (rule crc_shifts_inj)
  then have "(ucast b :: 32 word) = ucast b'" by (simp add: xor_left_cancel)
  then have "bit (ucast b :: 32 word) k = bit (ucast b' :: 32 word) k" for k by simp
  then have "k < 32 \<Longrightarrow> bit b k = bit b' k" for k by (auto simp: bit_ucast_iff)
  then show "b = b'" by (intro bit_word_eqI) simp
qed

lemma foldl_register_inj: "foldl crc_register a bs = foldl crc_register a' bs \<Longrightarrow> a = a'"
  by (induction bs arbitrary: a a') (auto dest: crc_register_inj)

text \<open>A byte damaged anywhere in the input always changes the checksum.\<close>

lemma crc32_damaged_byte:
  assumes "b \<noteq> b'"
  shows "crc32 (xs @ b # ys) \<noteq> crc32 (xs @ b' # ys)"
proof
  assume "crc32 (xs @ b # ys) = crc32 (xs @ b' # ys)"
  then have "foldl crc_register (crc_register (foldl crc_register 0xFFFFFFFF xs) b) ys =
      foldl crc_register (crc_register (foldl crc_register 0xFFFFFFFF xs) b') ys"
    by (simp add: crc32_def foldl_crc_step xor_right_cancel)
  then show False using foldl_register_inj crc_register_byte_inj assms by blast
qed

lemma eight_shifts:
  "(crc_shift ^^ 8) v =
     crc_shift (crc_shift (crc_shift (crc_shift (crc_shift (crc_shift (crc_shift (crc_shift v)))))))"
  by (simp add: numeral_eq_Suc)

lemmas crc32_eval = crc32_def crc_step_register crc_register_def eight_shifts crc_shift_def kPolynomial_def

section \<open>Properties\<close>

text \<open>
  C29. The table-driven checksum is the bit-by-bit shift-register checksum on every input, and its
  value on the ASCII digits 1 to 9 is the check value of the CRC-32 catalogue.
\<close>

theorem crc32_is_bitwise:
  "crc32 bytes = crc32_bitwise bytes \<and>
   crc32 [0x31, 0x32, 0x33, 0x34, 0x35, 0x36, 0x37, 0x38, 0x39] = 0xCBF43926"
proof
  show "crc32 bytes = crc32_bitwise bytes"
    by (simp add: crc32_def crc32_bitwise_def foldl_crc_step)
  show "crc32 [0x31, 0x32, 0x33, 0x34, 0x35, 0x36, 0x37, 0x38, 0x39] = 0xCBF43926"
    by (simp add: crc32_eval)
qed

end
