(* ===== verification/Exchange_Types.thy ===== *)
theory Exchange_Types
  imports Exchange_Prelude
begin

text \<open>
  \<^verbatim>\<open>core/types.hpp\<close>: the two sides of the market and the two price orderings that instantiate
  the book side template. The template constraint \<^verbatim>\<open>PriceComparator\<close> of \<^verbatim>\<open>core/order_book.hpp\<close>
  is the locale \<open>price_comparator\<close>, interpreted on both orderings.
\<close>

datatype Side = Buy | Sell

fun opposite :: "Side \<Rightarrow> Side" where
  "opposite Buy = Sell"
| "opposite Sell = Buy"

type_synonym ordering = "Price \<Rightarrow> Price \<Rightarrow> bool"

definition BidOrdering :: ordering where
  "BidOrdering lhs rhs \<longleftrightarrow> sint lhs > sint rhs"

definition AskOrdering :: ordering where
  "AskOrdering lhs rhs \<longleftrightarrow> sint lhs < sint rhs"

text \<open>The ordering a side of the book is instantiated with (\<^verbatim>\<open>BidBook\<close>, \<^verbatim>\<open>AskBook\<close>).\<close>

fun ordering_of :: "Side \<Rightarrow> ordering" where
  "ordering_of Buy = BidOrdering"
| "ordering_of Sell = AskOrdering"

lemma opposite_opposite [simp]: "opposite (opposite s) = s"
  by (cases s) auto

lemma opposite_neq [simp]: "opposite s \<noteq> s" "s \<noteq> opposite s"
  by (cases s; simp)+

section \<open>The comparator contract\<close>

text \<open>
  \<^verbatim>\<open>std::strict_weak_order\<close>, strengthened by what integer ticks give on top of it: two prices
  that neither precedes the other are the same price, so a price never owns two levels.
\<close>

locale price_comparator =
  fixes cmp :: ordering
  assumes irrefl: "\<not> cmp p p"
    and trans: "cmp p q \<Longrightarrow> cmp q r \<Longrightarrow> cmp p r"
    and total: "p \<noteq> q \<Longrightarrow> cmp p q \<or> cmp q p"
begin

lemma asym: "cmp p q \<Longrightarrow> \<not> cmp q p"
  using irrefl trans by blast

lemma equiv_iff [simp]: "\<not> cmp p q \<and> \<not> cmp q p \<longleftrightarrow> p = q"
  using irrefl total by blast

lemma sorted_distinct:
  "sorted_wrt (\<lambda>a b. cmp (fst a) (fst b)) xs \<Longrightarrow> distinct (map fst xs)"
  by (induction xs) (use irrefl in fastforce)+

end

interpretation bid: price_comparator BidOrdering
  by unfold_locales (auto simp: BidOrdering_def not_less dest: sint_neq)

interpretation ask: price_comparator AskOrdering
  by unfold_locales (auto simp: AskOrdering_def not_less dest: sint_neq)

interpretation sided: price_comparator "ordering_of s" for s
  by (cases s) (simp_all add: bid.price_comparator_axioms ask.price_comparator_axioms)

end
