(* ===== verification/Orders.thy ===== *)
theory Orders
  imports Exchange_Types
begin

text \<open>
  \<^verbatim>\<open>core/order.hpp\<close> and \<^verbatim>\<open>core/order.cpp\<close>: the order hierarchy. The base class fields are the
  record \<open>order_base\<close>, the three concrete classes are the constructors of \<open>order\<close>, and a virtual
  member function is a function with one equation per class that overrides it.
\<close>

section \<open>Data\<close>

record order_base =
  ob_id :: OrderId
  ob_remaining :: Quantity
  ob_sequence :: Sequence
  ob_account :: AccountId
  ob_side :: Side

datatype order =
    LimitOrder order_base Price
  | MarketOrder order_base
  | IcebergOrder order_base Price Quantity Quantity  \<comment> \<open>limit, display size, visible tranche\<close>

fun base :: "order \<Rightarrow> order_base" where
  "base (LimitOrder b limit) = b"
| "base (MarketOrder b) = b"
| "base (IcebergOrder b limit display visible) = b"

fun map_base :: "(order_base \<Rightarrow> order_base) \<Rightarrow> order \<Rightarrow> order" where
  "map_base f (LimitOrder b limit) = LimitOrder (f b) limit"
| "map_base f (MarketOrder b) = MarketOrder (f b)"
| "map_base f (IcebergOrder b limit display visible) = IcebergOrder (f b) limit display visible"

section \<open>Constructors\<close>

definition new_base :: "OrderId \<Rightarrow> Side \<Rightarrow> AccountId \<Rightarrow> Quantity \<Rightarrow> order_base" where
  "new_base oid side account qty =
     \<lparr>ob_id = oid, ob_remaining = qty, ob_sequence = 0, ob_account = account, ob_side = side\<rparr>"

definition new_LimitOrder :: "OrderId \<Rightarrow> Side \<Rightarrow> AccountId \<Rightarrow> Quantity \<Rightarrow> Price \<Rightarrow> order" where
  "new_LimitOrder oid side account qty limit = LimitOrder (new_base oid side account qty) limit"

definition new_MarketOrder :: "OrderId \<Rightarrow> Side \<Rightarrow> AccountId \<Rightarrow> Quantity \<Rightarrow> order" where
  "new_MarketOrder oid side account qty = MarketOrder (new_base oid side account qty)"

definition new_IcebergOrder ::
  "OrderId \<Rightarrow> Side \<Rightarrow> AccountId \<Rightarrow> Quantity \<Rightarrow> Price \<Rightarrow> Quantity \<Rightarrow> order" where
  "new_IcebergOrder oid side account totalQty limit displaySize =
     (let display = (if displaySize = 0 then totalQty else min displaySize totalQty)
      in IcebergOrder (new_base oid side account totalQty) limit display display)"

section \<open>Observers\<close>

definition order_id :: "order \<Rightarrow> OrderId" where
  "order_id ord = ob_id (base ord)"

definition order_side :: "order \<Rightarrow> Side" where
  "order_side ord = ob_side (base ord)"

definition order_account :: "order \<Rightarrow> AccountId" where
  "order_account ord = ob_account (base ord)"

definition remaining :: "order \<Rightarrow> Quantity" where
  "remaining ord = ob_remaining (base ord)"

definition isFilled :: "order \<Rightarrow> bool" where
  "isFilled ord \<longleftrightarrow> remaining ord = 0"

definition order_sequence :: "order \<Rightarrow> Sequence" where
  "order_sequence ord = ob_sequence (base ord)"

fun crosses :: "order \<Rightarrow> Price \<Rightarrow> bool" where
  "crosses (LimitOrder b limit) best =
     (if ob_side b = Buy then sint limit \<ge> sint best else sint limit \<le> sint best)"
| "crosses (MarketOrder b) best = True"
| "crosses (IcebergOrder b limit display visible) best =
     (if ob_side b = Buy then sint limit \<ge> sint best else sint limit \<le> sint best)"

fun restingPrice :: "order \<Rightarrow> Price option" where
  "restingPrice (LimitOrder b limit) = Some limit"
| "restingPrice (MarketOrder b) = None"
| "restingPrice (IcebergOrder b limit display visible) = Some limit"

fun visibleQty :: "order \<Rightarrow> Quantity" where
  "visibleQty (LimitOrder b limit) = ob_remaining b"
| "visibleQty (MarketOrder b) = ob_remaining b"
| "visibleQty (IcebergOrder b limit display visible) = visible"

fun displaySize :: "order \<Rightarrow> Quantity" where
  "displaySize (LimitOrder b limit) = ob_remaining b"
| "displaySize (MarketOrder b) = ob_remaining b"
| "displaySize (IcebergOrder b limit display visible) = display"

definition hiddenQty :: "order \<Rightarrow> Quantity" where
  "hiddenQty ord = remaining ord - visibleQty ord"

definition needsReplenish :: "order \<Rightarrow> bool" where
  "needsReplenish ord \<longleftrightarrow> remaining ord > 0 \<and> visibleQty ord = 0"

section \<open>Mutators\<close>

definition assignSequence :: "Sequence \<Rightarrow> order \<Rightarrow> order" where
  "assignSequence s = map_base (\<lambda>b. b\<lparr>ob_sequence := s\<rparr>)"

fun onPartialFill :: "Quantity \<Rightarrow> order \<Rightarrow> order" where
  "onPartialFill qty (LimitOrder b limit) =
     LimitOrder (b\<lparr>ob_remaining := ob_remaining b - qty\<rparr>) limit"
| "onPartialFill qty (MarketOrder b) =
     MarketOrder (b\<lparr>ob_remaining := ob_remaining b - qty\<rparr>)"
| "onPartialFill qty (IcebergOrder b limit display visible) =
     IcebergOrder (b\<lparr>ob_remaining := ob_remaining b - qty\<rparr>) limit display (visible - qty)"

fun replenish :: "order \<Rightarrow> order" where
  "replenish (LimitOrder b limit) = LimitOrder b limit"
| "replenish (MarketOrder b) = MarketOrder b"
| "replenish (IcebergOrder b limit display visible) =
     IcebergOrder b limit display (min display (ob_remaining b))"

fun amend :: "Quantity \<Rightarrow> Price \<Rightarrow> order \<Rightarrow> order" where
  "amend newQty newPrice (LimitOrder b limit) = LimitOrder (b\<lparr>ob_remaining := newQty\<rparr>) newPrice"
| "amend newQty newPrice (MarketOrder b) = MarketOrder (b\<lparr>ob_remaining := newQty\<rparr>)"
| "amend newQty newPrice (IcebergOrder b limit display visible) =
     (let display' = min display newQty
      in IcebergOrder (b\<lparr>ob_remaining := newQty\<rparr>) newPrice display' (min display' newQty))"

fun reduceTo :: "Quantity \<Rightarrow> order \<Rightarrow> order" where
  "reduceTo newQty (LimitOrder b limit) = LimitOrder (b\<lparr>ob_remaining := newQty\<rparr>) limit"
| "reduceTo newQty (MarketOrder b) = MarketOrder (b\<lparr>ob_remaining := newQty\<rparr>)"
| "reduceTo newQty (IcebergOrder b limit display visible) =
     IcebergOrder (b\<lparr>ob_remaining := newQty\<rparr>) limit (min display newQty) (min visible newQty)"

fun cloneAmended :: "Quantity \<Rightarrow> Price \<Rightarrow> order \<Rightarrow> order" where
  "cloneAmended newQty newPrice (LimitOrder b limit) =
     new_LimitOrder (ob_id b) (ob_side b) (ob_account b) newQty newPrice"
| "cloneAmended newQty newPrice (MarketOrder b) =
     new_MarketOrder (ob_id b) (ob_side b) (ob_account b) newQty"
| "cloneAmended newQty newPrice (IcebergOrder b limit display visible) =
     new_IcebergOrder (ob_id b) (ob_side b) (ob_account b) newQty newPrice display"

section \<open>Well-formed orders\<close>

text \<open>
  What an order on the book must satisfy for the matcher to be sound: it shows something, it
  shows no more than it holds, and an iceberg has a tranche to refresh with.
\<close>

fun order_wf :: "order \<Rightarrow> bool" where
  "order_wf (LimitOrder b limit) \<longleftrightarrow> ob_remaining b > 0"
| "order_wf (MarketOrder b) \<longleftrightarrow> ob_remaining b > 0"
| "order_wf (IcebergOrder b limit display visible) \<longleftrightarrow>
     0 < visible \<and> visible \<le> ob_remaining b \<and> visible \<le> display"

fun is_iceberg :: "order \<Rightarrow> bool" where
  "is_iceberg (IcebergOrder b limit display visible) = True"
| "is_iceberg _ = False"

lemmas order_defs =
  order_id_def order_side_def order_account_def remaining_def order_sequence_def isFilled_def
  needsReplenish_def hiddenQty_def assignSequence_def new_base_def new_LimitOrder_def
  new_MarketOrder_def new_IcebergOrder_def

named_theorems order_simps \<open>what each mutator leaves alone and what it changes\<close>

lemma onPartialFill_observers [order_simps, simp]:
  "order_id (onPartialFill q ord) = order_id ord"
  "order_side (onPartialFill q ord) = order_side ord"
  "order_account (onPartialFill q ord) = order_account ord"
  "restingPrice (onPartialFill q ord) = restingPrice ord"
  "crosses (onPartialFill q ord) = crosses ord"
  "remaining (onPartialFill q ord) = remaining ord - q"
  "visibleQty (onPartialFill q ord) = visibleQty ord - q"
  "is_iceberg (onPartialFill q ord) = is_iceberg ord"
  by (cases ord; auto simp: order_defs)+

lemma replenish_observers [order_simps, simp]:
  "order_id (replenish ord) = order_id ord"
  "order_side (replenish ord) = order_side ord"
  "order_account (replenish ord) = order_account ord"
  "restingPrice (replenish ord) = restingPrice ord"
  "remaining (replenish ord) = remaining ord"
  "displaySize (replenish ord) = displaySize ord"
  "is_iceberg (replenish ord) = is_iceberg ord"
  by (cases ord; auto simp: order_defs)+

lemma reduceTo_observers [order_simps, simp]:
  "order_id (reduceTo q ord) = order_id ord"
  "order_side (reduceTo q ord) = order_side ord"
  "order_account (reduceTo q ord) = order_account ord"
  "restingPrice (reduceTo q ord) = restingPrice ord"
  "remaining (reduceTo q ord) = q"
  by (cases ord; auto simp: order_defs)+

lemma assignSequence_observers [order_simps, simp]:
  "order_id (assignSequence s ord) = order_id ord"
  "order_side (assignSequence s ord) = order_side ord"
  "order_account (assignSequence s ord) = order_account ord"
  "restingPrice (assignSequence s ord) = restingPrice ord"
  "crosses (assignSequence s ord) = crosses ord"
  "remaining (assignSequence s ord) = remaining ord"
  "visibleQty (assignSequence s ord) = visibleQty ord"
  "displaySize (assignSequence s ord) = displaySize ord"
  "order_sequence (assignSequence s ord) = s"
  "is_iceberg (assignSequence s ord) = is_iceberg ord"
  "order_wf (assignSequence s ord) = order_wf ord"
  by (cases ord; auto simp: order_defs)+

lemma cloneAmended_observers [order_simps, simp]:
  "order_id (cloneAmended q p ord) = order_id ord"
  "order_side (cloneAmended q p ord) = order_side ord"
  "order_account (cloneAmended q p ord) = order_account ord"
  "remaining (cloneAmended q p ord) = q"
  "is_iceberg (cloneAmended q p ord) = is_iceberg ord"
  "restingPrice (cloneAmended q p ord) = map_option (\<lambda>_. p) (restingPrice ord)"
  by (cases ord; auto simp: order_defs Let_def)+

lemma order_wf_visible: "order_wf ord \<Longrightarrow> 0 < visibleQty ord \<and> visibleQty ord \<le> remaining ord"
  by (cases ord) (auto simp: order_defs)

lemma order_wf_remaining: "order_wf ord \<Longrightarrow> 0 < remaining ord"
  by (cases ord) (auto simp: order_defs)

text \<open>An order that hides nothing shows exactly what it holds.\<close>

lemma not_iceberg_visible: "\<not> is_iceberg ord \<Longrightarrow> visibleQty ord = remaining ord"
  by (cases ord) (auto simp: order_defs)

lemma not_iceberg_wf: "\<not> is_iceberg ord \<Longrightarrow> order_wf ord = (0 < remaining ord)"
  by (cases ord) (auto simp: order_defs)

section \<open>Every constructor and mutator keeps orders well formed\<close>

lemma new_orders_wf:
  assumes "0 < qty"
  shows "order_wf (new_LimitOrder i s a qty p)"
    and "order_wf (new_MarketOrder i s a qty)"
    and "order_wf (new_IcebergOrder i s a qty p d)"
  using assms by (auto simp: order_defs Let_def word_neq_0_conv)

lemma cloneAmended_wf: "0 < q \<Longrightarrow> order_wf (cloneAmended q p ord)"
  by (cases ord) (simp_all add: new_orders_wf)

lemma reduceTo_wf: "order_wf ord \<Longrightarrow> 0 < q \<Longrightarrow> order_wf (reduceTo q ord)"
  by (cases ord) (auto simp: min_le_iff_disj)

text \<open>Shrinking in place never shows more than before.\<close>

lemma reduceTo_visible_le: "q \<le> remaining ord \<Longrightarrow> visibleQty (reduceTo q ord) \<le> visibleQty ord"
  by (cases ord) (auto simp: order_defs)

text \<open>
  An execution within the visible tranche leaves one of three states, which are the three
  branches of the commit loop: filled, to be replenished, or still well formed.
\<close>

lemma onPartialFill_cases:
  assumes wf: "order_wf ord" and q: "q \<le> visibleQty ord"
  obtains (filled) "isFilled (onPartialFill q ord)"
  | (spent) "\<not> isFilled (onPartialFill q ord)" and "needsReplenish (onPartialFill q ord)"
      and "order_wf (replenish (onPartialFill q ord))"
  | (open_) "\<not> isFilled (onPartialFill q ord)" and "\<not> needsReplenish (onPartialFill q ord)"
      and "order_wf (onPartialFill q ord)"
proof (cases "isFilled (onPartialFill q ord)")
  case True
  then show ?thesis by (rule filled)
next
  case unfilled: False
  show ?thesis
  proof (cases ord)
    case (IcebergOrder b limit display visible)
    have "q \<le> visible" "visible \<le> ob_remaining b" "visible \<le> display" "0 < visible"
      using wf q IcebergOrder by auto
    then have le: "visible - q \<le> ob_remaining b - q" "visible - q \<le> display"
      by (auto simp: word_le_nat_alt unat_sub)
    show ?thesis
    proof (cases "visible - q = 0")
      case True
      with unfilled wf IcebergOrder show ?thesis
        by (intro spent) (auto simp: order_defs word_neq_0_conv [symmetric])
    next
      case False
      with unfilled wf IcebergOrder le show ?thesis
        by (intro open_) (auto simp: order_defs word_neq_0_conv [symmetric])
    qed
  qed (use unfilled in \<open>auto intro!: open_ simp: order_defs word_neq_0_conv [symmetric]\<close>)
qed

text \<open>A refreshed tranche is the display size, or the remainder when less is left.\<close>

lemma replenish_visible: "is_iceberg ord \<Longrightarrow> visibleQty (replenish ord) = min (displaySize ord) (remaining ord)"
  by (cases ord) (auto simp: order_defs)

text \<open>Eligibility is monotone towards the touch: an order that trades at a level trades at every better one.\<close>

lemma crosses_mono:
  "ordering_of (opposite (order_side ord)) p q \<Longrightarrow> crosses ord q \<Longrightarrow> crosses ord p"
  by (cases ord; cases "order_side ord")
     (auto simp: AskOrdering_def BidOrdering_def order_defs split: if_splits)

text \<open>
  A resting price that does not trade against \<open>q\<close> is strictly on its own side of \<open>q\<close>: resting
  there cannot cross the book.
\<close>

lemma not_crosses_iff:
  assumes "restingPrice ord = Some p"
  shows "\<not> crosses ord q \<longleftrightarrow> ordering_of (opposite (order_side ord)) p q"
  using assms by (cases ord; cases "order_side ord")
     (auto simp: AskOrdering_def BidOrdering_def order_defs split: if_splits)

end
