(* ===== verification/Price_Level.thy ===== *)
theory Price_Level
  imports Orders
begin

text \<open>
  \<^verbatim>\<open>core/price_level.hpp\<close> and \<^verbatim>\<open>core/price_level.cpp\<close>: the FIFO queue of the orders resting at one
  price, with its two cached aggregates. The queue is the list of its nodes, each with its
  address and the order it owns; an iterator is a node address, and dereferencing an address
  that is not in the queue is undefined behaviour (\<^term>\<open>None\<close>). \<^verbatim>\<open>splice\<close> moves a node without
  changing its address.
\<close>

section \<open>Model\<close>

type_synonym queue = "(node \<times> order) list"

record price_level =
  pl_orders :: queue
  pl_totalQty :: Quantity
  pl_visibleQty :: Quantity
  pl_price :: Price

definition new_PriceLevel :: "Price \<Rightarrow> price_level" where
  "new_PriceLevel p = \<lparr>pl_orders = [], pl_totalQty = 0, pl_visibleQty = 0, pl_price = p\<rparr>"

definition level_empty :: "price_level \<Rightarrow> bool" where
  "level_empty l \<longleftrightarrow> pl_orders l = []"

definition level_orderCount :: "price_level \<Rightarrow> nat" where
  "level_orderCount l = length (pl_orders l)"

definition deref :: "node \<Rightarrow> price_level \<Rightarrow> order option" where
  "deref where l = map_of (pl_orders l) where"

text \<open>\<open>enqueue\<close> appends; \<open>n\<close> is the address of the node that \<^verbatim>\<open>push_back\<close> allocates.\<close>

definition enqueue :: "node \<Rightarrow> order \<Rightarrow> price_level \<Rightarrow> node \<times> price_level" where
  "enqueue n ord l =
     (n, l\<lparr>pl_totalQty := pl_totalQty l + remaining ord,
           pl_visibleQty := pl_visibleQty l + visibleQty ord,
           pl_orders := pl_orders l @ [(n, ord)]\<rparr>)"

definition level_extract :: "node \<Rightarrow> price_level \<Rightarrow> (order \<times> price_level) option" where
  "level_extract where l = do {
     ord \<leftarrow> deref where l;
     Some (ord, l\<lparr>pl_orders := al_remove where (pl_orders l),
                  pl_totalQty := pl_totalQty l - remaining ord,
                  pl_visibleQty := pl_visibleQty l - visibleQty ord\<rparr>)
   }"

definition applyFill :: "node \<Rightarrow> Quantity \<Rightarrow> price_level \<Rightarrow> price_level option" where
  "applyFill where qty l = do {
     ord \<leftarrow> deref where l;
     Some (l\<lparr>pl_orders := al_adjust where (onPartialFill qty) (pl_orders l),
             pl_totalQty := pl_totalQty l - qty,
             pl_visibleQty := pl_visibleQty l - qty\<rparr>)
   }"

definition replenishAndRequeue :: "node \<Rightarrow> price_level \<Rightarrow> price_level option" where
  "replenishAndRequeue where l = do {
     ord \<leftarrow> deref where l;
     let refreshed = replenish ord;
     Some (l\<lparr>pl_visibleQty := pl_visibleQty l + visibleQty refreshed,
             pl_orders := al_remove where (pl_orders l) @ [(where, refreshed)]\<rparr>)
   }"

definition reduceQuantity :: "node \<Rightarrow> Quantity \<Rightarrow> price_level \<Rightarrow> price_level option" where
  "reduceQuantity where newQty l = do {
     ord \<leftarrow> deref where l;
     let reduced = reduceTo newQty ord;
     Some (l\<lparr>pl_orders := al_adjust where (\<lambda>_. reduced) (pl_orders l),
             pl_totalQty := pl_totalQty l - remaining ord + remaining reduced,
             pl_visibleQty := pl_visibleQty l - visibleQty ord + visibleQty reduced\<rparr>)
   }"

text \<open>\<open>adopt\<close> splices the node at \<open>position\<close> out of \<open>from\<close> and onto the back of this queue.\<close>

definition adopt :: "queue \<Rightarrow> node \<Rightarrow> price_level \<Rightarrow> (queue \<times> price_level) option" where
  "adopt from position l = do {
     ord \<leftarrow> map_of from position;
     Some (al_remove position from,
           l\<lparr>pl_totalQty := pl_totalQty l + remaining ord,
             pl_visibleQty := pl_visibleQty l + visibleQty ord,
             pl_orders := pl_orders l @ [(position, ord)]\<rparr>)
   }"

lemmas level_defs = new_PriceLevel_def level_empty_def level_orderCount_def deref_def enqueue_def
  level_extract_def applyFill_def replenishAndRequeue_def reduceQuantity_def adopt_def

section \<open>Invariant\<close>

definition queue_total :: "queue \<Rightarrow> Quantity" where
  "queue_total q = (\<Sum>(n, ord) \<leftarrow> q. remaining ord)"

definition queue_visible :: "queue \<Rightarrow> Quantity" where
  "queue_visible q = (\<Sum>(n, ord) \<leftarrow> q. visibleQty ord)"

text \<open>
  The cached aggregates agree with the queue. Stated over words, so it holds modulo \<open>2^64\<close>
  without any assumption on how much quantity rests at a price.
\<close>

definition aggregates_ok :: "price_level \<Rightarrow> bool" where
  "aggregates_ok l \<longleftrightarrow>
     pl_totalQty l = queue_total (pl_orders l) \<and> pl_visibleQty l = queue_visible (pl_orders l)"

definition resting_ok :: "Side \<Rightarrow> Price \<Rightarrow> order \<Rightarrow> bool" where
  "resting_ok s p ord \<longleftrightarrow> order_wf ord \<and> order_side ord = s \<and> restingPrice ord = Some p"

definition level_ok :: "Side \<Rightarrow> Price \<Rightarrow> price_level \<Rightarrow> bool" where
  "level_ok s p l \<longleftrightarrow> pl_price l = p \<and> aggregates_ok l \<and> distinct (map fst (pl_orders l)) \<and>
     (\<forall>(n, ord) \<in> set (pl_orders l). resting_ok s p ord)"

lemma queue_total_simps [simp]:
  "queue_total [] = 0"
  "queue_total ((n, ord) # q) = remaining ord + queue_total q"
  "queue_total (q @ r) = queue_total q + queue_total r"
  by (auto simp: queue_total_def)

lemma queue_visible_simps [simp]:
  "queue_visible [] = 0"
  "queue_visible ((n, ord) # q) = visibleQty ord + queue_visible q"
  "queue_visible (q @ r) = queue_visible q + queue_visible r"
  by (auto simp: queue_visible_def)

text \<open>A valid iterator splits the queue at its node.\<close>

lemma derefE:
  assumes "deref w l = Some ord" and "distinct (map fst (pl_orders l))"
  obtains xs ys where "pl_orders l = xs @ (w, ord) # ys"
    and "w \<notin> fst ` set xs" and "w \<notin> fst ` set ys"
proof -
  obtain xs ys where "pl_orders l = xs @ (w, ord) # ys" and "w \<notin> fst ` set xs"
    using assms(1) unfolding deref_def by (rule map_of_SomeE)
  with assms(2) that show thesis by simp
qed

lemma deref_in: "deref w l = Some ord \<Longrightarrow> (w, ord) \<in> set (pl_orders l)"
  by (simp add: deref_def map_of_SomeD)

lemma level_ok_resting: "level_ok s p l \<Longrightarrow> deref w l = Some ord \<Longrightarrow> resting_ok s p ord"
  by (auto simp: level_ok_def dest!: deref_in)

section \<open>Every operation keeps the level invariant\<close>

lemma level_ok_new [simp]: "level_ok s p (new_PriceLevel p)"
  by (simp add: level_ok_def aggregates_ok_def new_PriceLevel_def)

lemma level_ok_append:
  assumes "level_ok s p l" and "resting_ok s p ord" and "n \<notin> fst ` set (pl_orders l)"
  shows "level_ok s p (l\<lparr>pl_totalQty := pl_totalQty l + remaining ord,
     pl_visibleQty := pl_visibleQty l + visibleQty ord, pl_orders := pl_orders l @ [(n, ord)]\<rparr>)"
  using assms by (auto simp: level_ok_def aggregates_ok_def)

lemma enqueue_ok:
  "level_ok s p l \<Longrightarrow> resting_ok s p ord \<Longrightarrow> n \<notin> fst ` set (pl_orders l) \<Longrightarrow>
     level_ok s p (snd (enqueue n ord l))"
  by (simp add: enqueue_def level_ok_append)

lemma adopt_ok:
  assumes "level_ok s p l" and "resting_ok s p ord" and "n \<notin> fst ` set (pl_orders l)"
  shows "\<exists>l'. adopt [(n, ord)] n l = Some ([], l') \<and> level_ok s p l' \<and>
     pl_orders l' = pl_orders l @ [(n, ord)]"
  using level_ok_append [OF assms] by (simp add: adopt_def)

lemma level_okI:
  assumes "pl_price l = p" and "pl_totalQty l = queue_total (pl_orders l)"
    and "pl_visibleQty l = queue_visible (pl_orders l)" and "distinct (map fst (pl_orders l))"
    and "\<And>n ord. (n, ord) \<in> set (pl_orders l) \<Longrightarrow> resting_ok s p ord"
  shows "level_ok s p l"
  using assms by (auto simp: level_ok_def aggregates_ok_def)

text \<open>A level split at one of its nodes: what the aggregates are, and how to re-establish the invariant.\<close>

lemma level_ok_split:
  assumes "level_ok s p l" and "deref w l = Some ord"
  obtains xs ys where "pl_orders l = xs @ (w, ord) # ys"
    and "w \<notin> fst ` set xs" and "w \<notin> fst ` set ys" and "pl_price l = p"
    and "pl_totalQty l = remaining ord + (queue_total xs + queue_total ys)"
    and "pl_visibleQty l = visibleQty ord + (queue_visible xs + queue_visible ys)"
    and "distinct (map fst xs)" and "distinct (map fst ys)" and "fst ` set xs \<inter> fst ` set ys = {}"
proof -
  from assms(1) have d: "distinct (map fst (pl_orders l))" by (simp add: level_ok_def)
  obtain xs ys where qs: "pl_orders l = xs @ (w, ord) # ys"
    and w: "w \<notin> fst ` set xs" "w \<notin> fst ` set ys" by (rule derefE [OF assms(2) d])
  show thesis
    by (rule that [OF qs w]) (use assms(1) qs d w in \<open>auto simp: level_ok_def aggregates_ok_def\<close>)
qed

lemma level_ok_replace:
  assumes "level_ok s p l" and "pl_orders l = xs @ (w, ord) # ys" and "pl_price l' = p"
    and l': "pl_orders l' = qs'" and "pl_totalQty l' = queue_total qs'"
    and "pl_visibleQty l' = queue_visible qs'" and "distinct (map fst qs')"
    and qs': "\<forall>e \<in> set qs'. e \<in> set xs \<union> set ys \<or> resting_ok s p (snd e)"
  shows "level_ok s p l'"
proof -
  have rest: "\<And>n o'. (n, o') \<in> set xs \<union> set ys \<Longrightarrow> resting_ok s p o'"
    using assms(1,2) by (auto simp: level_ok_def)
  have "resting_ok s p o'" if "(n, o') \<in> set (pl_orders l')" for n o'
    using that l' qs' rest by fastforce
  then show ?thesis using assms by (intro level_okI) simp_all
qed

lemma level_extract_ok:
  assumes l: "level_ok s p l" and d: "deref w l = Some ord"
  shows "\<exists>l'. level_extract w l = Some (ord, l') \<and> level_ok s p l' \<and>
     pl_orders l' = al_remove w (pl_orders l)"
proof -
  obtain xs ys where qs: "pl_orders l = xs @ (w, ord) # ys"
    and w: "w \<notin> fst ` set xs" "w \<notin> fst ` set ys" and agg: "pl_price l = p"
      "pl_totalQty l = remaining ord + (queue_total xs + queue_total ys)"
      "pl_visibleQty l = visibleQty ord + (queue_visible xs + queue_visible ys)"
      "distinct (map fst xs)" "distinct (map fst ys)" "fst ` set xs \<inter> fst ` set ys = {}"
    by (rule level_ok_split [OF l d])
  note okI = level_ok_replace [OF l qs]
  let ?l' = "l\<lparr>pl_orders := xs @ ys, pl_totalQty := pl_totalQty l - remaining ord,
    pl_visibleQty := pl_visibleQty l - visibleQty ord\<rparr>"
  have "level_extract w l = Some (ord, ?l')" using d qs w by (simp add: level_extract_def)
  moreover have "level_ok s p ?l'" by (rule okI [of _ "xs @ ys"]) (use agg in auto)
  moreover have "pl_orders ?l' = al_remove w (pl_orders l)" using qs w by simp
  ultimately show ?thesis by simp
qed

lemma reduceQuantity_ok:
  assumes l: "level_ok s p l" and d: "deref w l = Some ord" and q: "0 < q"
  shows "\<exists>l'. reduceQuantity w q l = Some l' \<and> level_ok s p l' \<and>
     pl_orders l' = al_adjust w (reduceTo q) (pl_orders l)"
proof -
  obtain xs ys where qs: "pl_orders l = xs @ (w, ord) # ys"
    and w: "w \<notin> fst ` set xs" "w \<notin> fst ` set ys" and agg: "pl_price l = p"
      "pl_totalQty l = remaining ord + (queue_total xs + queue_total ys)"
      "pl_visibleQty l = visibleQty ord + (queue_visible xs + queue_visible ys)"
      "distinct (map fst xs)" "distinct (map fst ys)" "fst ` set xs \<inter> fst ` set ys = {}"
    by (rule level_ok_split [OF l d])
  note okI = level_ok_replace [OF l qs]
  let ?qs = "xs @ (w, reduceTo q ord) # ys"
  let ?l' = "l\<lparr>pl_orders := ?qs, pl_totalQty := pl_totalQty l - remaining ord + q,
    pl_visibleQty := pl_visibleQty l - visibleQty ord + visibleQty (reduceTo q ord)\<rparr>"
  have "reduceQuantity w q l = Some ?l'" using d qs w by (simp add: reduceQuantity_def Let_def)
  moreover have "resting_ok s p (reduceTo q ord)"
    using level_ok_resting [OF l d] q by (simp add: resting_ok_def reduceTo_wf)
  then have "level_ok s p ?l'" by (intro okI [of _ ?qs]) (use agg w in auto)
  moreover have "pl_orders ?l' = al_adjust w (reduceTo q) (pl_orders l)" using qs w by simp
  ultimately show ?thesis by simp
qed

section \<open>One committed execution, seen from the level\<close>

text \<open>
  The commit loop of \<^verbatim>\<open>Book::commitSubmit\<close> applies a fill to a level and then either extracts the
  order, requeues it or leaves it. \<open>fill_queue\<close> is what that does to the queue.
\<close>

definition settle :: "node \<Rightarrow> price_level \<Rightarrow> price_level option" where
  "settle where l = do {
     ord \<leftarrow> deref where l;
     if isFilled ord then map_option snd (level_extract where l)
     else if needsReplenish ord then replenishAndRequeue where l
     else Some l
   }"

definition fill_level :: "node \<Rightarrow> Quantity \<Rightarrow> price_level \<Rightarrow> price_level option" where
  "fill_level where qty l = do { l1 \<leftarrow> applyFill where qty l; settle where l1 }"

definition fill_queue :: "node \<Rightarrow> Quantity \<Rightarrow> order \<Rightarrow> queue \<Rightarrow> queue" where
  "fill_queue where qty ord q =
     (let hit = onPartialFill qty ord
      in if isFilled hit then al_remove where q
         else if needsReplenish hit then al_remove where q @ [(where, replenish hit)]
         else al_adjust where (\<lambda>_. hit) q)"

lemma fill_level_ok:
  assumes l: "level_ok s p l" and d: "deref w l = Some ord" and q: "q \<le> visibleQty ord"
  shows "\<exists>l'. fill_level w q l = Some l' \<and> level_ok s p l' \<and>
     pl_orders l' = fill_queue w q ord (pl_orders l)"
proof -
  obtain xs ys where qs: "pl_orders l = xs @ (w, ord) # ys"
    and w: "w \<notin> fst ` set xs" "w \<notin> fst ` set ys" and agg: "pl_price l = p"
      "pl_totalQty l = remaining ord + (queue_total xs + queue_total ys)"
      "pl_visibleQty l = visibleQty ord + (queue_visible xs + queue_visible ys)"
      "distinct (map fst xs)" "distinct (map fst ys)" "fst ` set xs \<inter> fst ` set ys = {}"
    by (rule level_ok_split [OF l d])
  note okI = level_ok_replace [OF l qs]
  let ?hit = "onPartialFill q ord"
  let ?l1 = "l\<lparr>pl_orders := xs @ (w, ?hit) # ys, pl_totalQty := pl_totalQty l - q,
    pl_visibleQty := pl_visibleQty l - q\<rparr>"
  have step: "fill_level w q l = settle w ?l1" and hit: "deref w ?l1 = Some ?hit"
    using d qs w by (simp_all add: fill_level_def applyFill_def deref_def)
  have r: "resting_ok s p ord" by (rule level_ok_resting [OF l d])
  then have wf: "order_wf ord" by (simp add: resting_ok_def)
  have full: "q = visibleQty ord" if "remaining ord = q"
    using order_wf_visible [OF wf] q that by simp
  from wf q show ?thesis
  proof (cases rule: onPartialFill_cases)
    case filled
    then have eq: "remaining ord = q" "visibleQty ord = q" using full by (auto simp: isFilled_def)
    let ?l2 = "?l1\<lparr>pl_orders := xs @ ys\<rparr>"
    have s: "settle w ?l1 = Some ?l2"
      using filled hit w eq by (simp add: settle_def level_extract_def)
    have "level_ok s p ?l2" by (rule okI [of _ "xs @ ys"]) (use eq agg in auto)
    moreover have "pl_orders ?l2 = fill_queue w q ord (pl_orders l)"
      using filled w qs by (simp add: fill_queue_def)
    ultimately show ?thesis using step s by simp
  next
    case spent
    then have eq: "visibleQty ord = q" by (simp add: needsReplenish_def)
    let ?qs = "xs @ ys @ [(w, replenish ?hit)]"
    let ?l2 = "?l1\<lparr>pl_visibleQty := pl_visibleQty l - q + visibleQty (replenish ?hit), pl_orders := ?qs\<rparr>"
    have s: "settle w ?l1 = Some ?l2"
      using spent hit w by (simp add: settle_def replenishAndRequeue_def Let_def)
    have "level_ok s p ?l2" by (rule okI [of _ ?qs]) (use spent r w eq agg in \<open>auto simp: resting_ok_def\<close>)
    moreover have "pl_orders ?l2 = fill_queue w q ord (pl_orders l)"
      using spent w qs by (simp add: fill_queue_def)
    ultimately show ?thesis using step s by simp
  next
    case open_
    then have s: "settle w ?l1 = Some ?l1" using hit by (simp add: settle_def)
    have "level_ok s p ?l1"
      by (rule okI [of _ "xs @ (w, ?hit) # ys"]) (use open_ r w agg in \<open>auto simp: resting_ok_def\<close>)
    moreover have "pl_orders ?l1 = fill_queue w q ord (pl_orders l)"
      using open_ w qs by (simp add: fill_queue_def)
    ultimately show ?thesis using step s by simp
  qed
qed
end
