(* ===== verification/Matching.thy ===== *)
theory Matching
  imports Price_Level
begin

text \<open>
  \<^verbatim>\<open>core/fill.hpp\<close>, \<^verbatim>\<open>core/matching_strategy.hpp\<close> and \<^verbatim>\<open>core/price_time_strategy.cpp\<close>: planned and
  executed fills, the contract of a matching strategy (the locale \<open>matching_strategy\<close>) and the
  price-time strategy, which is proved to satisfy it and to agree with the direct sweep that
  mutates the queue as it walks.
\<close>

section \<open>Plans\<close>

record Fill =
  fl_aggressorId :: OrderId
  fl_restingId :: OrderId
  fl_price :: Price
  fl_quantity :: Quantity
  fl_aggressorAccount :: AccountId
  fl_restingAccount :: AccountId
  fl_aggressorSide :: Side

text \<open>
  A \<^verbatim>\<open>PriceLevel*\<close> is the price of the level it points to: the nodes of the level map do not
  move, and a side has one level per price.
\<close>

record PlannedFill =
  pf_level :: Price
  pf_resting :: node
  pf_price :: Price
  pf_quantity :: Quantity
  pf_restingId :: OrderId
  pf_restingAccount :: AccountId

record MatchPlan =
  mp_fills :: "PlannedFill list"
  mp_aggressorFilled :: Quantity
  mp_selfMatchBlocked :: bool

definition empty_plan :: MatchPlan where
  "empty_plan = \<lparr>mp_fills = [], mp_aggressorFilled = 0, mp_selfMatchBlocked = False\<rparr>"

type_synonym strategy = "order \<Rightarrow> Quantity \<Rightarrow> price_level \<Rightarrow> MatchPlan \<Rightarrow> MatchPlan option"

section \<open>The price-time strategy\<close>

record Pending =
  pd_position :: node
  pd_account :: AccountId
  pd_id :: OrderId
  pd_remaining :: Quantity
  pd_visible :: Quantity
  pd_display :: Quantity

definition pending_of :: "node \<times> order \<Rightarrow> Pending" where
  "pending_of e = (case e of (n, resting) \<Rightarrow>
     \<lparr>pd_position = n, pd_account = order_account resting, pd_id = order_id resting,
      pd_remaining = remaining resting, pd_visible = visibleQty resting,
      pd_display = displaySize resting\<rparr>)"

text \<open>
  The planning loop over the working copy of the queue. The violated precondition \<open>qty > 0\<close> is
  undefined behaviour; otherwise every iteration spends some of the available quantity.
\<close>

function plan_loop :: "order \<Rightarrow> Price \<Rightarrow> Quantity \<Rightarrow> Pending list \<Rightarrow> MatchPlan \<Rightarrow> MatchPlan option" where
  "plan_loop aggressor level available queue into =
     (if available > 0 then
        (case queue of
           [] \<Rightarrow> Some into
         | front # rest \<Rightarrow>
             if pd_account front = order_account aggressor
             then Some (into\<lparr>mp_selfMatchBlocked := True\<rparr>)
             else
               let qty = min available (pd_visible front) in
               if \<not> qty > 0 then None
               else
                 let into' = into\<lparr>mp_fills := mp_fills into @
                       [\<lparr>pf_level = level, pf_resting = pd_position front, pf_price = level,
                         pf_quantity = qty, pf_restingId = pd_id front,
                         pf_restingAccount = pd_account front\<rparr>]\<rparr>;
                     front' = front\<lparr>pd_remaining := pd_remaining front - qty,
                                    pd_visible := pd_visible front - qty\<rparr>;
                     available' = available - qty
                 in if pd_remaining front' = 0
                    then plan_loop aggressor level available' rest into'
                    else if pd_visible front' = 0
                    then plan_loop aggressor level available'
                      (rest @ [front'\<lparr>pd_visible := min (pd_display front') (pd_remaining front')\<rparr>]) into'
                    else plan_loop aggressor level available' (front' # rest) into')
      else Some into)"
  by pat_completeness auto
termination
  by (relation "measure (\<lambda>(aggressor, level, available, queue, into). unat available)")
     (simp, (simp (no_asm) only: in_measure prod.case, rule unat_minus_min_less, assumption+)+)

declare plan_loop.simps [simp del]

definition price_time_plan :: strategy where
  "price_time_plan aggressor available level into =
     plan_loop aggressor (pl_price level) available (map pending_of (pl_orders level)) into"

section \<open>Committing a plan to one level\<close>

fun run_fills :: "PlannedFill list \<Rightarrow> price_level \<Rightarrow> price_level option" where
  "run_fills [] l = Some l"
| "run_fills (f # fs) l = do { l' \<leftarrow> fill_level (pf_resting f) (pf_quantity f) l; run_fills fs l' }"

text \<open>
  A list of planned fills is valid for a level when, committed in order, every fill names a live
  node by its address, identifies the order there correctly, and executes a positive quantity
  that the order is displaying at that moment.
\<close>

fun fills_valid :: "PlannedFill list \<Rightarrow> price_level \<Rightarrow> bool" where
  "fills_valid [] l \<longleftrightarrow> True"
| "fills_valid (f # fs) l \<longleftrightarrow>
     (case deref (pf_resting f) l of
        None \<Rightarrow> False
      | Some ord \<Rightarrow>
          order_id ord = pf_restingId f \<and> order_account ord = pf_restingAccount f \<and>
          0 < pf_quantity f \<and> pf_quantity f \<le> visibleQty ord \<and>
          (case fill_level (pf_resting f) (pf_quantity f) l of
             None \<Rightarrow> False | Some l' \<Rightarrow> fills_valid fs l'))"

definition planned_qty :: "PlannedFill list \<Rightarrow> nat" where
  "planned_qty fs = (\<Sum>f \<leftarrow> fs. unat (pf_quantity f))"

lemma planned_qty_simps [simp]:
  "planned_qty [] = 0"
  "planned_qty (f # fs) = unat (pf_quantity f) + planned_qty fs"
  "planned_qty (fs @ gs) = planned_qty fs + planned_qty gs"
  by (auto simp: planned_qty_def)

lemma fills_valid_run:
  assumes "level_ok s p l" and "fills_valid fs l"
  shows "\<exists>l'. run_fills fs l = Some l' \<and> level_ok s p l'"
  using assms
proof (induction fs arbitrary: l)
  case Nil
  then show ?case by simp
next
  case (Cons f fs)
  then obtain ord where ord: "deref (pf_resting f) l = Some ord" "pf_quantity f \<le> visibleQty ord"
    by (auto split: option.splits)
  with Cons.prems(1) obtain l1 where l1: "fill_level (pf_resting f) (pf_quantity f) l = Some l1"
    "level_ok s p l1" using fill_level_ok by blast
  with Cons.prems(2) ord have "fills_valid fs l1" by simp
  with Cons.IH l1 show ?case by simp
qed

section \<open>The contract of a strategy\<close>

text \<open>
  What the book relies on. A strategy only appends to the plan it is given; what it appends is
  valid for the level, never matches the aggressor against its own account, stays within the
  available quantity, and, unless it was blocked by a self-match, either uses up the aggressor
  or empties the level. Anything that satisfies this can be dropped into the book.
\<close>

definition plan_fits :: "order \<Rightarrow> Quantity \<Rightarrow> price_level \<Rightarrow> PlannedFill list \<Rightarrow> bool \<Rightarrow> bool" where
  "plan_fits aggressor available l fs blocked \<longleftrightarrow>
     fills_valid fs l \<and> planned_qty fs \<le> unat available \<and>
     (\<forall>f \<in> set fs. pf_level f = pl_price l \<and> pf_price f = pl_price l \<and>
        pf_restingAccount f \<noteq> order_account aggressor) \<and>
     (\<not> blocked \<longrightarrow> planned_qty fs = unat available \<or>
        (\<exists>l'. run_fills fs l = Some l' \<and> pl_orders l' = []))"

definition extend_plan :: "MatchPlan \<Rightarrow> PlannedFill list \<Rightarrow> bool \<Rightarrow> MatchPlan" where
  "extend_plan into fs blocked =
     into\<lparr>mp_fills := mp_fills into @ fs, mp_selfMatchBlocked := mp_selfMatchBlocked into \<or> blocked\<rparr>"

lemma extend_plan_simps [simp]:
  "mp_fills (extend_plan into fs b) = mp_fills into @ fs"
  "mp_selfMatchBlocked (extend_plan into fs b) = (mp_selfMatchBlocked into \<or> b)"
  "mp_aggressorFilled (extend_plan into fs b) = mp_aggressorFilled into"
  "extend_plan (extend_plan into fs b) gs c = extend_plan into (fs @ gs) (b \<or> c)"
  "extend_plan into [] False = into"
  by (auto simp: extend_plan_def)

locale matching_strategy =
  fixes plan :: strategy
  assumes plan_contract: "level_ok s p l \<Longrightarrow> 0 < available \<Longrightarrow>
    \<exists>fs blocked. plan aggressor available l into = Some (extend_plan into fs blocked) \<and>
      plan_fits aggressor available l fs blocked"
begin

text \<open>On a non-empty level an unblocked strategy always makes progress.\<close>

lemma plan_progress:
  assumes "level_ok s p l" and "0 < available" and "pl_orders l \<noteq> []"
    and "plan aggressor available l into = Some (extend_plan into fs blocked)"
    and "plan_fits aggressor available l fs blocked" and "\<not> blocked"
  shows "0 < planned_qty fs"
proof (cases fs)
  case Nil
  with assms show ?thesis by (auto simp: plan_fits_def word_gr0_unat)
next
  case (Cons f gs)
  with assms(5) show ?thesis by (auto simp: plan_fits_def word_gr0_unat split: option.splits)
qed

end

end
