(* ===== verification/Price_Time.thy ===== *)
theory Price_Time
  imports Matching
begin

text \<open>
  Correctness of \<^verbatim>\<open>PriceTimeStrategy::plan\<close>. The reference is \<open>sweep\<close>: the direct algorithm that
  executes against the head of the real queue and mutates it as it goes. The strategy instead
  simulates the queue on \<^verbatim>\<open>Pending\<close> copies and mutates nothing; the two agree fill for fill, and
  committing the plan yields the queue the direct sweep leaves.
\<close>

section \<open>Reference: the direct sweep of a queue\<close>

function sweep :: "AccountId \<Rightarrow> Quantity \<Rightarrow> queue \<Rightarrow> (node \<times> order \<times> Quantity) list \<times> queue \<times> bool" where
  "sweep acct avail q =
     (if avail = 0 then ([], q, False)
      else case q of
        [] \<Rightarrow> ([], [], False)
      | (n, ord) # rest \<Rightarrow>
          if order_account ord = acct then ([], q, True)
          else
            let qty = min avail (visibleQty ord) in
            if \<not> 0 < qty then ([], q, False)
            else
              let left = avail - qty;
                  (fs, q', blocked) = sweep acct left (fill_queue n qty ord q)
              in ((n, ord, qty) # fs, q', blocked))"
  by pat_completeness auto
termination
  by (relation "measure (\<lambda>(acct, avail, q). unat avail)")
     (simp, simp (no_asm) only: in_measure prod.case, rule unat_minus_min_less, assumption+)

declare sweep.simps [simp del]

definition as_planned :: "Price \<Rightarrow> node \<times> order \<times> Quantity \<Rightarrow> PlannedFill" where
  "as_planned p e = (case e of (n, ord, qty) \<Rightarrow>
     \<lparr>pf_level = p, pf_resting = n, pf_price = p, pf_quantity = qty,
      pf_restingId = order_id ord, pf_restingAccount = order_account ord\<rparr>)"

lemma as_planned_simps [simp]:
  "pf_level (as_planned p (n, ord, qty)) = p" "pf_price (as_planned p (n, ord, qty)) = p"
  "pf_resting (as_planned p (n, ord, qty)) = n" "pf_quantity (as_planned p (n, ord, qty)) = qty"
  "pf_restingId (as_planned p (n, ord, qty)) = order_id ord"
  "pf_restingAccount (as_planned p (n, ord, qty)) = order_account ord"
  by (simp_all add: as_planned_def)

section \<open>The simulated queue tracks the real one\<close>

definition tracks :: "Pending \<Rightarrow> node \<times> order \<Rightarrow> bool" where
  "tracks pd e = (case e of (n, ord) \<Rightarrow>
     pd_position pd = n \<and> pd_account pd = order_account ord \<and> pd_id pd = order_id ord \<and>
     pd_remaining pd = remaining ord \<and> pd_visible pd = visibleQty ord \<and>
     (is_iceberg ord \<longrightarrow> pd_display pd = displaySize ord))"

lemma tracks_pending_of: "list_all2 tracks (map pending_of q) q"
  by (auto simp: list_all2_map1 tracks_def pending_of_def intro!: list_all2_refl split: prod.splits)

lemma displaySize_onPartialFill: "is_iceberg ord \<Longrightarrow> displaySize (onPartialFill q ord) = displaySize ord"
  by (cases ord) auto

lemma plan_loop_step:
  assumes "0 < avail" and front: "tracks front (n, ord)" and rest: "list_all2 tracks rest os"
    and acct: "order_account ord \<noteq> order_account agg" and wf: "order_wf ord"
    and n: "n \<notin> fst ` set os"
  defines "qty \<equiv> min avail (visibleQty ord)"
  shows "\<exists>queue'. list_all2 tracks queue' (fill_queue n qty ord ((n, ord) # os)) \<and>
     plan_loop agg p avail (front # rest) into =
       plan_loop agg p (avail - qty) queue' (extend_plan into [as_planned p (n, ord, qty)] False)"
proof -
  let ?hit = "onPartialFill qty ord"
  let ?front = "front\<lparr>pd_remaining := remaining ord - qty, pd_visible := visibleQty ord - qty\<rparr>"
  let ?into = "extend_plan into [as_planned p (n, ord, qty)] False"
  have qty: "0 < qty" "qty \<le> visibleQty ord"
    using order_wf_visible [OF wf] \<open>0 < avail\<close> by (auto simp: qty_def)
  have step: "plan_loop agg p avail (front # rest) into =
      (if remaining ord - qty = 0 then plan_loop agg p (avail - qty) rest ?into
       else if visibleQty ord - qty = 0 then plan_loop agg p (avail - qty)
         (rest @ [?front\<lparr>pd_visible := min (pd_display front) (remaining ord - qty)\<rparr>]) ?into
       else plan_loop agg p (avail - qty) (?front # rest) ?into)"
    using \<open>0 < avail\<close> front acct qty
    by (subst plan_loop.simps) (simp add: tracks_def Let_def qty_def extend_plan_def as_planned_def)
  from wf qty(2) show ?thesis
  proof (cases rule: onPartialFill_cases)
    case filled
    with step rest n show ?thesis
      by (intro exI [of _ rest]) (simp add: fill_queue_def isFilled_def)
  next
    case spent
    have ice: "is_iceberg ord"
      using spent not_iceberg_visible [of ord] by (auto simp: isFilled_def needsReplenish_def)
    let ?new = "?front\<lparr>pd_visible := min (pd_display front) (remaining ord - qty)\<rparr>"
    have "tracks ?new (n, replenish ?hit)"
      using front ice replenish_visible [of ?hit]
      by (simp add: tracks_def displaySize_onPartialFill)
    then have "list_all2 tracks (rest @ [?new]) (fill_queue n qty ord ((n, ord) # os))"
      using spent rest n by (simp add: fill_queue_def list_all2_appendI)
    then show ?thesis
      using step spent by (intro exI [of _ "rest @ [?new]"]) (simp add: isFilled_def needsReplenish_def)
  next
    case open_
    then have "visibleQty ord - qty \<noteq> 0" by (auto simp: isFilled_def needsReplenish_def word_gt_0)
    moreover have "tracks ?front (n, ?hit)"
      using front by (simp add: tracks_def displaySize_onPartialFill)
    ultimately show ?thesis
      using step open_ rest n by (intro exI [of _ "?front # rest"]) (simp add: fill_queue_def isFilled_def)
  qed
qed

section \<open>Planning then committing is the direct sweep\<close>

lemma plan_loop_sweep:
  assumes "level_ok s p l" and "list_all2 tracks queue (pl_orders l)"
  shows "\<exists>sw blocked l'. sweep (order_account agg) avail (pl_orders l) = (sw, pl_orders l', blocked) \<and>
     plan_loop agg p avail queue into = Some (extend_plan into (map (as_planned p) sw) blocked) \<and>
     run_fills (map (as_planned p) sw) l = Some l' \<and>
     plan_fits agg avail l (map (as_planned p) sw) blocked"
  using assms
proof (induction avail arbitrary: l queue into rule: measure_induct_rule [of unat])
  case (less avail)
  note l = less.prems(1) and tr = less.prems(2)
  consider (none) "avail = 0" | (empty) "0 < avail" "pl_orders l = []"
    | (more) n ord os where "0 < avail" "pl_orders l = (n, ord) # os"
    by (cases "pl_orders l") (auto simp: word_neq_0_conv [symmetric])
  then show ?case
  proof cases
    case none
    then show ?thesis
      by (intro exI [of _ "[]"] exI [of _ False] exI [of _ l])
         (simp add: sweep.simps [of _ 0] plan_loop.simps [of _ _ 0] plan_fits_def)
  next
    case empty
    with tr show ?thesis
      by (intro exI [of _ "[]"] exI [of _ False] exI [of _ l])
         (simp add: sweep.simps [of _ avail] plan_loop.simps [of _ _ avail] plan_fits_def)
  next
    case more
    obtain front rest where queue: "queue = front # rest" and front: "tracks front (n, ord)"
      and rest: "list_all2 tracks rest os"
      using tr more by (auto simp: list_all2_Cons2)
    have d: "deref n l = Some ord" using more by (simp add: deref_def)
    have wf: "order_wf ord" using level_ok_resting [OF l d] by (simp add: resting_ok_def)
    have n: "n \<notin> fst ` set os" using l more by (simp add: level_ok_def)
    show ?thesis
    proof (cases "order_account ord = order_account agg")
      case True
      with more front queue show ?thesis
        by (intro exI [of _ "[]"] exI [of _ True] exI [of _ l])
           (simp add: sweep.simps [of _ avail] plan_loop.simps [of _ _ avail] plan_fits_def
             tracks_def extend_plan_def word_neq_0_conv)
    next
      case other: False
      define qty where "qty = min avail (visibleQty ord)"
      have qty: "0 < qty" "qty \<le> visibleQty ord" "unat qty \<le> unat avail"
        using order_wf_visible [OF wf] more(1) by (auto simp: qty_def unat_min)
      let ?f = "as_planned p (n, ord, qty)"
      obtain queue' where queue': "list_all2 tracks queue' (fill_queue n qty ord ((n, ord) # os))"
        and plan: "plan_loop agg p avail queue into =
           plan_loop agg p (avail - qty) queue' (extend_plan into [?f] False)"
        using plan_loop_step [OF more(1) front rest other wf n] unfolding queue qty_def by blast
      obtain l1 where l1: "fill_level n qty l = Some l1" "level_ok s p l1"
        "pl_orders l1 = fill_queue n qty ord ((n, ord) # os)"
        using fill_level_ok [OF l d qty(2)] more(2) by auto
      have dec: "unat (avail - qty) < unat avail" and left: "unat (avail - qty) = unat avail - unat qty"
        using more(1) qty(1) by (auto simp: qty_def word_gr0_unat unat_min)
      obtain sw blocked l' where
        sw: "sweep (order_account agg) (avail - qty) (pl_orders l1) = (sw, pl_orders l', blocked)"
        and plan': "plan_loop agg p (avail - qty) queue' (extend_plan into [?f] False) =
           Some (extend_plan (extend_plan into [?f] False) (map (as_planned p) sw) blocked)"
        and run: "run_fills (map (as_planned p) sw) l1 = Some l'"
        and fits: "plan_fits agg (avail - qty) l1 (map (as_planned p) sw) blocked"
        using less.IH [OF dec l1(2)] queue' l1(3) by metis
      have prices: "pl_price l = p" "pl_price l1 = p" using l l1(2) by (auto simp: level_ok_def)
      have "sweep (order_account agg) avail (pl_orders l) = ((n, ord, qty) # sw, pl_orders l', blocked)"
        using more other qty(1) sw l1(3)
        by (subst sweep.simps) (simp add: qty_def [symmetric] Let_def word_neq_0_conv)
      moreover have "run_fills (map (as_planned p) ((n, ord, qty) # sw)) l = Some l'"
        using l1(1) run by simp
      moreover have "plan_fits agg avail l (map (as_planned p) ((n, ord, qty) # sw)) blocked"
        using fits prices d l1(1) run qty other left unfolding plan_fits_def by auto
      ultimately show ?thesis
        unfolding plan plan' by (intro exI [of _ "(n, ord, qty) # sw"] exI conjI) simp_all
    qed
  qed
qed

lemma price_time_plan_sweep:
  assumes "level_ok s p l"
  shows "\<exists>sw blocked l'. sweep (order_account agg) avail (pl_orders l) = (sw, pl_orders l', blocked) \<and>
     price_time_plan agg avail l into = Some (extend_plan into (map (as_planned p) sw) blocked) \<and>
     run_fills (map (as_planned p) sw) l = Some l' \<and>
     plan_fits agg avail l (map (as_planned p) sw) blocked"
proof -
  have "pl_price l = p" using assms by (simp add: level_ok_def)
  then show ?thesis
    unfolding price_time_plan_def using plan_loop_sweep [OF assms tracks_pending_of] by simp
qed

interpretation price_time: matching_strategy price_time_plan
  by unfold_locales (metis price_time_plan_sweep)

end
