(* ===== verification/Order_Book.thy ===== *)
theory Order_Book
  imports Price_Time
begin

text \<open>
  \<^verbatim>\<open>core/order_book.hpp\<close>: one side of the book, the class template \<^verbatim>\<open>OrderBook<PriceCompare>\<close>. The
  ordered map of levels is an association list kept sorted by the comparator, which every
  operation takes as its first argument; the hash index is an association list whose order is
  not observable. \<^verbatim>\<open>reserveIndex\<close> only changes the capacity of the hash table and has no model.
\<close>

section \<open>Model\<close>

record Locator =
  loc_price :: Price
  loc_position :: node

type_synonym levels = "(Price \<times> price_level) list"

record order_book =
  sb_levels :: levels
  sb_index :: "(OrderId \<times> Locator) list"

definition empty_side :: order_book where
  "empty_side = \<lparr>sb_levels = [], sb_index = []\<rparr>"

subsection \<open>The ordered map\<close>

text \<open>Keys are compared the way \<^verbatim>\<open>std::map\<close> does: equivalent when neither precedes the other.\<close>

fun level_find :: "ordering \<Rightarrow> Price \<Rightarrow> levels \<Rightarrow> price_level option" where
  "level_find cmp p [] = None"
| "level_find cmp p ((q, l) # ls) =
     (if \<not> cmp p q \<and> \<not> cmp q p then Some l else level_find cmp p ls)"

text \<open>Insertion of a node: discarded when an equivalent key is already there.\<close>

fun level_insert :: "ordering \<Rightarrow> Price \<Rightarrow> price_level \<Rightarrow> levels \<Rightarrow> levels" where
  "level_insert cmp p new [] = [(p, new)]"
| "level_insert cmp p new ((q, l) # ls) =
     (if cmp p q then (p, new) # (q, l) # ls
      else if cmp q p then (q, l) # level_insert cmp p new ls
      else (q, l) # ls)"

fun level_erase :: "ordering \<Rightarrow> Price \<Rightarrow> levels \<Rightarrow> levels" where
  "level_erase cmp p [] = []"
| "level_erase cmp p ((q, l) # ls) =
     (if \<not> cmp p q \<and> \<not> cmp q p then ls else (q, l) # level_erase cmp p ls)"

text \<open>Writing through a reference to the level at \<open>p\<close>.\<close>

definition set_level :: "Price \<Rightarrow> price_level \<Rightarrow> order_book \<Rightarrow> order_book" where
  "set_level p l sd = sd\<lparr>sb_levels := al_adjust p (\<lambda>_. l) (sb_levels sd)\<rparr>"

subsection \<open>Observers\<close>

definition side_empty :: "order_book \<Rightarrow> bool" where
  "side_empty sd \<longleftrightarrow> sb_levels sd = []"

definition levelCount :: "order_book \<Rightarrow> nat" where
  "levelCount sd = length (sb_levels sd)"

definition orderCount :: "order_book \<Rightarrow> nat" where
  "orderCount sd = length (sb_index sd)"

definition bestPrice :: "order_book \<Rightarrow> Price option" where
  "bestPrice sd = (case sb_levels sd of [] \<Rightarrow> None | (p, l) # ls \<Rightarrow> Some p)"

definition bestLevel :: "order_book \<Rightarrow> price_level option" where
  "bestLevel sd = (case sb_levels sd of [] \<Rightarrow> None | (p, l) # ls \<Rightarrow> Some l)"

definition levelAt :: "ordering \<Rightarrow> Price \<Rightarrow> order_book \<Rightarrow> price_level option" where
  "levelAt cmp p sd = level_find cmp p (sb_levels sd)"

definition qtyAt :: "ordering \<Rightarrow> Price \<Rightarrow> order_book \<Rightarrow> Quantity" where
  "qtyAt cmp p sd = (case levelAt cmp p sd of None \<Rightarrow> 0 | Some l \<Rightarrow> pl_totalQty l)"

text \<open>
  \<^verbatim>\<open>find\<close> dereferences the iterator stored in the index; the locator's price says in which queue
  the node is linked.
\<close>

definition side_find :: "ordering \<Rightarrow> OrderId \<Rightarrow> order_book \<Rightarrow> order option" where
  "side_find cmp oid sd = do {
     loc \<leftarrow> map_of (sb_index sd) oid;
     l \<leftarrow> level_find cmp (loc_price loc) (sb_levels sd);
     deref (loc_position loc) l
   }"

definition side_totalQty :: "order_book \<Rightarrow> Quantity" where
  "side_totalQty sd = (\<Sum>(p, l) \<leftarrow> sb_levels sd. pl_totalQty l)"

definition locate :: "ordering \<Rightarrow> OrderId \<Rightarrow> order_book \<Rightarrow> ((Price \<times> price_level) \<times> node) option" where
  "locate cmp oid sd = do {
     loc \<leftarrow> map_of (sb_index sd) oid;
     l \<leftarrow> level_find cmp (loc_price loc) (sb_levels sd);
     Some ((loc_price loc, l), loc_position loc)
   }"

subsection \<open>Mutators\<close>

definition ensureLevel :: "ordering \<Rightarrow> Price \<Rightarrow> order_book \<Rightarrow> order_book" where
  "ensureLevel cmp p sd = sd\<lparr>sb_levels := level_insert cmp p (new_PriceLevel p) (sb_levels sd)\<rparr>"

definition eraseLevel :: "ordering \<Rightarrow> Price \<Rightarrow> order_book \<Rightarrow> order_book" where
  "eraseLevel cmp p sd = sd\<lparr>sb_levels := level_erase cmp p (sb_levels sd)\<rparr>"

definition index_emplace :: "OrderId \<Rightarrow> Locator \<Rightarrow> order_book \<Rightarrow> order_book" where
  "index_emplace oid loc sd =
     (if map_of (sb_index sd) oid = None then sd\<lparr>sb_index := (oid, loc) # sb_index sd\<rparr> else sd)"

definition indexOrder :: "OrderId \<Rightarrow> Price \<Rightarrow> node \<Rightarrow> order_book \<Rightarrow> order_book option" where
  "indexOrder oid p position sd =
     (if map_of (sb_index sd) oid \<noteq> None then None
      else Some (index_emplace oid \<lparr>loc_price = p, loc_position = position\<rparr> sd))"

definition dropEmptyLevelsFromFront :: "order_book \<Rightarrow> order_book" where
  "dropEmptyLevelsFromFront sd =
     sd\<lparr>sb_levels := dropWhile (\<lambda>(p, l). level_empty l) (sb_levels sd)\<rparr>"

definition dropBestLevelIfEmpty :: "order_book \<Rightarrow> order_book" where
  "dropBestLevelIfEmpty sd = (case sb_levels sd of
     [] \<Rightarrow> sd | (p, l) # ls \<Rightarrow> if level_empty l then sd\<lparr>sb_levels := ls\<rparr> else sd)"

type_synonym LevelNode = "Price \<times> price_level"

definition makeLevelNode :: "Price \<Rightarrow> LevelNode" where
  "makeLevelNode p = (p, new_PriceLevel p)"

definition installLevel :: "ordering \<Rightarrow> LevelNode \<Rightarrow> order_book \<Rightarrow> order_book" where
  "installLevel cmp nd sd = sd\<lparr>sb_levels := level_insert cmp (fst nd) (snd nd) (sb_levels sd)\<rparr>"

definition installIndex :: "OrderId \<Rightarrow> Price \<Rightarrow> node \<Rightarrow> order_book \<Rightarrow> order_book" where
  "installIndex oid p position sd = index_emplace oid \<lparr>loc_price = p, loc_position = position\<rparr> sd"

definition unindex :: "OrderId \<Rightarrow> order_book \<Rightarrow> order_book" where
  "unindex oid sd = sd\<lparr>sb_index := al_remove oid (sb_index sd)\<rparr>"

definition side_insert :: "ordering \<Rightarrow> node \<Rightarrow> order \<Rightarrow> order_book \<Rightarrow> order_book option" where
  "side_insert cmp n ord sd = do {
     p \<leftarrow> restingPrice ord;
     let sd1 = ensureLevel cmp p sd;
     l \<leftarrow> level_find cmp p (sb_levels sd1);
     let (position, l') = enqueue n ord l;
     Some (index_emplace (order_id ord) \<lparr>loc_price = p, loc_position = position\<rparr> (set_level p l' sd1))
   }"

definition side_cancel :: "ordering \<Rightarrow> OrderId \<Rightarrow> order_book \<Rightarrow> (order option \<times> order_book) option" where
  "side_cancel cmp oid sd = (case map_of (sb_index sd) oid of
     None \<Rightarrow> Some (None, sd)
   | Some loc \<Rightarrow> do {
       let sd1 = unindex oid sd;
       l \<leftarrow> level_find cmp (loc_price loc) (sb_levels sd1);
       (ord, l') \<leftarrow> level_extract (loc_position loc) l;
       let sd2 = set_level (loc_price loc) l' sd1;
       Some (Some ord, if level_empty l' then eraseLevel cmp (loc_price loc) sd2 else sd2)
     })"

section \<open>Invariant\<close>

text \<open>The index entries the levels call for.\<close>

definition level_entries :: "Price \<Rightarrow> price_level \<Rightarrow> (OrderId \<times> Locator) list" where
  "level_entries p l =
     map (\<lambda>(n, ord). (order_id ord, \<lparr>loc_price = p, loc_position = n\<rparr>)) (pl_orders l)"

definition entries :: "levels \<Rightarrow> (OrderId \<times> Locator) list" where
  "entries ls = concat (map (\<lambda>(p, l). level_entries p l) ls)"

definition side_ids :: "order_book \<Rightarrow> OrderId set" where
  "side_ids sd = fst ` set (entries (sb_levels sd))"

definition side_nodes :: "order_book \<Rightarrow> node set" where
  "side_nodes sd = (\<Union>(p, l) \<in> set (sb_levels sd). fst ` set (pl_orders l))"

definition side_prices :: "order_book \<Rightarrow> Price set" where
  "side_prices sd = fst ` set (sb_levels sd)"

abbreviation levels_sorted :: "ordering \<Rightarrow> levels \<Rightarrow> bool" where
  "levels_sorted cmp ls \<equiv> sorted_wrt (\<lambda>a b. cmp (fst a) (fst b)) ls"

text \<open>
  \<open>side_shape\<close> holds throughout a commit; \<open>side_ok\<close> adds that no level is empty, which holds
  between operations. The index holds exactly the entries the levels call for, as a multiset, so
  it has one entry per resting order and no dangling one.
\<close>

definition side_shape :: "Side \<Rightarrow> order_book \<Rightarrow> bool" where
  "side_shape s sd \<longleftrightarrow>
     levels_sorted (ordering_of s) (sb_levels sd) \<and>
     (\<forall>(p, l) \<in> set (sb_levels sd). level_ok s p l) \<and>
     distinct (map fst (entries (sb_levels sd))) \<and>
     mset (sb_index sd) = mset (entries (sb_levels sd))"

definition side_ok :: "Side \<Rightarrow> order_book \<Rightarrow> bool" where
  "side_ok s sd \<longleftrightarrow> side_shape s sd \<and> (\<forall>(p, l) \<in> set (sb_levels sd). \<not> level_empty l)"

section \<open>The ordered map under a comparator\<close>

context price_comparator
begin

lemma level_find_map_of [simp]: "level_find cmp p ls = map_of ls p"
proof (induction ls)
  case (Cons e ls)
  then show ?case using equiv_iff [of p "fst e"] by (cases e) auto
qed simp

lemma level_erase_remove: "distinct (map fst ls) \<Longrightarrow> level_erase cmp p ls = al_remove p ls"
proof (induction ls)
  case (Cons e ls)
  then show ?case using equiv_iff [of p "fst e"] by (cases e) auto
qed simp

lemma level_insert_present:
  "levels_sorted cmp ls \<Longrightarrow> p \<in> fst ` set ls \<Longrightarrow> level_insert cmp p new ls = ls"
proof (induction ls)
  case (Cons e ls)
  obtain q l where e: "e = (q, l)" by (cases e)
  show ?case
  proof (cases "p = q")
    case True
    then show ?thesis using e irrefl by simp
  next
    case False
    with Cons.prems e have p: "p \<in> fst ` set ls" by auto
    with Cons.prems e have "cmp q p" by auto
    then have "\<not> cmp p q" by (rule asym)
    with \<open>cmp q p\<close> p Cons e show ?thesis by simp
  qed
qed simp

lemma level_insert_absent:
  assumes "levels_sorted cmp ls" and "p \<notin> fst ` set ls"
  shows "\<exists>xs ys. ls = xs @ ys \<and> level_insert cmp p new ls = xs @ (p, new) # ys"
  using assms
proof (induction ls)
  case (Cons e ls)
  obtain q l where e: "e = (q, l)" by (cases e)
  with Cons.prems have "p \<noteq> q" by auto
  show ?case
  proof (cases "cmp p q")
    case True
    then show ?thesis using e by (intro exI [of _ "[]"] exI [of _ "e # ls"]) simp
  next
    case False
    then have "cmp q p" using total \<open>p \<noteq> q\<close> by blast
    from Cons obtain xs ys where "ls = xs @ ys" "level_insert cmp p new ls = xs @ (p, new) # ys" by auto
    then show ?thesis using e False \<open>cmp q p\<close> by (intro exI [of _ "e # xs"] exI [of _ ys]) simp
  qed
qed simp

lemma level_insert_sorted:
  assumes "levels_sorted cmp ls"
  shows "levels_sorted cmp (level_insert cmp p new ls)"
  using assms
proof (induction ls)
  case (Cons e ls)
  obtain q l where e: "e = (q, l)" by (cases e)
  have keys: "fst ` set (level_insert cmp p new ls) \<subseteq> insert p (fst ` set ls)"
    by (induction cmp p new ls rule: level_insert.induct) auto
  show ?case
  proof (cases "cmp q p")
    case True
    then show ?thesis using Cons e keys asym by fastforce
  next
    case False
    then show ?thesis using Cons e trans by auto
  qed
qed simp

end

section \<open>Splitting a side at a level\<close>

lemma entries_simps [simp]:
  "entries [] = []"
  "entries ((p, l) # ls) = level_entries p l @ entries ls"
  "entries (xs @ ys) = entries xs @ entries ys"
  by (auto simp: entries_def)

lemma level_entries_new [simp]: "level_entries p (new_PriceLevel p) = []"
  by (simp add: level_entries_def new_PriceLevel_def)

lemma side_shape_distinct: "side_shape s sd \<Longrightarrow> distinct (map fst (sb_levels sd))"
  by (auto simp only: side_shape_def intro: sided.sorted_distinct [of s])

lemma side_shape_splitE:
  assumes "side_shape s sd" and "map_of (sb_levels sd) p = Some l"
  obtains xs ys where "sb_levels sd = xs @ (p, l) # ys"
    and "p \<notin> fst ` set xs" and "p \<notin> fst ` set ys" and "level_ok s p l"
proof -
  obtain xs ys where "sb_levels sd = xs @ (p, l) # ys" "p \<notin> fst ` set xs"
    using assms(2) by (rule map_of_SomeE)
  with that side_shape_distinct [OF assms(1)] assms(1) show thesis by (auto simp: side_shape_def)
qed

lemma sorted_replace:
  "levels_sorted cmp (xs @ (p, l) # ys) \<Longrightarrow> levels_sorted cmp (xs @ (p, l') # ys)"
  by (simp add: sorted_wrt_append)

text \<open>Rewriting a level without changing which orders it holds, and with one order gone.\<close>

lemma side_shape_rewrite:
  assumes "side_shape s sd" and "map_of (sb_levels sd) p = Some l" and "level_ok s p l'"
    and "mset (level_entries p l') = mset (level_entries p l)"
  shows "side_shape s (set_level p l' sd)" and "side_ids (set_level p l' sd) = side_ids sd"
proof -
  obtain xs ys where ls: "sb_levels sd = xs @ (p, l) # ys" and p: "p \<notin> fst ` set xs" "p \<notin> fst ` set ys"
    using assms(1,2) by (rule side_shape_splitE)
  have new: "sb_levels (set_level p l' sd) = xs @ (p, l') # ys" using ls p by (simp add: set_level_def)
  have es: "mset (entries (xs @ (p, l') # ys)) = mset (entries (sb_levels sd))"
    using assms(4) ls by simp
  then have "mset (map fst (entries (xs @ (p, l') # ys))) = mset (map fst (entries (sb_levels sd)))"
    by (metis mset_map)
  then have "distinct (map fst (entries (xs @ (p, l') # ys)))"
    using assms(1) mset_eq_imp_distinct_iff by (metis side_shape_def)
  then show "side_shape s (set_level p l' sd)"
    using assms(1,3) es ls unfolding side_shape_def new
    by (auto simp: set_level_def intro: sorted_replace)
  show "side_ids (set_level p l' sd) = side_ids sd"
    unfolding side_ids_def new using es by (metis set_mset_mset)
qed

lemma side_shape_withdraw:
  assumes "side_shape s sd" and "map_of (sb_levels sd) p = Some l" and "level_ok s p l'"
    and "mset (level_entries p l) = add_mset (oid, loc) (mset (level_entries p l'))"
  shows "side_shape s (set_level p l' (unindex oid sd))"
    and "side_ids (set_level p l' (unindex oid sd)) = side_ids sd - {oid}"
proof -
  obtain xs ys where ls: "sb_levels sd = xs @ (p, l) # ys" and p: "p \<notin> fst ` set xs" "p \<notin> fst ` set ys"
    using assms(1,2) by (rule side_shape_splitE)
  let ?es = "entries (xs @ (p, l') # ys)"
  have new: "sb_levels (set_level p l' (unindex oid sd)) = xs @ (p, l') # ys"
    using ls p by (simp add: set_level_def unindex_def)
  have es: "mset (entries (sb_levels sd)) = add_mset (oid, loc) (mset ?es)"
    using assms(4) ls by simp
  then have "mset (map fst (entries (sb_levels sd))) = mset (oid # map fst ?es)"
    by (simp only: mset_map mset.simps image_mset_add_mset fst_conv)
  then have d: "distinct (oid # map fst ?es)"
    using assms(1) mset_eq_imp_distinct_iff by (metis side_shape_def)
  then have keep: "filter_mset (\<lambda>e. fst e \<noteq> oid) (mset ?es) = mset ?es"
    by (intro filter_mset_eq_conv [THEN iffD2]) (auto simp: image_iff)
  have "mset (al_remove oid (sb_index sd)) = mset ?es"
    using assms(1) es keep by (simp add: mset_al_remove side_shape_def)
  then show "side_shape s (set_level p l' (unindex oid sd))"
    using assms(1,3) d ls unfolding side_shape_def new
    by (auto simp: set_level_def unindex_def intro: sorted_replace)
  have "fst ` set (entries (sb_levels sd)) = insert oid (fst ` set ?es)"
    using es by (metis (no_types, lifting) fst_conv image_insert set_mset_add_mset_insert set_mset_mset)
  with d show "side_ids (set_level p l' (unindex oid sd)) = side_ids sd - {oid}"
    unfolding side_ids_def new by auto
qed

section \<open>A side as a list of orders in priority order\<close>

text \<open>
  The abstract content of a side: its orders, best price first and first come first within a
  price. Every public operation of the class is specified on this list.
\<close>

definition level_list :: "levels \<Rightarrow> order list" where
  "level_list ls = concat (map (\<lambda>(p, l). map snd (pl_orders l)) ls)"

definition side_orders :: "order_book \<Rightarrow> order list" where
  "side_orders sd = level_list (sb_levels sd)"

lemma level_list_simps [simp]:
  "level_list [] = []"
  "level_list ((p, l) # ls) = map snd (pl_orders l) @ level_list ls"
  "level_list (xs @ ys) = level_list xs @ level_list ys"
  by (auto simp: level_list_def)

lemma entries_ids: "map fst (entries ls) = map order_id (level_list ls)"
proof (induction ls)
  case (Cons e ls)
  then show ?case by (cases e) (auto simp: level_entries_def)
qed simp

lemma side_ids_orders: "side_ids sd = order_id ` set (side_orders sd)"
  using arg_cong [OF entries_ids, of set "sb_levels sd"] by (simp add: side_ids_def side_orders_def)

lemma side_shape_distinct_ids: "side_shape s sd \<Longrightarrow> distinct (map order_id (side_orders sd))"
  by (simp add: side_shape_def side_orders_def entries_ids)

lemma find_unique:
  "distinct (map f xs) \<Longrightarrow> x \<in> set xs \<Longrightarrow> List.find (\<lambda>y. f y = f x) xs = Some x"
  by (induction xs) auto

lemma filter_unique:
  "distinct (map f (xs @ x # ys)) \<Longrightarrow> filter (\<lambda>y. f y \<noteq> f x) (xs @ x # ys) = xs @ ys"
  by (induction xs) (auto simp: image_iff intro!: filter_True)

lemma side_shape_index:
  assumes "side_shape s sd"
  shows "map_of (sb_index sd) oid = Some loc \<longleftrightarrow> (oid, loc) \<in> set (entries (sb_levels sd))"
    and "map_of (sb_index sd) oid = None \<longleftrightarrow> oid \<notin> side_ids sd"
proof -
  have m: "mset (sb_index sd) = mset (entries (sb_levels sd))" using assms by (simp add: side_shape_def)
  then have s: "set (sb_index sd) = set (entries (sb_levels sd))" by (rule mset_eq_setD)
  have "mset (map fst (sb_index sd)) = mset (map fst (entries (sb_levels sd)))" using m by (metis mset_map)
  then have "distinct (map fst (sb_index sd))"
    using assms mset_eq_imp_distinct_iff by (metis side_shape_def)
  then show "map_of (sb_index sd) oid = Some loc \<longleftrightarrow> (oid, loc) \<in> set (entries (sb_levels sd))"
    using s by simp
  show "map_of (sb_index sd) oid = None \<longleftrightarrow> oid \<notin> side_ids sd"
    by (simp add: map_of_eq_None_iff side_ids_def s)
qed

text \<open>An index entry is never dangling: it leads to the level and the node of the order it names.\<close>

lemma side_lookupE:
  assumes "side_shape s sd" and "map_of (sb_index sd) oid = Some loc"
  obtains l ord where "map_of (sb_levels sd) (loc_price loc) = Some l"
    and "deref (loc_position loc) l = Some ord" and "order_id ord = oid"
    and "level_ok s (loc_price loc) l" and "ord \<in> set (side_orders sd)"
proof -
  have "(oid, loc) \<in> set (entries (sb_levels sd))" using assms side_shape_index by blast
  then obtain p l n ord where e: "(p, l) \<in> set (sb_levels sd)" "(n, ord) \<in> set (pl_orders l)"
    "oid = order_id ord" "loc = \<lparr>loc_price = p, loc_position = n\<rparr>"
    by (auto simp: entries_def level_entries_def)
  have ok: "level_ok s p l" using assms(1) e(1) by (auto simp: side_shape_def)
  then have "deref n l = Some ord" using e(2) by (auto simp: deref_def level_ok_def)
  moreover have "map_of (sb_levels sd) p = Some l" using e(1) side_shape_distinct [OF assms(1)] by simp
  moreover have "ord \<in> set (side_orders sd)"
    using e(1,2) by (force simp: side_orders_def level_list_def)
  ultimately show thesis using that e ok by simp
qed

lemma side_find_orders:
  assumes "side_shape s sd"
  shows "side_find (ordering_of s) oid sd = List.find (\<lambda>o'. order_id o' = oid) (side_orders sd)"
proof (cases "map_of (sb_index sd) oid")
  case None
  then have "oid \<notin> order_id ` set (side_orders sd)"
    using side_shape_index(2) [OF assms] by (simp add: side_ids_orders)
  then have "List.find (\<lambda>o'. order_id o' = oid) (side_orders sd) = None"
    by (auto simp: find_None_iff)
  then show ?thesis using None by (simp add: side_find_def)
next
  case (Some loc)
  then obtain l ord where "map_of (sb_levels sd) (loc_price loc) = Some l"
    "deref (loc_position loc) l = Some ord" "order_id ord = oid" "ord \<in> set (side_orders sd)"
    using side_lookupE [OF assms] by metis
  then show ?thesis
    using Some find_unique [OF side_shape_distinct_ids [OF assms], of ord] by (simp add: side_find_def)
qed

lemma side_locate_find:
  assumes "side_shape s sd"
  shows "side_find (ordering_of s) oid sd =
     (case locate (ordering_of s) oid sd of None \<Rightarrow> None | Some ((p, l), n) \<Rightarrow> deref n l)"
  using assms by (auto simp: side_find_def locate_def split: Option.bind_splits option.splits)

section \<open>Cancelling\<close>

lemma side_shape_erase_empty:
  assumes "side_shape s sd" and "map_of (sb_levels sd) p = Some l" and "level_empty l"
  shows "side_shape s (eraseLevel (ordering_of s) p sd)"
    and "side_orders (eraseLevel (ordering_of s) p sd) = side_orders sd"
    and "sb_levels (eraseLevel (ordering_of s) p sd) = al_remove p (sb_levels sd)"
proof -
  obtain xs ys where ls: "sb_levels sd = xs @ (p, l) # ys" and p: "p \<notin> fst ` set xs" "p \<notin> fst ` set ys"
    using assms(1,2) by (rule side_shape_splitE)
  have new: "sb_levels (eraseLevel (ordering_of s) p sd) = xs @ ys"
    using ls p side_shape_distinct [OF assms(1)] by (simp add: eraseLevel_def sided.level_erase_remove)
  show "sb_levels (eraseLevel (ordering_of s) p sd) = al_remove p (sb_levels sd)"
    using new ls p by simp
  have empty: "level_entries p l = []" "map snd (pl_orders l) = []"
    using assms(3) by (auto simp: level_entries_def level_empty_def)
  then show "side_shape s (eraseLevel (ordering_of s) p sd)"
    using assms(1) ls unfolding side_shape_def new by (auto simp: eraseLevel_def sorted_wrt_append)
  show "side_orders (eraseLevel (ordering_of s) p sd) = side_orders sd"
    using empty ls by (simp add: side_orders_def new)
qed

text \<open>Unlinking a node and its index entry leaves everyone else in place.\<close>

lemma side_unlink:
  assumes shape: "side_shape s sd" and l: "map_of (sb_levels sd) p = Some l" and lok: "level_ok s p l"
    and d: "deref w l = Some ord" and l': "level_ok s p l'" "pl_orders l' = al_remove w (pl_orders l)"
  defines "sd2 \<equiv> set_level p l' (unindex (order_id ord) sd)"
  shows "side_shape s sd2" and "map_of (sb_levels sd2) p = Some l'"
    and "sb_levels sd2 = al_adjust p (\<lambda>_. l') (sb_levels sd)"
    and "side_orders sd2 = filter (\<lambda>o'. order_id o' \<noteq> order_id ord) (side_orders sd)"
proof -
  obtain qs rs where qs: "pl_orders l = qs @ (w, ord) # rs" and w: "w \<notin> fst ` set qs" "w \<notin> fst ` set rs"
    by (rule level_ok_split [OF lok d])
  obtain xs ys where ls: "sb_levels sd = xs @ (p, l) # ys" and p: "p \<notin> fst ` set xs" "p \<notin> fst ` set ys"
    using shape l by (rule side_shape_splitE)
  show "sb_levels sd2 = al_adjust p (\<lambda>_. l') (sb_levels sd)"
    by (simp add: sd2_def set_level_def unindex_def)
  then have new: "sb_levels sd2 = xs @ (p, l') # ys" using ls p by simp
  have "mset (level_entries p l) =
      add_mset (order_id ord, \<lparr>loc_price = p, loc_position = w\<rparr>) (mset (level_entries p l'))"
    using qs w l'(2) by (simp add: level_entries_def)
  then show "side_shape s sd2" unfolding sd2_def by (rule side_shape_withdraw(1) [OF shape l l'(1)])
  show "map_of (sb_levels sd2) p = Some l'" using new p by simp
  have split: "side_orders sd = (level_list xs @ map snd qs) @ ord # (map snd rs @ level_list ys)"
    using ls qs by (simp add: side_orders_def)
  show "side_orders sd2 = filter (\<lambda>o'. order_id o' \<noteq> order_id ord) (side_orders sd)"
    using filter_unique [OF side_shape_distinct_ids [OF shape, unfolded split]] new l'(2) qs w
    unfolding split by (simp add: side_orders_def)
qed

lemma side_cancel_absent:
  assumes "side_shape s sd" and "map_of (sb_index sd) oid = None"
  shows "List.find (\<lambda>o'. order_id o' = oid) (side_orders sd) = None"
    and "filter (\<lambda>o'. order_id o' \<noteq> oid) (side_orders sd) = side_orders sd"
proof -
  have "oid \<notin> order_id ` set (side_orders sd)"
    using assms side_shape_index(2) by (simp add: side_ids_orders)
  then show "List.find (\<lambda>o'. order_id o' = oid) (side_orders sd) = None"
    "filter (\<lambda>o'. order_id o' \<noteq> oid) (side_orders sd) = side_orders sd"
    by (auto simp: find_None_iff filter_id_conv)
qed

text \<open>
  \<^verbatim>\<open>OrderBook::cancel\<close> returns the order with that id, if there is one, and removes exactly it;
  everyone else keeps their place, and no empty level is left behind.
\<close>

lemma side_cancel_spec:
  assumes ok: "side_ok s sd"
  shows "\<exists>sd'. side_cancel (ordering_of s) oid sd =
       Some (List.find (\<lambda>o'. order_id o' = oid) (side_orders sd), sd') \<and> side_ok s sd' \<and>
     side_orders sd' = filter (\<lambda>o'. order_id o' \<noteq> oid) (side_orders sd) \<and>
     side_prices sd' \<subseteq> side_prices sd \<and> side_nodes sd' \<subseteq> side_nodes sd"
proof (cases "map_of (sb_index sd) oid")
  case None
  have "side_shape s sd" using ok by (simp add: side_ok_def)
  note side_cancel_absent [OF this None]
  then show ?thesis using None ok by (simp add: side_cancel_def)
next
  case (Some loc)
  have shape: "side_shape s sd" using ok by (simp add: side_ok_def)
  define p w where "p = loc_price loc" and "w = loc_position loc"
  obtain l ord where l: "map_of (sb_levels sd) p = Some l" and d: "deref w l = Some ord"
    and oid: "order_id ord = oid" and lok: "level_ok s p l" and mem: "ord \<in> set (side_orders sd)"
    using side_lookupE [OF shape Some] unfolding p_def w_def by metis
  obtain l' where ext: "level_extract w l = Some (ord, l')" and l': "level_ok s p l'"
    "pl_orders l' = al_remove w (pl_orders l)" using level_extract_ok [OF lok d] by blast
  let ?sd2 = "set_level p l' (unindex oid sd)"
  note sd2 = side_unlink [OF shape l lok d l', unfolded oid]
  define sd' where "sd' = (if level_empty l' then eraseLevel (ordering_of s) p ?sd2 else ?sd2)"
  note erase = side_shape_erase_empty [OF sd2(1,2)]
  obtain xs ys where ls: "sb_levels sd = xs @ (p, l) # ys" and p: "p \<notin> fst ` set xs" "p \<notin> fst ` set ys"
    using shape l by (rule side_shape_splitE)
  have levels': "sb_levels sd' = (if level_empty l' then xs @ ys else xs @ (p, l') # ys)"
    using erase(3) sd2(3) ls p by (simp add: sd'_def)
  have "side_cancel (ordering_of s) oid sd = Some (Some ord, sd')"
    using Some l ext unfolding side_cancel_def sd'_def p_def w_def by (simp add: unindex_def)
  moreover have "List.find (\<lambda>o'. order_id o' = oid) (side_orders sd) = Some ord"
    using find_unique [OF side_shape_distinct_ids [OF shape] mem] oid by simp
  moreover have "side_ok s sd'"
    using sd2(1) erase(1) ok ls levels' unfolding side_ok_def by (auto simp: sd'_def)
  moreover have "side_orders sd' = filter (\<lambda>o'. order_id o' \<noteq> oid) (side_orders sd)"
    using sd2(4) erase(2) by (simp add: sd'_def)
  moreover have "side_prices sd' \<subseteq> side_prices sd" "side_nodes sd' \<subseteq> side_nodes sd"
    using levels' ls l'(2) by (auto simp: side_prices_def side_nodes_def)
  ultimately show ?thesis by auto
qed

section \<open>Resting an order\<close>

text \<open>
  Where a new order belongs: behind every order at the same or a better price, ahead of every
  order at a worse one. This is price-time priority as an operation on the list of orders.
\<close>

definition ahead :: "ordering \<Rightarrow> Price \<Rightarrow> order \<Rightarrow> bool" where
  "ahead cmp p ord \<longleftrightarrow> (case restingPrice ord of None \<Rightarrow> False | Some q \<Rightarrow> \<not> cmp p q)"

definition queue_in :: "ordering \<Rightarrow> Price \<Rightarrow> order \<Rightarrow> order list \<Rightarrow> order list" where
  "queue_in cmp p ord os = takeWhile (ahead cmp p) os @ ord # dropWhile (ahead cmp p) os"

lemma queue_in_split:
  assumes "\<And>x. x \<in> set as \<Longrightarrow> ahead cmp p x" and "\<And>y. y \<in> set bs \<Longrightarrow> \<not> ahead cmp p y"
  shows "queue_in cmp p ord (as @ bs) = as @ ord # bs"
proof -
  have "takeWhile (ahead cmp p) (as @ bs) = as @ takeWhile (ahead cmp p) bs"
    using assms(1) by (rule takeWhile_append2)
  moreover have "takeWhile (ahead cmp p) bs = []"
    using assms(2) by (cases bs) auto
  moreover have "dropWhile (ahead cmp p) (as @ bs) = bs"
    using assms by (rule dropWhile_prefix)
  ultimately show ?thesis by (simp add: queue_in_def)
qed

lemma level_list_prices:
  assumes "\<forall>(q, l) \<in> set ls. level_ok s q l" and "ord \<in> set (level_list ls)"
  obtains q where "q \<in> fst ` set ls" and "restingPrice ord = Some q"
  using assms by (force simp: level_list_def level_ok_def resting_ok_def)

lemma pl_orders_new [simp]: "pl_orders (new_PriceLevel p) = []"
  by (simp add: new_PriceLevel_def)

lemma ensure_level_split:
  assumes "side_shape s sd"
  obtains xs l ys where "level_insert (ordering_of s) p (new_PriceLevel p) (sb_levels sd) = xs @ (p, l) # ys"
    and "level_ok s p l" and "entries (xs @ (p, l) # ys) = entries (sb_levels sd)"
    and "level_list (xs @ (p, l) # ys) = side_orders sd"
    and "set xs \<union> set ys \<subseteq> set (sb_levels sd)"
    and "side_nodes sd = (\<Union>(q, k) \<in> set (xs @ (p, l) # ys). fst ` set (pl_orders k))"
    and "insert p (side_prices sd) = fst ` set (xs @ (p, l) # ys)"
proof (cases "p \<in> fst ` set (sb_levels sd)")
  case True
  then obtain l where l: "map_of (sb_levels sd) p = Some l"
    using map_of_eq_None_iff by (metis not_None_eq)
  obtain xs ys where ls: "sb_levels sd = xs @ (p, l) # ys" and ok: "level_ok s p l"
    using assms l by (rule side_shape_splitE)
  have "level_insert (ordering_of s) p (new_PriceLevel p) (sb_levels sd) = xs @ (p, l) # ys"
    using True assms ls sided.level_insert_present [of s] by (simp add: side_shape_def)
  then show thesis using ls ok by (intro that) (auto simp: side_orders_def side_prices_def side_nodes_def)
next
  case False
  then obtain xs ys where ls: "sb_levels sd = xs @ ys"
    "level_insert (ordering_of s) p (new_PriceLevel p) (sb_levels sd) = xs @ (p, new_PriceLevel p) # ys"
    using assms sided.level_insert_absent [of s] unfolding side_shape_def by blast
  then show thesis
    by (intro that [of xs "new_PriceLevel p" ys]) (auto simp: side_orders_def side_prices_def side_nodes_def)
qed

lemma queue_in_levels:
  assumes sorted: "levels_sorted (ordering_of s) (xs @ (p, l) # ys)"
    and ok: "\<forall>(q, k) \<in> set (xs @ (p, l) # ys). level_ok s q k"
  shows "queue_in (ordering_of s) p ord (level_list (xs @ (p, l) # ys)) =
     level_list (xs @ [(p, l)]) @ ord # level_list ys"
proof -
  have "ahead (ordering_of s) p x" if "x \<in> set (level_list (xs @ [(p, l)]))" for x
  proof -
    have "\<forall>(q, k) \<in> set (xs @ [(p, l)]). level_ok s q k" using ok by auto
    from this that obtain q where "q \<in> fst ` set (xs @ [(p, l)])" "restingPrice x = Some q"
      by (rule level_list_prices)
    then have "q = p \<or> ordering_of s q p" using sorted by (auto simp: sorted_wrt_append)
    then have "\<not> ordering_of s p q" using sided.asym sided.irrefl by blast
    with \<open>restingPrice x = Some q\<close> show ?thesis by (simp add: ahead_def)
  qed
  moreover have "\<not> ahead (ordering_of s) p x" if "x \<in> set (level_list ys)" for x
  proof -
    have "\<forall>(q, k) \<in> set ys. level_ok s q k" using ok by auto
    from this that obtain q where "q \<in> fst ` set ys" "restingPrice x = Some q"
      by (rule level_list_prices)
    then show ?thesis using sorted by (auto simp: ahead_def sorted_wrt_append)
  qed
  ultimately have "queue_in (ordering_of s) p ord (level_list (xs @ [(p, l)]) @ level_list ys) =
      level_list (xs @ [(p, l)]) @ ord # level_list ys" by (rule queue_in_split)
  then show ?thesis by simp
qed

text \<open>The three nothrow steps that rest a prepared order, as \<^verbatim>\<open>Book::commitSubmit\<close> performs them.\<close>

lemma side_rest_spec:
  assumes ok: "side_ok s sd" and ord: "resting_ok s p ord"
    and fresh: "order_id ord \<notin> side_ids sd" "n \<notin> side_nodes sd"
  defines "sd2 \<equiv> installIndex (order_id ord) p n (installLevel (ordering_of s) (makeLevelNode p) sd)"
  shows "\<exists>l l'. level_find (ordering_of s) p (sb_levels sd2) = Some l \<and>
     adopt [(n, ord)] n l = Some ([], l') \<and> side_ok s (set_level p l' sd2) \<and>
     side_orders (set_level p l' sd2) = queue_in (ordering_of s) p ord (side_orders sd) \<and>
     side_prices (set_level p l' sd2) = insert p (side_prices sd) \<and>
     side_nodes (set_level p l' sd2) \<subseteq> insert n (side_nodes sd)"
proof -
  have shape: "side_shape s sd" using ok by (simp add: side_ok_def)
  obtain xs l ys where ins: "level_insert (ordering_of s) p (new_PriceLevel p) (sb_levels sd) = xs @ (p, l) # ys"
    and l: "level_ok s p l" and es: "entries (xs @ (p, l) # ys) = entries (sb_levels sd)"
    and os: "level_list (xs @ (p, l) # ys) = side_orders sd"
    and sub: "set xs \<union> set ys \<subseteq> set (sb_levels sd)"
    and nodes: "side_nodes sd = (\<Union>(q, k) \<in> set (xs @ (p, l) # ys). fst ` set (pl_orders k))"
    and prices: "insert p (side_prices sd) = fst ` set (xs @ (p, l) # ys)"
    using ensure_level_split [OF shape] .
  have sorted: "levels_sorted (ordering_of s) (xs @ (p, l) # ys)"
    using shape ins sided.level_insert_sorted [of s "sb_levels sd" p "new_PriceLevel p"]
    by (simp add: side_shape_def)
  then have dist: "distinct (map fst (xs @ (p, l) # ys))" by (rule sided.sorted_distinct)
  have sd2: "sb_levels sd2 = xs @ (p, l) # ys"
    "sb_index sd2 = (order_id ord, \<lparr>loc_price = p, loc_position = n\<rparr>) # sb_index sd"
    using fresh(1) ins side_shape_index(2) [OF shape]
    by (simp_all add: sd2_def installIndex_def index_emplace_def installLevel_def makeLevelNode_def)
  have "n \<notin> fst ` set (pl_orders l)" using nodes fresh(2) by simp
  with l ord obtain l' where l': "adopt [(n, ord)] n l = Some ([], l')" "level_ok s p l'"
    "pl_orders l' = pl_orders l @ [(n, ord)]" using adopt_ok by blast
  let ?sd = "set_level p l' sd2"
  have levels: "sb_levels ?sd = xs @ (p, l') # ys" using dist sd2(1) by (simp add: set_level_def)
  have lvl_ok: "\<forall>(q, k) \<in> set xs \<union> set ys. level_ok s q k \<and> \<not> level_empty k"
    using ok sub by (auto simp: side_ok_def side_shape_def)
  have ms: "mset (entries (sb_levels ?sd)) =
      add_mset (order_id ord, \<lparr>loc_price = p, loc_position = n\<rparr>) (mset (entries (sb_levels sd)))"
    unfolding levels es [symmetric] using l'(3) by (simp add: level_entries_def)
  then have "mset (map fst (entries (sb_levels ?sd))) = mset (order_id ord # map fst (entries (sb_levels sd)))"
    by (simp only: mset_map mset.simps image_mset_add_mset fst_conv)
  moreover have "distinct (order_id ord # map fst (entries (sb_levels sd)))"
    using shape fresh(1) by (simp add: side_shape_def side_ids_def)
  ultimately have "distinct (map fst (entries (sb_levels ?sd)))"
    using mset_eq_imp_distinct_iff by blast
  moreover have "mset (sb_index ?sd) = mset (entries (sb_levels ?sd))"
    using ms sd2(2) shape by (simp add: set_level_def side_shape_def)
  moreover have "levels_sorted (ordering_of s) (sb_levels ?sd)" using sorted levels sorted_replace by simp
  ultimately have "side_ok s ?sd"
    using lvl_ok l'(2,3) levels by (auto simp: side_ok_def side_shape_def level_empty_def)
  moreover have "side_orders ?sd = queue_in (ordering_of s) p ord (side_orders sd)"
  proof -
    have "\<forall>(q, k) \<in> set (xs @ (p, l) # ys). level_ok s q k" using lvl_ok l by auto
    from queue_in_levels [OF sorted this] show ?thesis
      using os levels l'(3) by (simp add: side_orders_def)
  qed
  moreover have "level_find (ordering_of s) p (sb_levels sd2) = Some l" using sd2(1) dist by simp
  moreover have "side_prices ?sd = insert p (side_prices sd)" using levels prices by (simp add: side_prices_def)
  moreover have "side_nodes ?sd \<subseteq> insert n (side_nodes sd)"
    unfolding nodes using l'(3) by (simp add: side_nodes_def levels)
  ultimately show ?thesis using l'(1) by blast
qed

end
