(* ===== verification/Book.thy ===== *)
theory Book
  imports Order_Book
begin

text \<open>
  \<^verbatim>\<open>core/book.hpp\<close> and \<^verbatim>\<open>core/book.cpp\<close>: the two-sided book. A member template over the own and the
  opposite side is a function of the side \<open>s\<close> of the order, with \<^term>\<open>ordering_of s\<close> for the own
  comparator. The matching strategy is a parameter. \<open>bk_nextNode\<close> is the allocator of list
  nodes: \<^verbatim>\<open>push_back\<close> returns an address that no live node has, which is all the code relies on.

  Allocation failure is not modelled, so \<^verbatim>\<open>prepareSubmit\<close> either returns or is undefined; that it
  reads the book without changing it is visible in its type.
\<close>

section \<open>Results\<close>

datatype SubmitStatus =
  Resting | PartiallyFilledResting | Filled | CancelledRemainder | SelfMatchBlocked

record SubmitResult =
  sr_status :: SubmitStatus
  sr_fills :: "Fill list"
  sr_filledQty :: Quantity
  sr_restingQty :: Quantity

datatype ModifyStatus = NotFound | Rejected | AmendedInPlace | Requeued

record ModifyResult =
  mr_status :: ModifyStatus
  mr_fills :: "Fill list"
  mr_restingQty :: Quantity

definition new_ModifyResult :: ModifyResult where
  "new_ModifyResult = \<lparr>mr_status = NotFound, mr_fills = [], mr_restingQty = 0\<rparr>"

definition priorityRetained :: "ModifyResult \<Rightarrow> bool" where
  "priorityRetained r \<longleftrightarrow> mr_status r = AmendedInPlace"

text \<open>The index node holds the id; its locator is written when the node is installed.\<close>

record PreparedSubmit =
  ps_plan :: MatchPlan
  ps_holding :: queue
  ps_position :: node
  ps_levelNode :: "LevelNode option"
  ps_indexNode :: "OrderId option"
  ps_restPrice :: Price
  ps_willRest :: bool

section \<open>The book\<close>

record Book =
  bk_bids :: order_book
  bk_asks :: order_book
  bk_nextSequence :: Sequence
  bk_nextNode :: node

definition new_Book :: Book where
  "new_Book = \<lparr>bk_bids = empty_side, bk_asks = empty_side, bk_nextSequence = 1, bk_nextNode = 0\<rparr>"

fun book_side :: "Side \<Rightarrow> Book \<Rightarrow> order_book" where
  "book_side Buy bk = bk_bids bk"
| "book_side Sell bk = bk_asks bk"

fun set_side :: "Side \<Rightarrow> order_book \<Rightarrow> Book \<Rightarrow> Book" where
  "set_side Buy sd bk = bk\<lparr>bk_bids := sd\<rparr>"
| "set_side Sell sd bk = bk\<lparr>bk_asks := sd\<rparr>"

text \<open>The subtraction of two signed ticks, as an unbounded integer: the code is undefined outside 64 bits.\<close>

text \<open>The subtraction is undefined when it leaves the range of a signed 64-bit integer.\<close>

definition spread :: "Book \<Rightarrow> Price option option" where
  "spread bk = (case (bestPrice (bk_bids bk), bestPrice (bk_asks bk)) of
     (Some bid, Some ask) \<Rightarrow>
       if sint (ask - bid) = sint ask - sint bid then Some (Some (ask - bid)) else None
   | _ \<Rightarrow> Some None)"

definition isCrossed :: "Book \<Rightarrow> bool" where
  "isCrossed bk \<longleftrightarrow> (case (bestPrice (bk_bids bk), bestPrice (bk_asks bk)) of
     (Some bid, Some ask) \<Rightarrow> sint bid \<ge> sint ask
   | _ \<Rightarrow> False)"

definition book_find :: "OrderId \<Rightarrow> Book \<Rightarrow> order option" where
  "book_find oid bk = (case side_find (ordering_of Buy) oid (bk_bids bk) of
     Some ord \<Rightarrow> Some ord
   | None \<Rightarrow> side_find (ordering_of Sell) oid (bk_asks bk))"

definition validate :: "order \<Rightarrow> Book \<Rightarrow> unit result" where
  "validate ord bk =
     (if remaining ord = 0 then Inl (InvalidOrderError (ZeroQuantity (order_id ord)))
      else if book_find (order_id ord) bk \<noteq> None
      then Inl (InvalidOrderError (DuplicateOrderId (order_id ord)))
      else Inr ())"

subsection \<open>Plan\<close>

fun plan_levels :: "strategy \<Rightarrow> order \<Rightarrow> Quantity \<Rightarrow> levels \<Rightarrow> MatchPlan \<Rightarrow> (Quantity \<times> MatchPlan) option" where
  "plan_levels strategy aggressor available [] plan = Some (available, plan)"
| "plan_levels strategy aggressor available ((price, level) # ls) plan =
     (if \<not> available > 0 then Some (available, plan)
      else if \<not> crosses aggressor price then Some (available, plan)
      else do {
        let before = length (mp_fills plan);
        plan' \<leftarrow> strategy aggressor available level plan;
        let planned = (\<Sum>f \<leftarrow> drop before (mp_fills plan'). pf_quantity f);
        let available' = available - planned;
        if mp_selfMatchBlocked plan' then Some (available', plan')
        else if planned = 0 then Some (available', plan')
        else plan_levels strategy aggressor available' ls plan'
      })"

definition planAgainst :: "strategy \<Rightarrow> order_book \<Rightarrow> order \<Rightarrow> MatchPlan \<Rightarrow> MatchPlan option" where
  "planAgainst strategy opp aggressor plan = do {
     (available, plan') \<leftarrow> plan_levels strategy aggressor (remaining aggressor) (sb_levels opp) plan;
     Some (plan'\<lparr>mp_aggressorFilled := remaining aggressor - available\<rparr>)
   }"

subsection \<open>Prepare\<close>

definition prepareSubmit :: "strategy \<Rightarrow> order_book \<Rightarrow> node \<Rightarrow> order \<Rightarrow> PreparedSubmit option" where
  "prepareSubmit strategy opp position aggressor = do {
     plan \<leftarrow> planAgainst strategy opp aggressor empty_plan;
     let restingQty = remaining aggressor - mp_aggressorFilled plan;
     let willRest = (restingQty > 0 \<and> \<not> mp_selfMatchBlocked plan \<and> restingPrice aggressor \<noteq> None);
     let restPrice = (if willRest then the (restingPrice aggressor) else 0);
     Some \<lparr>ps_plan = plan, ps_holding = [(position, aggressor)], ps_position = position,
           ps_levelNode = (if willRest then Some (makeLevelNode restPrice) else None),
           ps_indexNode = (if willRest then Some (order_id aggressor) else None),
           ps_restPrice = restPrice, ps_willRest = willRest\<rparr>
   }"

subsection \<open>Commit\<close>

definition make_fill :: "order \<Rightarrow> PlannedFill \<Rightarrow> Fill" where
  "make_fill aggressor planned =
     \<lparr>fl_aggressorId = order_id aggressor, fl_restingId = pf_restingId planned,
      fl_price = pf_price planned, fl_quantity = pf_quantity planned,
      fl_aggressorAccount = order_account aggressor,
      fl_restingAccount = pf_restingAccount planned, fl_aggressorSide = order_side aggressor\<rparr>"

text \<open>One iteration of the commit loop. The level pointer is followed, never searched for.\<close>

definition commit_fill :: "PlannedFill \<Rightarrow> order_book \<Rightarrow> order_book option" where
  "commit_fill planned opp = do {
     level \<leftarrow> map_of (sb_levels opp) (pf_level planned);
     level1 \<leftarrow> applyFill (pf_resting planned) (pf_quantity planned) level;
     resting \<leftarrow> deref (pf_resting planned) level1;
     if isFilled resting then do {
       let opp1 = unindex (pf_restingId planned) opp;
       (consumed, level2) \<leftarrow> level_extract (pf_resting planned) level1;
       Some (set_level (pf_level planned) level2 opp1)
     } else if needsReplenish resting then do {
       level2 \<leftarrow> replenishAndRequeue (pf_resting planned) level1;
       Some (set_level (pf_level planned) level2 opp)
     } else Some (set_level (pf_level planned) level1 opp)
   }"

fun commit_fills ::
  "PlannedFill list \<Rightarrow> order_book \<Rightarrow> order \<Rightarrow> Fill list \<Rightarrow> (order_book \<times> order \<times> Fill list) option" where
  "commit_fills [] opp aggressor fills = Some (opp, aggressor, fills)"
| "commit_fills (planned # ps) opp aggressor fills = do {
     opp' \<leftarrow> commit_fill planned opp;
     let aggressor' = onPartialFill (pf_quantity planned) aggressor;
     commit_fills ps opp' aggressor' (fills @ [make_fill aggressor' planned])
   }"

definition rest_prepared :: "ordering \<Rightarrow> PreparedSubmit \<Rightarrow> order_book \<Rightarrow> order_book option" where
  "rest_prepared cmp prepared own = do {
     levelNode \<leftarrow> ps_levelNode prepared;
     indexNode \<leftarrow> ps_indexNode prepared;
     let own1 = installLevel cmp levelNode own;
     let own2 = installIndex indexNode (ps_restPrice prepared) (ps_position prepared) own1;
     destination \<leftarrow> level_find cmp (fst levelNode) (sb_levels own2);
     (holding, destination') \<leftarrow> adopt (ps_holding prepared) (ps_position prepared) destination;
     Some (set_level (fst levelNode) destination' own2)
   }"

definition commitSubmit ::
  "ordering \<Rightarrow> order_book \<Rightarrow> order_book \<Rightarrow> Sequence \<Rightarrow> PreparedSubmit \<Rightarrow>
     (SubmitResult \<times> order_book \<times> order_book \<times> Sequence) option" where
  "commitSubmit cmp own opp nextSequence prepared = do {
     incoming \<leftarrow> map_of (ps_holding prepared) (ps_position prepared);
     (opp1, aggressor, fills) \<leftarrow>
       commit_fills (mp_fills (ps_plan prepared)) opp (assignSequence nextSequence incoming) [];
     let prepared1 = prepared\<lparr>ps_holding :=
       al_adjust (ps_position prepared) (\<lambda>_. aggressor) (ps_holding prepared)\<rparr>;
     let filledQty = mp_aggressorFilled (ps_plan prepared);
     let opp2 = dropEmptyLevelsFromFront opp1;
     if ps_willRest prepared then do {
       own1 \<leftarrow> rest_prepared cmp prepared1 own;
       Some (\<lparr>sr_status = (if fills = [] then Resting else PartiallyFilledResting),
              sr_fills = fills, sr_filledQty = filledQty, sr_restingQty = remaining aggressor\<rparr>,
             own1, opp2, nextSequence + 1)
     } else
       Some (\<lparr>sr_status = (if isFilled aggressor then Filled
                           else if mp_selfMatchBlocked (ps_plan prepared) then SelfMatchBlocked
                           else CancelledRemainder),
              sr_fills = fills, sr_filledQty = filledQty, sr_restingQty = 0\<rparr>,
             own, opp2, nextSequence + 1)
   }"

subsection \<open>Submit and cancel\<close>

definition submit_on :: "strategy \<Rightarrow> Side \<Rightarrow> order \<Rightarrow> Book \<Rightarrow> (SubmitResult \<times> Book) option" where
  "submit_on strategy s ord bk = do {
     let position = bk_nextNode bk;
     prepared \<leftarrow> prepareSubmit strategy (book_side (opposite s) bk) position ord;
     (result, own, opp, nextSequence) \<leftarrow> commitSubmit (ordering_of s) (book_side s bk)
       (book_side (opposite s) bk) (bk_nextSequence bk) prepared;
     let bk' = (set_side s own (set_side (opposite s) opp bk))
       \<lparr>bk_nextSequence := nextSequence, bk_nextNode := position + 1\<rparr>;
     if isCrossed bk' then None else Some (result, bk')
   }"

definition submit :: "strategy \<Rightarrow> order option \<Rightarrow> Book \<Rightarrow> (SubmitResult result \<times> Book) option" where
  "submit strategy incoming bk = (case incoming of
     None \<Rightarrow> Some (Inl (InvalidOrderError NullOrder), bk)
   | Some ord \<Rightarrow>
       (case validate ord bk of
          Inl e \<Rightarrow> Some (Inl e, bk)
        | Inr _ \<Rightarrow> do {
            (result, bk') \<leftarrow> submit_on strategy (order_side ord) ord bk;
            Some (Inr result, bk')
          }))"

definition cancel :: "OrderId \<Rightarrow> Book \<Rightarrow> (order option \<times> Book) option" where
  "cancel oid bk = do {
     (ord, bids) \<leftarrow> side_cancel (ordering_of Buy) oid (bk_bids bk);
     let bk1 = bk\<lparr>bk_bids := bids\<rparr>;
     if ord \<noteq> None then Some (ord, bk1)
     else do {
       (ord', asks) \<leftarrow> side_cancel (ordering_of Sell) oid (bk_asks bk1);
       Some (ord', bk1\<lparr>bk_asks := asks\<rparr>)
     }
   }"

subsection \<open>Modify\<close>

definition reduceInPlace :: "ordering \<Rightarrow> OrderId \<Rightarrow> Quantity \<Rightarrow> order_book \<Rightarrow> order_book option" where
  "reduceInPlace cmp oid newQty sd = do {
     ((price, level), position) \<leftarrow> locate cmp oid sd;
     level' \<leftarrow> reduceQuantity position newQty level;
     Some (set_level price level' sd)
   }"

definition requeue :: "strategy \<Rightarrow> Side \<Rightarrow> OrderId \<Rightarrow> Quantity \<Rightarrow> Price \<Rightarrow> Book \<Rightarrow> (ModifyResult \<times> Book) option" where
  "requeue strategy s oid newQty targetPrice bk = do {
     resting \<leftarrow> side_find (ordering_of s) oid (book_side s bk);
     let replacement = cloneAmended newQty targetPrice resting;
     let position = bk_nextNode bk;
     prepared \<leftarrow> prepareSubmit strategy (book_side (opposite s) bk) position replacement;
     (withdrawn, own) \<leftarrow> side_cancel (ordering_of s) oid (book_side s bk);
     if withdrawn = None then None
     else do {
       (submitted, own', opp', nextSequence) \<leftarrow>
         commitSubmit (ordering_of s) own (book_side (opposite s) bk) (bk_nextSequence bk) prepared;
       Some (new_ModifyResult\<lparr>mr_status := Requeued, mr_fills := sr_fills submitted,
                              mr_restingQty := sr_restingQty submitted\<rparr>,
             (set_side s own' (set_side (opposite s) opp' bk))
               \<lparr>bk_nextSequence := nextSequence, bk_nextNode := position + 1\<rparr>)
     }
   }"

definition modify :: "strategy \<Rightarrow> OrderId \<Rightarrow> Quantity \<Rightarrow> Price option \<Rightarrow> Book \<Rightarrow> (ModifyResult \<times> Book) option" where
  "modify strategy oid newQty newPrice bk =
     (if newQty = 0 then Some (new_ModifyResult\<lparr>mr_status := Rejected\<rparr>, bk)
      else
        let onBid = (side_find (ordering_of Buy) oid (bk_bids bk) \<noteq> None);
            s = (if onBid then Buy else Sell)
        in case side_find (ordering_of s) oid (book_side s bk) of
             None \<Rightarrow> Some (new_ModifyResult\<lparr>mr_status := NotFound\<rparr>, bk)
           | Some resting \<Rightarrow> do {
               currentPrice \<leftarrow> restingPrice resting;
               let priceMoves = (case newPrice of None \<Rightarrow> False | Some p \<Rightarrow> p \<noteq> currentPrice);
               let sizeGrows = (newQty > remaining resting);
               if \<not> priceMoves \<and> \<not> sizeGrows then do {
                 sd \<leftarrow> reduceInPlace (ordering_of s) oid newQty (book_side s bk);
                 Some (new_ModifyResult\<lparr>mr_status := AmendedInPlace, mr_restingQty := newQty\<rparr>,
                       set_side s sd bk)
               } else
                 requeue strategy s oid newQty
                   (case newPrice of None \<Rightarrow> currentPrice | Some p \<Rightarrow> p) bk
             })"

section \<open>Invariant\<close>

text \<open>
  What every operation keeps: both sides are in order, an id rests once in the whole book, the
  allocator is ahead of every live node, and every bid is below every ask.
\<close>

definition uncrossed :: "Book \<Rightarrow> bool" where
  "uncrossed bk \<longleftrightarrow> (\<forall>p \<in> side_prices (bk_bids bk). \<forall>q \<in> side_prices (bk_asks bk). sint p < sint q)"

definition book_ok :: "Book \<Rightarrow> bool" where
  "book_ok bk \<longleftrightarrow>
     side_ok Buy (bk_bids bk) \<and> side_ok Sell (bk_asks bk) \<and>
     side_ids (bk_bids bk) \<inter> side_ids (bk_asks bk) = {} \<and>
     (\<forall>n \<in> side_nodes (bk_bids bk) \<union> side_nodes (bk_asks bk). n < bk_nextNode bk) \<and>
     uncrossed bk"

section \<open>Committing a plan\<close>

text \<open>One iteration of the commit loop is one \<^const>\<open>fill_level\<close>, plus the index entry of a filled order.\<close>

lemma commit_fill_fill_level:
  assumes "map_of (sb_levels opp) (pf_level f) = Some l" and "deref (pf_resting f) l = Some ord"
  shows "commit_fill f opp =
     map_option (\<lambda>l'. set_level (pf_level f) l'
         (if isFilled (onPartialFill (pf_quantity f) ord) then unindex (pf_restingId f) opp else opp))
       (fill_level (pf_resting f) (pf_quantity f) l)"
  using assms
  by (auto simp: commit_fill_def fill_level_def settle_def applyFill_def deref_def map_of_al_adjust
      Let_def level_extract_def replenishAndRequeue_def)

lemma fill_queue_entries:
  assumes "map_of q w = Some ord" and "distinct (map fst q)" and "map fst q \<noteq> []"
  shows "isFilled (onPartialFill n ord) \<Longrightarrow>
      image_mset (\<lambda>(m, x). (order_id x, m)) (mset q) =
        add_mset (order_id ord, w) (image_mset (\<lambda>(m, x). (order_id x, m)) (mset (fill_queue w n ord q)))"
    and "\<not> isFilled (onPartialFill n ord) \<Longrightarrow>
      image_mset (\<lambda>(m, x). (order_id x, m)) (mset (fill_queue w n ord q)) =
        image_mset (\<lambda>(m, x). (order_id x, m)) (mset q)"
    and "fst ` set (fill_queue w n ord q) \<subseteq> fst ` set q"
proof -
  obtain xs ys where q: "q = xs @ (w, ord) # ys" and w: "w \<notin> fst ` set xs"
    using assms(1) by (rule map_of_SomeE)
  with assms(2) have "w \<notin> fst ` set ys" by simp
  note facts = q w this
  show "image_mset (\<lambda>(m, x). (order_id x, m)) (mset q) =
      add_mset (order_id ord, w) (image_mset (\<lambda>(m, x). (order_id x, m)) (mset (fill_queue w n ord q)))"
    if "isFilled (onPartialFill n ord)"
    using facts that by (simp add: fill_queue_def)
  show "image_mset (\<lambda>(m, x). (order_id x, m)) (mset (fill_queue w n ord q)) =
      image_mset (\<lambda>(m, x). (order_id x, m)) (mset q)" if "\<not> isFilled (onPartialFill n ord)"
    using facts that by (simp add: fill_queue_def Let_def)
  show "fst ` set (fill_queue w n ord q) \<subseteq> fst ` set q"
    using facts by (auto simp: fill_queue_def Let_def)
qed

lemma level_entries_mset:
  "mset (level_entries p l) = image_mset (\<lambda>(i, n). (i, \<lparr>loc_price = p, loc_position = n\<rparr>))
     (image_mset (\<lambda>(m, x). (order_id x, m)) (mset (pl_orders l)))"
  by (simp add: level_entries_def image_mset.compositionality comp_def case_prod_unfold)

lemma commit_fill_ok:
  assumes shape: "side_shape s opp" and l: "map_of (sb_levels opp) (pf_level f) = Some l"
    and d: "deref (pf_resting f) l = Some ord" and f: "order_id ord = pf_restingId f"
      "pf_quantity f \<le> visibleQty ord"
  shows "\<exists>l' opp'. fill_level (pf_resting f) (pf_quantity f) l = Some l' \<and> commit_fill f opp = Some opp' \<and>
     sb_levels opp' = al_adjust (pf_level f) (\<lambda>_. l') (sb_levels opp) \<and> side_shape s opp' \<and>
     side_ids opp' \<subseteq> side_ids opp \<and> fst ` set (pl_orders l') \<subseteq> fst ` set (pl_orders l)"
proof -
  have lok: "level_ok s (pf_level f) l" by (rule side_shape_splitE [OF shape l])
  obtain l' where l': "fill_level (pf_resting f) (pf_quantity f) l = Some l'" "level_ok s (pf_level f) l'"
    and q: "pl_orders l' = fill_queue (pf_resting f) (pf_quantity f) ord (pl_orders l)"
    using fill_level_ok [OF lok d f(2)] by blast
  let ?hit = "onPartialFill (pf_quantity f) ord"
  let ?opp = "set_level (pf_level f) l' (if isFilled ?hit then unindex (pf_restingId f) opp else opp)"
  have "distinct (map fst (pl_orders l))" "map fst (pl_orders l) \<noteq> []"
    using lok d by (auto simp: level_ok_def deref_def)
  note es = fill_queue_entries [OF d [unfolded deref_def] this, of "pf_quantity f", folded q]
  have "side_shape s ?opp \<and> side_ids ?opp \<subseteq> side_ids opp"
  proof (cases "isFilled ?hit")
    case True
    then have "mset (level_entries (pf_level f) l) = add_mset (order_id ord,
        \<lparr>loc_price = pf_level f, loc_position = pf_resting f\<rparr>) (mset (level_entries (pf_level f) l'))"
      using es(1) by (simp add: level_entries_mset)
    from side_shape_withdraw [OF shape l l'(2) this] show ?thesis using True f(1) by auto
  next
    case False
    then have "mset (level_entries (pf_level f) l') = mset (level_entries (pf_level f) l)"
      using es(2) by (simp add: level_entries_mset)
    from side_shape_rewrite [OF shape l l'(2) this] show ?thesis using False by auto
  qed
  moreover have "commit_fill f opp = Some ?opp" using commit_fill_fill_level [OF l d] l'(1) by simp
  moreover have "sb_levels ?opp = al_adjust (pf_level f) (\<lambda>_. l') (sb_levels opp)"
    by (simp add: set_level_def unindex_def)
  ultimately show ?thesis using l'(1) es(3) by blast
qed

definition agg_after :: "PlannedFill list \<Rightarrow> order \<Rightarrow> order" where
  "agg_after fs = fold (\<lambda>f. onPartialFill (pf_quantity f)) fs"

lemma agg_after_simps [simp]:
  "agg_after [] agg = agg"
  "agg_after (f # fs) agg = agg_after fs (onPartialFill (pf_quantity f) agg)"
  "agg_after (fs @ gs) agg = agg_after gs (agg_after fs agg)"
  by (simp_all add: agg_after_def)

lemma agg_after_observers [simp]:
  "order_id (agg_after fs agg) = order_id agg"
  "order_side (agg_after fs agg) = order_side agg"
  "order_account (agg_after fs agg) = order_account agg"
  "restingPrice (agg_after fs agg) = restingPrice agg"
  "crosses (agg_after fs agg) = crosses agg"
  "is_iceberg (agg_after fs agg) = is_iceberg agg"
  by (induction fs arbitrary: agg) auto

lemma make_fill_onPartialFill [simp]: "make_fill (onPartialFill q agg) = make_fill agg"
  by (rule ext) (simp add: make_fill_def)

lemma al_adjust_twice [simp]: "al_adjust p (\<lambda>_. b) (al_adjust p (\<lambda>_. a) xs) = al_adjust p (\<lambda>_. b) xs"
  by (induction xs) auto

lemma al_adjust_same: "map_of xs p = Some l \<Longrightarrow> distinct (map fst xs) \<Longrightarrow> al_adjust p (\<lambda>_. l) xs = xs"
  by (induction xs) (auto split: if_splits)

text \<open>Committing the fills planned at one level replaces that level and touches no other.\<close>

lemma commit_level:
  assumes "side_shape s opp" and "map_of (sb_levels opp) p = Some l" and "fills_valid fs l"
    and "\<forall>f \<in> set fs. pf_level f = p" and "run_fills fs l = Some l'"
  shows "\<exists>opp'. commit_fills (fs @ gs) opp agg fills =
       commit_fills gs opp' (agg_after fs agg) (fills @ map (make_fill agg) fs) \<and>
     sb_levels opp' = al_adjust p (\<lambda>_. l') (sb_levels opp) \<and> side_shape s opp' \<and>
     side_ids opp' \<subseteq> side_ids opp \<and> fst ` set (pl_orders l') \<subseteq> fst ` set (pl_orders l)"
  using assms
proof (induction fs arbitrary: opp l agg fills)
  case Nil
  then show ?case using al_adjust_same [OF _ side_shape_distinct] by auto
next
  case (Cons f fs)
  obtain ord where d: "deref (pf_resting f) l = Some ord" "order_id ord = pf_restingId f"
    "pf_quantity f \<le> visibleQty ord" using Cons.prems(3) by (auto split: option.splits)
  have p: "pf_level f = p" using Cons.prems(4) by simp
  obtain l1 opp1 where 1: "fill_level (pf_resting f) (pf_quantity f) l = Some l1"
    "commit_fill f opp = Some opp1" "sb_levels opp1 = al_adjust p (\<lambda>_. l1) (sb_levels opp)"
    "side_shape s opp1" "side_ids opp1 \<subseteq> side_ids opp" "fst ` set (pl_orders l1) \<subseteq> fst ` set (pl_orders l)"
    using commit_fill_ok [OF Cons.prems(1) _ d] Cons.prems(2) p by blast
  have l1: "map_of (sb_levels opp1) p = Some l1" "fills_valid fs l1" "run_fills fs l1 = Some l'"
    using 1 Cons.prems(2,3,5) d by (simp_all add: map_of_al_adjust)
  let ?agg = "onPartialFill (pf_quantity f) agg"
  obtain opp' where opp': "commit_fills (fs @ gs) opp1 ?agg (fills @ [make_fill agg f]) =
       commit_fills gs opp' (agg_after fs ?agg) ((fills @ [make_fill agg f]) @ map (make_fill ?agg) fs)"
     "sb_levels opp' = al_adjust p (\<lambda>_. l') (sb_levels opp1)" "side_shape s opp'"
     "side_ids opp' \<subseteq> side_ids opp1" "fst ` set (pl_orders l') \<subseteq> fst ` set (pl_orders l1)"
    using Cons.IH [OF 1(4) l1(1,2) _ l1(3)] Cons.prems(4) by (metis list.set_intros(2))
  from opp' 1 order_trans [OF opp'(4) 1(5)] order_trans [OF opp'(5) 1(6)]
  show ?case by (intro exI [of _ opp']) simp
qed

section \<open>Planning a side and committing the plan\<close>

text \<open>
  How a commit leaves the levels it walked: a prefix emptied, the rest not; and what is left does
  not trade with the aggressor unless the aggressor is used up or was blocked.
\<close>

definition settled :: "order \<Rightarrow> bool \<Rightarrow> Quantity \<Rightarrow> levels \<Rightarrow> levels \<Rightarrow> bool" where
  "settled agg blocked left ls ls' \<longleftrightarrow> map fst ls' = map fst ls \<and>
     (\<exists>es ns. ls' = es @ ns \<and> (\<forall>(p, l) \<in> set es. level_empty l) \<and> (\<forall>(p, l) \<in> set ns. \<not> level_empty l) \<and>
        (blocked \<or> left = 0 \<or> (\<forall>(p, l) \<in> set ns. \<not> crosses agg p)))"

definition fills_good :: "order \<Rightarrow> levels \<Rightarrow> PlannedFill list \<Rightarrow> bool" where
  "fills_good agg ls fs \<longleftrightarrow>
     (\<forall>f \<in> set fs. 0 < pf_quantity f \<and> crosses agg (pf_price f) \<and> pf_price f \<in> fst ` set ls \<and>
        pf_restingAccount f \<noteq> order_account agg)"

definition nodes_of :: "levels \<Rightarrow> node set" where
  "nodes_of ls = (\<Union>(p, l) \<in> set ls. fst ` set (pl_orders l))"

lemma nodes_of_simps [simp]:
  "nodes_of [] = {}" "nodes_of ((p, l) # ls) = fst ` set (pl_orders l) \<union> nodes_of ls"
  "nodes_of (xs @ ys) = nodes_of xs \<union> nodes_of ys"
  by (auto simp: nodes_of_def)

lemma side_nodes_of: "side_nodes sd = nodes_of (sb_levels sd)"
  by (simp add: side_nodes_def nodes_of_def)

lemma settled_refl:
  assumes "\<forall>(p, l) \<in> set ls. \<not> level_empty l" and "left = 0 \<or> (\<forall>(p, l) \<in> set ls. \<not> crosses agg p)"
  shows "settled agg blocked left ls ls"
  unfolding settled_def using assms by (intro conjI exI [of _ "[]"] exI [of _ ls]) auto

lemma settled_hit:
  assumes "\<forall>(q, k) \<in> set ls. \<not> level_empty k" and "blocked \<or> left = 0"
  shows "settled agg blocked left ((p, l) # ls) ((p, l') # ls)"
proof (cases "level_empty l'")
  case True
  then show ?thesis unfolding settled_def using assms
    by (intro conjI exI [of _ "[(p, l')]"] exI [of _ ls]) auto
next
  case False
  then show ?thesis unfolding settled_def using assms
    by (intro conjI exI [of _ "[]"] exI [of _ "(p, l') # ls"]) auto
qed

lemma settled_empty:
  assumes "settled agg blocked left ls ls'" and "level_empty l'"
  shows "settled agg blocked left ((p, l) # ls) ((p, l') # ls')"
proof -
  obtain es ns where "ls' = es @ ns" "\<forall>(p, l) \<in> set es. level_empty l" "\<forall>(p, l) \<in> set ns. \<not> level_empty l"
    "blocked \<or> left = 0 \<or> (\<forall>(p, l) \<in> set ns. \<not> crosses agg p)" "map fst ls' = map fst ls"
    using assms(1) by (auto simp: settled_def)
  then show ?thesis unfolding settled_def using assms(2)
    by (intro conjI exI [of _ "(p, l') # es"] exI [of _ ns]) auto
qed

lemma fills_valid_positive: "fills_valid fs l \<Longrightarrow> f \<in> set fs \<Longrightarrow> 0 < pf_quantity f"
  by (induction fs arbitrary: l) (auto split: option.splits)

lemma plan_fits_word:
  assumes "planned_qty fs \<le> unat avail"
  shows "unat (\<Sum>f \<leftarrow> fs. pf_quantity f) = planned_qty fs"
    and "unat (avail - (\<Sum>f \<leftarrow> fs. pf_quantity f)) = unat avail - planned_qty fs"
proof -
  have "unat avail < 2 ^ LENGTH(64)" by (rule unsigned_less)
  then have "sum_list (map unat (map pf_quantity fs)) < 2 ^ LENGTH(64)"
    using assms by (simp add: planned_qty_def comp_def)
  from sum_list_word_mono_unat [OF this] show sum: "unat (\<Sum>f \<leftarrow> fs. pf_quantity f) = planned_qty fs"
    by (simp add: planned_qty_def comp_def)
  with assms show "unat (avail - (\<Sum>f \<leftarrow> fs. pf_quantity f)) = unat avail - planned_qty fs"
    by (simp add: unat_sub word_le_nat_alt)
qed

lemma plan_levels_none: "\<not> 0 < avail \<Longrightarrow> plan_levels strat agg avail ls into = Some (avail, into)"
  by (cases ls) auto

lemma not_crosses_rest:
  assumes "levels_sorted (ordering_of (opposite (order_side agg))) ((p, l) # ls)" and "\<not> crosses agg p"
  shows "\<forall>(q, k) \<in> set ((p, l) # ls). \<not> crosses agg q"
  using assms crosses_mono by fastforce

lemma commit_fills_append:
  "commit_fills (fs @ gs) opp agg fills =
     Option.bind (commit_fills fs opp agg fills) (\<lambda>(opp', agg', fills'). commit_fills gs opp' agg' fills')"
proof (induction fs arbitrary: opp agg fills)
  case (Cons f fs)
  then show ?case by (cases "commit_fill f opp") (auto simp: Let_def)
qed simp

lemma make_fill_agg_after [simp]: "make_fill (agg_after fs agg) = make_fill agg"
  by (rule ext) (simp add: make_fill_def)

context matching_strategy
begin

text \<open>
  One eligible level: what the strategy plans there, what committing it does, and how much the
  book has left to plan with.
\<close>

lemma plan_level:
  assumes shape: "side_shape s opp" and ls: "sb_levels opp = xs @ (p, l) # ls"
    and ne: "\<not> level_empty l" and avail: "0 < avail"
  obtains fs blocked l' opp' where
    "plan agg avail l into = Some (extend_plan into fs blocked)"
    and "planned_qty fs \<le> unat avail" and "\<not> blocked \<Longrightarrow> 0 < planned_qty fs"
    and "\<not> blocked \<Longrightarrow> planned_qty fs = unat avail \<or> level_empty l'"
    and "\<forall>f \<in> set fs. 0 < pf_quantity f \<and> pf_price f = p \<and> pf_restingAccount f \<noteq> order_account agg"
    and "\<And>gs. commit_fills (fs @ gs) opp agg' fills =
           commit_fills gs opp' (agg_after fs agg') (fills @ map (make_fill agg') fs)"
    and "sb_levels opp' = xs @ (p, l') # ls" and "side_shape s opp'"
    and "side_ids opp' \<subseteq> side_ids opp" and "fst ` set (pl_orders l') \<subseteq> fst ` set (pl_orders l)"
proof -
  have d: "p \<notin> fst ` set xs" "p \<notin> fst ` set ls" using side_shape_distinct [OF shape] ls by auto
  have l: "map_of (sb_levels opp) p = Some l" using d ls by simp
  have lok: "level_ok s p l" by (rule side_shape_splitE [OF shape l])
  then have price: "pl_price l = p" by (simp add: level_ok_def)
  obtain fs blocked where plan: "plan agg avail l into = Some (extend_plan into fs blocked)"
    and fits: "plan_fits agg avail l fs blocked" using plan_contract [OF lok avail] by blast
  have v: "fills_valid fs l" using fits by (simp add: plan_fits_def)
  obtain l' where run: "run_fills fs l = Some l'" using fills_valid_run [OF lok v] by blast
  have at: "\<forall>f \<in> set fs. pf_level f = p" using fits price by (simp add: plan_fits_def)
  note commit = commit_level [OF shape l v at run]
  obtain opp' where opp': "sb_levels opp' = al_adjust p (\<lambda>_. l') (sb_levels opp)" "side_shape s opp'"
    "side_ids opp' \<subseteq> side_ids opp" "fst ` set (pl_orders l') \<subseteq> fst ` set (pl_orders l)"
    and c: "commit_fills (fs @ []) opp agg' fills =
      commit_fills [] opp' (agg_after fs agg') (fills @ map (make_fill agg') fs)"
    using commit [of "[]" agg' fills] by blast
  have "commit_fills (fs @ gs) opp agg' fills =
      commit_fills gs opp' (agg_after fs agg') (fills @ map (make_fill agg') fs)" for gs
    using commit_fills_append [of fs gs opp agg' fills] c by simp
  moreover have "sb_levels opp' = xs @ (p, l') # ls" using opp'(1) ls d by simp
  moreover have "planned_qty fs \<le> unat avail" using fits by (simp add: plan_fits_def)
  moreover have "0 < planned_qty fs" if "\<not> blocked"
    using plan_progress [OF lok avail _ plan fits that] ne by (simp add: level_empty_def)
  moreover have "planned_qty fs = unat avail \<or> level_empty l'" if "\<not> blocked"
    using fits run that by (simp add: plan_fits_def level_empty_def)
  moreover have "\<forall>f \<in> set fs. 0 < pf_quantity f \<and> pf_price f = p \<and> pf_restingAccount f \<noteq> order_account agg"
    using fits price fills_valid_positive [OF v] by (simp add: plan_fits_def)
  ultimately show thesis using that plan opp' by blast
qed

lemma plan_commit:
  assumes "side_shape (opposite (order_side agg)) opp" and "sb_levels opp = xs @ ls"
    and "\<forall>(p, l) \<in> set ls. \<not> level_empty l" and "\<not> mp_selfMatchBlocked into"
  shows "\<exists>fs blocked left ls' opp'.
     plan_levels plan agg avail ls into = Some (left, extend_plan into fs blocked) \<and>
     unat left + planned_qty fs = unat avail \<and> fills_good agg ls fs \<and>
     commit_fills fs opp agg' fills = Some (opp', agg_after fs agg', fills @ map (make_fill agg') fs) \<and>
     sb_levels opp' = xs @ ls' \<and> side_shape (opposite (order_side agg)) opp' \<and>
     side_ids opp' \<subseteq> side_ids opp \<and> nodes_of ls' \<subseteq> nodes_of ls \<and> settled agg blocked left ls ls'"
  using assms
proof (induction ls arbitrary: xs opp avail into agg' fills)
  case Nil
  then show ?case
    by (intro exI [of _ "[]"] exI [of _ False] exI [of _ avail] exI [of _ opp])
       (simp add: fills_good_def settled_refl)
next
  case (Cons e ls)
  obtain p l where e: "e = (p, l)" by (cases e)
  note ls = Cons.prems(2) [unfolded e]
  have sorted: "levels_sorted (ordering_of (opposite (order_side agg))) ((p, l) # ls)"
    using Cons.prems(1) ls by (simp add: side_shape_def sorted_wrt_append)
  show ?case
  proof (cases "0 < avail \<and> crosses agg p")
    case False
    then have "plan_levels plan agg avail (e # ls) into = Some (avail, extend_plan into [] False)"
      using e by auto
    moreover have "settled agg False avail (e # ls) (e # ls)"
      using Cons.prems(3) False not_crosses_rest [OF sorted] unfolding e
      by (intro settled_refl) (auto simp: word_gt_0)
    ultimately show ?thesis using Cons.prems(1,2)
      by (intro exI [of _ "[]"] exI [of _ False] exI [of _ avail] exI [of _ "e # ls"] exI [of _ opp])
         (simp add: fills_good_def)
  next
    case True
    have ne: "\<not> level_empty l" "\<forall>(p, l) \<in> set ls. \<not> level_empty l" using Cons.prems(3) e by auto
    obtain fs blocked l1 opp1 where plan: "plan agg avail l into = Some (extend_plan into fs blocked)"
      and qty: "planned_qty fs \<le> unat avail" "\<not> blocked \<Longrightarrow> 0 < planned_qty fs"
        "\<not> blocked \<Longrightarrow> planned_qty fs = unat avail \<or> level_empty l1"
      and fs: "\<forall>f \<in> set fs. 0 < pf_quantity f \<and> pf_price f = p \<and> pf_restingAccount f \<noteq> order_account agg"
      and commit: "\<And>gs. commit_fills (fs @ gs) opp agg' fills =
           commit_fills gs opp1 (agg_after fs agg') (fills @ map (make_fill agg') fs)"
      and opp1: "sb_levels opp1 = xs @ (p, l1) # ls" "side_shape (opposite (order_side agg)) opp1"
        "side_ids opp1 \<subseteq> side_ids opp" "fst ` set (pl_orders l1) \<subseteq> fst ` set (pl_orders l)"
      using plan_level [OF Cons.prems(1) ls ne(1) conjunct1 [OF True]] by metis
    define left where "left = avail - (\<Sum>f \<leftarrow> fs. pf_quantity f)"
    note words = plan_fits_word [OF qty(1)]
    have left: "unat left + planned_qty fs = unat avail" using words(2) qty(1) by (simp add: left_def)
    have good: "fills_good agg ((p, l) # ls) fs" using fs True by (auto simp: fills_good_def)
    have step: "plan_levels plan agg avail (e # ls) into =
        (if blocked then Some (left, extend_plan into fs blocked)
         else plan_levels plan agg left ls (extend_plan into fs blocked))"
      using True plan Cons.prems(4) qty(2) words(1) unfolding e left_def
      by (auto simp: Let_def)
    show ?thesis
    proof (cases "blocked \<or> left = 0")
      case True
      then have "plan_levels plan agg avail (e # ls) into = Some (left, extend_plan into fs blocked)"
        using step plan_levels_none by auto
      with True left good commit [of "[]"] opp1 settled_hit [OF ne(2) True] show ?thesis
        unfolding e by (intro exI [of _ fs] exI [of _ blocked] exI [of _ left]
            exI [of _ "(p, l1) # ls"] exI [of _ opp1]) auto
    next
      case False
      then have "\<not> mp_selfMatchBlocked (extend_plan into fs blocked)" using Cons.prems(4) by simp
      moreover have "sb_levels opp1 = (xs @ [(p, l1)]) @ ls" using opp1(1) by simp
      ultimately obtain gs blocked' left' ls' opp' where
        IH: "plan_levels plan agg left ls (extend_plan into fs blocked) =
            Some (left', extend_plan (extend_plan into fs blocked) gs blocked')"
          "unat left' + planned_qty gs = unat left" "fills_good agg ls gs"
          "commit_fills gs opp1 (agg_after fs agg') (fills @ map (make_fill agg') fs) =
            Some (opp', agg_after gs (agg_after fs agg'),
              (fills @ map (make_fill agg') fs) @ map (make_fill (agg_after fs agg')) gs)"
          "sb_levels opp' = (xs @ [(p, l1)]) @ ls'" "side_shape (opposite (order_side agg)) opp'"
          "side_ids opp' \<subseteq> side_ids opp1" "nodes_of ls' \<subseteq> nodes_of ls" "settled agg blocked' left' ls ls'"
        using Cons.IH [OF opp1(2) _ ne(2)] by blast
      have "level_empty l1" using qty(3) left False by (auto simp: unsigned_eq_0_iff)
      then have "settled agg blocked' left' ((p, l) # ls) ((p, l1) # ls')"
        using IH(9) settled_empty by blast
      then show ?thesis
        using step False IH left good commit [of gs] opp1 unfolding e
        by (intro exI [of _ "fs @ gs"] exI [of _ blocked'] exI [of _ left']
            exI [of _ "(p, l1) # ls'"] exI [of _ opp']) (auto simp: fills_good_def)
    qed
  qed
qed

end

section \<open>What a submission does\<close>

lemma onPartialFill_add: "onPartialFill a (onPartialFill b ord) = onPartialFill (b + a) ord"
  by (cases ord) (simp_all add: algebra_simps)

lemma onPartialFill_0 [simp]: "onPartialFill 0 ord = ord"
  by (cases ord) simp_all

lemma agg_after_total: "agg_after fs agg = onPartialFill (\<Sum>f \<leftarrow> fs. pf_quantity f) agg"
  by (induction fs arbitrary: agg) (simp_all add: onPartialFill_add)

text \<open>An incoming order that executes less than it displays can rest.\<close>

lemma onPartialFill_wf:
  assumes "order_wf ord" and "q < visibleQty ord"
  shows "order_wf (onPartialFill q ord)"
proof -
  have q: "q \<le> visibleQty ord" using assms(2) by simp
  have ne: "visibleQty ord - q \<noteq> 0" using assms(2) by auto
  from assms(1) q show ?thesis
  proof (cases rule: onPartialFill_cases)
    case filled
    have "unat (visibleQty ord) \<le> unat (remaining ord)" using order_wf_visible [OF assms(1)] by (simp add: word_le_nat_alt)
    with filled assms(2) show ?thesis by (auto simp: isFilled_def word_less_nat_alt)
  next
    case spent
    with ne show ?thesis by (simp add: needsReplenish_def)
  qed
qed

lemma drop_settled:
  assumes shape: "side_shape s opp" and st: "settled agg blocked left ls (sb_levels opp)"
  shows "side_ok s (dropEmptyLevelsFromFront opp)"
    and "side_ids (dropEmptyLevelsFromFront opp) = side_ids opp"
    and "side_nodes (dropEmptyLevelsFromFront opp) = side_nodes opp"
    and "side_prices (dropEmptyLevelsFromFront opp) \<subseteq> fst ` set ls"
    and "blocked \<or> left = 0 \<or> (\<forall>p \<in> side_prices (dropEmptyLevelsFromFront opp). \<not> crosses agg p)"
proof -
  obtain es ns where ls: "sb_levels opp = es @ ns" "\<forall>(p, l) \<in> set es. level_empty l"
    "\<forall>(p, l) \<in> set ns. \<not> level_empty l" "blocked \<or> left = 0 \<or> (\<forall>(p, l) \<in> set ns. \<not> crosses agg p)"
    and keys: "map fst (es @ ns) = map fst ls" using st by (auto simp: settled_def)
  have new: "sb_levels (dropEmptyLevelsFromFront opp) = ns"
  proof -
    have "dropWhile (\<lambda>(p, l). level_empty l) (es @ ns) = ns"
      by (rule dropWhile_prefix) (use ls(2,3) in auto)
    then show ?thesis using ls(1) by (simp add: dropEmptyLevelsFromFront_def)
  qed
  have es: "entries es = []" "nodes_of es = {}"
    using ls(2) by (auto simp: entries_def level_entries_def level_empty_def nodes_of_def)
  show "side_ok s (dropEmptyLevelsFromFront opp)"
    using shape ls es unfolding side_ok_def side_shape_def new
    by (auto simp: dropEmptyLevelsFromFront_def sorted_wrt_append)
  show "side_ids (dropEmptyLevelsFromFront opp) = side_ids opp" using es ls by (simp add: side_ids_def new)
  show "side_nodes (dropEmptyLevelsFromFront opp) = side_nodes opp"
    using es ls by (simp add: side_nodes_of new)
  have "fst ` set ls = set (map fst (es @ ns))" using keys by simp
  then show "side_prices (dropEmptyLevelsFromFront opp) \<subseteq> fst ` set ls" by (auto simp: side_prices_def new)
  show "blocked \<or> left = 0 \<or> (\<forall>p \<in> side_prices (dropEmptyLevelsFromFront opp). \<not> crosses agg p)"
    using ls(4) by (auto simp: side_prices_def new)
qed

definition rests :: "order \<Rightarrow> bool \<Rightarrow> Quantity \<Rightarrow> bool" where
  "rests ord blocked left \<longleftrightarrow> 0 < left \<and> \<not> blocked \<and> restingPrice ord \<noteq> None"

definition submit_result :: "order \<Rightarrow> PlannedFill list \<Rightarrow> bool \<Rightarrow> Quantity \<Rightarrow> SubmitResult" where
  "submit_result ord fs blocked left =
     \<lparr>sr_status =
        (if rests ord blocked left then (if fs = [] then Resting else PartiallyFilledResting)
         else if left = 0 then Filled else if blocked then SelfMatchBlocked else CancelledRemainder),
      sr_fills = map (make_fill ord) fs, sr_filledQty = remaining ord - left,
      sr_restingQty = (if rests ord blocked left then left else 0)\<rparr>"

text \<open>Resting a prepared order: always possible, and keeps the side in order when the order is well formed.\<close>

definition prepared_for :: "node \<Rightarrow> order \<Rightarrow> Price \<Rightarrow> PreparedSubmit \<Rightarrow> bool" where
  "prepared_for n ord p prepared \<longleftrightarrow>
     ps_levelNode prepared = Some (makeLevelNode p) \<and> ps_indexNode prepared = Some (order_id ord) \<and>
     ps_position prepared = n \<and> ps_restPrice prepared = p \<and> ps_holding prepared = [(n, ord)]"

lemma rest_prepared_total:
  assumes "side_shape s own" and "prepared_for n ord p prepared"
  shows "\<exists>own'. rest_prepared (ordering_of s) prepared own = Some own' \<and>
     side_prices own' = insert p (side_prices own)"
proof -
  obtain xs l ys where ins: "level_insert (ordering_of s) p (new_PriceLevel p) (sb_levels own) = xs @ (p, l) # ys"
    and prices: "insert p (side_prices own) = fst ` set (xs @ (p, l) # ys)"
    using ensure_level_split [OF assms(1)] .
  let ?own2 = "installIndex (order_id ord) p n (installLevel (ordering_of s) (makeLevelNode p) own)"
  have levels: "sb_levels ?own2 = xs @ (p, l) # ys"
    using ins by (simp add: installIndex_def index_emplace_def installLevel_def makeLevelNode_def)
  then obtain l1 where "level_find (ordering_of s) p (sb_levels ?own2) = Some l1"
    by (metis (no_types, opaque_lifting) fst_conv in_set_conv_decomp map_of_eq_None_iff not_None_eq
        sided.level_find_map_of image_eqI)
  then have "\<exists>l2. rest_prepared (ordering_of s) prepared own = Some (set_level p l2 ?own2)"
    using assms(2) by (auto simp: rest_prepared_def prepared_for_def makeLevelNode_def adopt_def)
  then obtain l2 where "rest_prepared (ordering_of s) prepared own = Some (set_level p l2 ?own2)" ..
  moreover have "side_prices (set_level p l2 ?own2) = insert p (side_prices own)"
  proof -
    have "side_prices (set_level p l2 ?own2) = set (map fst (sb_levels ?own2))"
      by (simp add: side_prices_def set_level_def flip: set_map)
    then show ?thesis using levels prices by (simp add: image_Un)
  qed
  ultimately show ?thesis by blast
qed

lemma rest_prepared_spec:
  assumes "side_ok s own" and "prepared_for n ord p prepared" and "resting_ok s p ord"
    and "order_id ord \<notin> side_ids own" and "n \<notin> side_nodes own"
  shows "\<exists>own'. rest_prepared (ordering_of s) prepared own = Some own' \<and> side_ok s own' \<and>
     side_orders own' = queue_in (ordering_of s) p ord (side_orders own) \<and>
     side_nodes own' \<subseteq> insert n (side_nodes own)"
  using side_rest_spec [OF assms(1,3-5)] assms(2)
  by (auto simp: rest_prepared_def prepared_for_def makeLevelNode_def)

text \<open>
  What a prepared and committed submission leaves: on the opposite side, on the own side, and in
  the result. \<open>fs\<close> is the plan, \<open>left\<close> what the plan leaves of the order.
\<close>

definition own_side_after ::
  "order \<Rightarrow> node \<Rightarrow> Sequence \<Rightarrow> bool \<Rightarrow> Quantity \<Rightarrow> order_book \<Rightarrow> order_book \<Rightarrow> bool" where
  "own_side_after ord n seq blocked left own own' \<longleftrightarrow>
     (if rests ord blocked left
      then side_prices own' = insert (the (restingPrice ord)) (side_prices own) \<and>
        (order_wf ord \<and> remaining ord - left < visibleQty ord \<and> order_id ord \<notin> side_ids own \<and>
           n \<notin> side_nodes own \<longrightarrow>
           side_ok (order_side ord) own' \<and> side_nodes own' \<subseteq> insert n (side_nodes own) \<and>
           side_orders own' = queue_in (ordering_of (order_side ord)) (the (restingPrice ord))
             (onPartialFill (remaining ord - left) (assignSequence seq ord)) (side_orders own))
      else own' = own)"

definition submitted ::
  "order \<Rightarrow> node \<Rightarrow> Sequence \<Rightarrow> order_book \<Rightarrow> order_book \<Rightarrow> PlannedFill list \<Rightarrow> bool \<Rightarrow> Quantity \<Rightarrow>
     order_book \<Rightarrow> order_book \<Rightarrow> bool" where
  "submitted ord n seq own opp fs blocked left own' opp' \<longleftrightarrow>
     unat left + planned_qty fs = unat (remaining ord) \<and> fills_good ord (sb_levels opp) fs \<and>
     side_ok (opposite (order_side ord)) opp' \<and> side_ids opp' \<subseteq> side_ids opp \<and>
     side_nodes opp' \<subseteq> side_nodes opp \<and> side_prices opp' \<subseteq> side_prices opp \<and>
     (rests ord blocked left \<longrightarrow> (\<forall>q \<in> side_prices opp'. \<not> crosses ord q)) \<and>
     own_side_after ord n seq blocked left own own'"

lemma assignSequence_make_fill [simp]: "make_fill (assignSequence seq ord) = make_fill ord"
  by (rule ext) (simp add: make_fill_def)

text \<open>The package \<^verbatim>\<open>prepareSubmit\<close> assembles for a plan.\<close>

definition prepared_submit :: "node \<Rightarrow> order \<Rightarrow> PlannedFill list \<Rightarrow> bool \<Rightarrow> Quantity \<Rightarrow> PreparedSubmit" where
  "prepared_submit n ord fs blocked left =
     (let r = rests ord blocked left; p = (if r then the (restingPrice ord) else 0)
      in \<lparr>ps_plan = \<lparr>mp_fills = fs, mp_aggressorFilled = remaining ord - left, mp_selfMatchBlocked = blocked\<rparr>,
          ps_holding = [(n, ord)], ps_position = n,
          ps_levelNode = (if r then Some (makeLevelNode p) else None),
          ps_indexNode = (if r then Some (order_id ord) else None), ps_restPrice = p, ps_willRest = r\<rparr>)"

lemma prepareSubmit_plan:
  assumes "plan_levels strat ord (remaining ord) (sb_levels opp) empty_plan =
     Some (left, extend_plan empty_plan fs blocked)"
  shows "prepareSubmit strat opp n ord = Some (prepared_submit n ord fs blocked left)"
  using assms
  by (simp add: prepareSubmit_def planAgainst_def prepared_submit_def Let_def empty_plan_def
      rests_def extend_plan_def)

lemma planned_total:
  assumes "unat left + planned_qty fs = unat (remaining ord)"
  shows "(\<Sum>f \<leftarrow> fs. pf_quantity f) = remaining ord - left"
proof -
  have "left \<le> remaining ord" using assms by (simp add: word_le_nat_alt)
  then show ?thesis
    using plan_fits_word(1) [of fs "remaining ord"] assms by (simp add: word_unat_eq_iff unat_sub)
qed

lemma commitSubmit_plan:
  assumes qty: "unat left + planned_qty fs = unat (remaining ord)"
    and commit: "commit_fills fs opp (assignSequence seq ord) [] =
      Some (opp1, agg_after fs (assignSequence seq ord), map (make_fill ord) fs)"
    and own: "side_ok (order_side ord) own"
  shows "\<exists>own'. commitSubmit (ordering_of (order_side ord)) own opp seq (prepared_submit n ord fs blocked left) =
       Some (submit_result ord fs blocked left, own', dropEmptyLevelsFromFront opp1, seq + 1) \<and>
     own_side_after ord n seq blocked left own own'"
proof -
  let ?rested = "onPartialFill (remaining ord - left) (assignSequence seq ord)"
  have agg: "agg_after fs (assignSequence seq ord) = ?rested"
    by (simp add: agg_after_total planned_total [OF qty])
  show ?thesis
  proof (cases "rests ord blocked left")
    case False
    then show ?thesis using commit agg
      by (simp add: commitSubmit_def prepared_submit_def Let_def submit_result_def isFilled_def own_side_after_def)
  next
    case True
    then obtain p where p: "restingPrice ord = Some p" by (auto simp: rests_def)
    let ?prepared = "(prepared_submit n ord fs blocked left)\<lparr>ps_holding := [(n, ?rested)]\<rparr>"
    have pf: "prepared_for n ?rested p ?prepared"
      using True p by (simp add: prepared_for_def prepared_submit_def Let_def)
    have shape: "side_shape (order_side ord) own" using own by (simp add: side_ok_def)
    obtain own' where own': "rest_prepared (ordering_of (order_side ord)) ?prepared own = Some own'"
      "side_prices own' = insert p (side_prices own)"
      using rest_prepared_total [OF shape pf] by blast
    have "commitSubmit (ordering_of (order_side ord)) own opp seq (prepared_submit n ord fs blocked left) =
        Some (submit_result ord fs blocked left, own', dropEmptyLevelsFromFront opp1, seq + 1)"
      using True commit agg own'(1) by (simp add: commitSubmit_def prepared_submit_def Let_def submit_result_def)
    moreover have "side_ok (order_side ord) own' \<and> side_nodes own' \<subseteq> insert n (side_nodes own) \<and>
        side_orders own' = queue_in (ordering_of (order_side ord)) p ?rested (side_orders own)"
      if "order_wf ord" "remaining ord - left < visibleQty ord" "order_id ord \<notin> side_ids own" "n \<notin> side_nodes own"
    proof -
      have "resting_ok (order_side ord) p ?rested"
        using that(1,2) p by (simp add: resting_ok_def onPartialFill_wf)
      then show ?thesis using rest_prepared_spec [OF own pf] own'(1) that(3,4) by simp
    qed
    ultimately show ?thesis using True p own'(2) by (auto simp: own_side_after_def)
  qed
qed

context matching_strategy
begin

lemma prepare_commit:
  assumes own: "side_ok (order_side ord) own" and opp: "side_ok (opposite (order_side ord)) opp"
  shows "\<exists>prepared fs blocked left own' opp'.
     prepareSubmit plan opp n ord = Some prepared \<and>
     commitSubmit (ordering_of (order_side ord)) own opp seq prepared =
       Some (submit_result ord fs blocked left, own', opp', seq + 1) \<and>
     submitted ord n seq own opp fs blocked left own' opp'"
proof -
  let ?agg = "assignSequence seq ord"
  have shape: "side_shape (opposite (order_side ord)) opp" "\<forall>(p, l) \<in> set (sb_levels opp). \<not> level_empty l"
    using opp by (auto simp: side_ok_def)
  obtain fs blocked left ls' opp1 where
    pl: "plan_levels plan ord (remaining ord) (sb_levels opp) empty_plan = Some (left, extend_plan empty_plan fs blocked)"
    and qty: "unat left + planned_qty fs = unat (remaining ord)" and good: "fills_good ord (sb_levels opp) fs"
    and commit: "commit_fills fs opp ?agg [] = Some (opp1, agg_after fs ?agg, map (make_fill ord) fs)"
    and opp1: "sb_levels opp1 = ls'" "side_shape (opposite (order_side ord)) opp1"
      "side_ids opp1 \<subseteq> side_ids opp" "nodes_of ls' \<subseteq> nodes_of (sb_levels opp)"
    and st: "settled ord blocked left (sb_levels opp) ls'"
    using plan_commit [OF shape(1) _ shape(2), of "[]" empty_plan "remaining ord" ?agg "[]"]
    by (auto simp: empty_plan_def)
  let ?opp' = "dropEmptyLevelsFromFront opp1"
  note drop = drop_settled [OF opp1(2), unfolded opp1(1), OF st]
  have opp_ok: "side_ok (opposite (order_side ord)) ?opp'" "side_ids ?opp' \<subseteq> side_ids opp"
    "side_nodes ?opp' \<subseteq> side_nodes opp" "side_prices ?opp' \<subseteq> side_prices opp"
    using drop opp1 by (auto simp: side_nodes_of side_prices_def)
  have quiet: "\<forall>q \<in> side_prices ?opp'. \<not> crosses ord q" if "rests ord blocked left"
    using drop(5) that by (auto simp: rests_def)
  obtain own' where own': "commitSubmit (ordering_of (order_side ord)) own opp seq (prepared_submit n ord fs blocked left) =
       Some (submit_result ord fs blocked left, own', ?opp', seq + 1)"
    and "own_side_after ord n seq blocked left own own'"
    using commitSubmit_plan [OF qty commit own, of n blocked] by blast
  then have "submitted ord n seq own opp fs blocked left own' ?opp'"
    unfolding submitted_def using qty good opp_ok quiet by blast
  with own' show ?thesis using prepareSubmit_plan [OF pl, of n] by blast
qed

end

section \<open>Every operation keeps the book invariant\<close>

lemma book_side_set [simp]:
  "book_side s (set_side s sd bk) = sd"
  "book_side s (set_side (opposite s) sd bk) = book_side s bk"
  "book_side (opposite s) (set_side s sd bk) = book_side (opposite s) bk"
  "bk_nextNode (set_side s sd bk) = bk_nextNode bk"
  "bk_nextSequence (set_side s sd bk) = bk_nextSequence bk"
  "book_side s (bk\<lparr>bk_nextSequence := q\<rparr>) = book_side s bk"
  "book_side s (bk\<lparr>bk_nextNode := n\<rparr>) = book_side s bk"
  by (cases s; simp)+

text \<open>The invariant seen from one side.\<close>

lemma book_ok_sided:
  "book_ok bk \<longleftrightarrow> side_ok s (book_side s bk) \<and> side_ok (opposite s) (book_side (opposite s) bk) \<and>
     side_ids (book_side s bk) \<inter> side_ids (book_side (opposite s) bk) = {} \<and>
     (\<forall>n \<in> side_nodes (book_side s bk) \<union> side_nodes (book_side (opposite s) bk). n < bk_nextNode bk) \<and>
     (\<forall>p \<in> side_prices (book_side s bk). \<forall>q \<in> side_prices (book_side (opposite s) bk).
        ordering_of (opposite s) p q)"
  by (cases s) (auto simp: book_ok_def uncrossed_def AskOrdering_def BidOrdering_def)

lemma bestPrice_in: "bestPrice sd = Some p \<Longrightarrow> p \<in> side_prices sd"
  by (auto simp: bestPrice_def side_prices_def split: list.splits)

lemma uncrossed_not_isCrossed: "uncrossed bk \<Longrightarrow> \<not> isCrossed bk"
  by (auto simp: isCrossed_def uncrossed_def not_le split: option.splits dest!: bestPrice_in)

lemma uncrossed_sided:
  "uncrossed bk \<longleftrightarrow> (\<forall>p \<in> side_prices (book_side s bk). \<forall>q \<in> side_prices (book_side (opposite s) bk).
        ordering_of (opposite s) p q)"
  by (cases s) (auto simp: uncrossed_def AskOrdering_def BidOrdering_def)

lemma set_queue_in [simp]: "set (queue_in cmp p ord os) = insert ord (set os)"
proof -
  have "set (takeWhile (ahead cmp p) os) \<union> set (dropWhile (ahead cmp p) os) = set os"
    by (metis set_append takeWhile_dropWhile_id)
  then show ?thesis by (simp add: queue_in_def)
qed

text \<open>The book after a commit, from its two new sides.\<close>

definition with_sides :: "Side \<Rightarrow> order_book \<Rightarrow> order_book \<Rightarrow> Book \<Rightarrow> Book" where
  "with_sides s own opp bk = (set_side s own (set_side (opposite s) opp bk))
     \<lparr>bk_nextSequence := bk_nextSequence bk + 1, bk_nextNode := bk_nextNode bk + 1\<rparr>"

lemma with_sides_simps [simp]:
  "book_side s (with_sides s own opp bk) = own"
  "book_side (opposite s) (with_sides s own opp bk) = opp"
  "bk_nextNode (with_sides s own opp bk) = bk_nextNode bk + 1"
  "bk_nextSequence (with_sides s own opp bk) = bk_nextSequence bk + 1"
  by (cases s; simp add: with_sides_def)+

lemma submitted_uncrossed:
  assumes r: "submitted ord n seq own opp fs blocked left own' opp'"
    and u: "\<forall>p \<in> side_prices own. \<forall>q \<in> side_prices opp. ordering_of (opposite (order_side ord)) p q"
  shows "uncrossed (with_sides (order_side ord) own' opp' bk)"
proof -
  have "\<forall>p \<in> side_prices own'. \<forall>q \<in> side_prices opp'. ordering_of (opposite (order_side ord)) p q"
  proof (cases "rests ord blocked left")
    case True
    then obtain p where p: "restingPrice ord = Some p" by (auto simp: rests_def)
    have "side_prices own' = insert p (side_prices own)" "side_prices opp' \<subseteq> side_prices opp"
      "\<forall>q \<in> side_prices opp'. \<not> crosses ord q"
      using r True p by (simp_all add: submitted_def own_side_after_def)
    moreover from this have "\<forall>q \<in> side_prices opp'. ordering_of (opposite (order_side ord)) p q"
      using not_crosses_iff [OF p] by simp
    ultimately show ?thesis using u by (metis insertE subsetD)
  next
    case False
    then have "own' = own" "side_prices opp' \<subseteq> side_prices opp"
      using r by (simp_all add: submitted_def own_side_after_def)
    then show ?thesis using u by blast
  qed
  then show ?thesis unfolding uncrossed_sided [of _ "order_side ord"] with_sides_simps .
qed

lemma submitted_book_ok:
  assumes r: "submitted ord (bk_nextNode bk) seq own opp fs blocked left own' opp'"
    and own: "side_ok (order_side ord) own" and disj: "side_ids own \<inter> side_ids opp = {}"
    and fresh: "order_id ord \<notin> side_ids own" "order_id ord \<notin> side_ids opp"
    and nodes: "\<forall>n \<in> side_nodes own \<union> side_nodes opp. n < bk_nextNode bk"
    and u: "\<forall>p \<in> side_prices own. \<forall>q \<in> side_prices opp. ordering_of (opposite (order_side ord)) p q"
    and wf: "order_wf ord" and tranche: "rests ord blocked left \<Longrightarrow> remaining ord - left < visibleQty ord"
  shows "book_ok (with_sides (order_side ord) own' opp' bk)"
proof -
  let ?n = "bk_nextNode bk"
  have opp': "side_ok (opposite (order_side ord)) opp'" "side_ids opp' \<subseteq> side_ids opp"
    "side_nodes opp' \<subseteq> side_nodes opp" using r unfolding submitted_def by blast+
  have n: "?n \<notin> side_nodes own" using nodes by (metis UnI1 less_irrefl)
  have own': "side_ok (order_side ord) own' \<and> side_ids own' \<subseteq> insert (order_id ord) (side_ids own) \<and>
      side_nodes own' \<subseteq> insert ?n (side_nodes own)"
  proof (cases "rests ord blocked left")
    case True
    note t = tranche [OF this]
    have "side_ok (order_side ord) own'" "side_nodes own' \<subseteq> insert ?n (side_nodes own)"
      and q: "side_orders own' = queue_in (ordering_of (order_side ord)) (the (restingPrice ord))
        (onPartialFill (remaining ord - left) (assignSequence seq ord)) (side_orders own)"
      using r True t wf fresh(1) n by (simp_all add: submitted_def own_side_after_def)
    then show ?thesis by (simp add: side_ids_orders q)
  next
    case False
    then have "own' = own" using r by (simp add: submitted_def own_side_after_def)
    then show ?thesis using own by blast
  qed
  have u': "\<forall>p \<in> side_prices own'. \<forall>q \<in> side_prices opp'. ordering_of (opposite (order_side ord)) p q"
    using submitted_uncrossed [OF r u] unfolding uncrossed_sided [of _ "order_side ord"] with_sides_simps .
  have disj': "side_ids own' \<inter> side_ids opp' = {}" using own' opp'(2) disj fresh(2) by blast
  have nodes': "\<forall>n \<in> side_nodes own' \<union> side_nodes opp'. n < ?n + 1"
  proof
    fix n assume "n \<in> side_nodes own' \<union> side_nodes opp'"
    then have "n = ?n \<or> n \<in> side_nodes own \<union> side_nodes opp" using own' opp'(3) by blast
    with nodes have "n = ?n \<or> n < ?n" by blast
    then show "n < ?n + 1" by auto
  qed
  show ?thesis
    unfolding book_ok_sided [of _ "order_side ord"] with_sides_simps
    by (intro conjI) (rule conjunct1 [OF own'] opp'(1) disj' nodes' u')+
qed

context matching_strategy
begin

lemma submit_on_spec:
  fixes ord :: order
  assumes ok: "book_ok bk"
  defines "s \<equiv> order_side ord"
  shows "\<exists>fs blocked left own' opp'.
     submit_on plan s ord bk = Some (submit_result ord fs blocked left, with_sides s own' opp' bk) \<and>
     submitted ord (bk_nextNode bk) (bk_nextSequence bk) (book_side s bk) (book_side (opposite s) bk)
       fs blocked left own' opp'"
proof -
  have sides: "side_ok s (book_side s bk)" "side_ok (opposite s) (book_side (opposite s) bk)"
    and u: "\<forall>p \<in> side_prices (book_side s bk). \<forall>q \<in> side_prices (book_side (opposite s) bk).
        ordering_of (opposite s) p q" using ok by (auto simp: book_ok_sided [of _ s])
  obtain prepared fs blocked left own' opp' where
    p: "prepareSubmit plan (book_side (opposite s) bk) (bk_nextNode bk) ord = Some prepared"
      "commitSubmit (ordering_of s) (book_side s bk) (book_side (opposite s) bk) (bk_nextSequence bk) prepared =
       Some (submit_result ord fs blocked left, own', opp', bk_nextSequence bk + 1)"
    and r: "submitted ord (bk_nextNode bk) (bk_nextSequence bk) (book_side s bk) (book_side (opposite s) bk)
       fs blocked left own' opp'"
    using prepare_commit [OF sides [unfolded s_def]] unfolding s_def by metis
  have "\<not> isCrossed (with_sides s own' opp' bk)"
    using submitted_uncrossed [OF r] u uncrossed_not_isCrossed by (simp add: s_def)
  then have "submit_on plan s ord bk = Some (submit_result ord fs blocked left, with_sides s own' opp' bk)"
    using p by (simp add: submit_on_def with_sides_def Let_def)
  with r show ?thesis by blast
qed

end

section \<open>Lookup, submission and cancellation on the whole book\<close>

definition book_orders :: "Book \<Rightarrow> order list" where
  "book_orders bk = side_orders (bk_bids bk) @ side_orders (bk_asks bk)"

definition book_ids :: "Book \<Rightarrow> OrderId set" where
  "book_ids bk = side_ids (bk_bids bk) \<union> side_ids (bk_asks bk)"

lemma book_ids_sided: "book_ids bk = side_ids (book_side s bk) \<union> side_ids (book_side (opposite s) bk)"
  by (cases s) (auto simp: book_ids_def)

lemma book_ok_shapes: "book_ok bk \<Longrightarrow> side_ok s (book_side s bk) \<and> side_shape s (book_side s bk)"
  by (cases s) (auto simp: book_ok_def side_ok_def)

lemma side_find_None_iff:
  "side_shape s sd \<Longrightarrow> side_find (ordering_of s) oid sd = None \<longleftrightarrow> oid \<notin> side_ids sd"
  by (auto simp: side_find_orders side_ids_orders find_None_iff)

lemma find_append: "List.find P (xs @ ys) = (case List.find P xs of None \<Rightarrow> List.find P ys | Some x \<Rightarrow> Some x)"
  by (induction xs) auto

lemma book_find_orders:
  "book_ok bk \<Longrightarrow> book_find oid bk = List.find (\<lambda>o'. order_id o' = oid) (book_orders bk)"
  using book_ok_shapes [of bk Buy] book_ok_shapes [of bk Sell] side_find_orders [of Buy] side_find_orders [of Sell]
  by (simp add: book_find_def book_orders_def find_append split: option.splits)

lemma book_find_None_iff: "book_ok bk \<Longrightarrow> book_find oid bk = None \<longleftrightarrow> oid \<notin> book_ids bk"
  by (auto simp: book_find_orders find_None_iff book_orders_def book_ids_def side_ids_orders)

lemma validate_cases:
  assumes "book_ok bk"
  shows "validate ord bk = (if remaining ord = 0 then Inl (InvalidOrderError (ZeroQuantity (order_id ord)))
     else if order_id ord \<in> book_ids bk then Inl (InvalidOrderError (DuplicateOrderId (order_id ord)))
     else Inr ())"
  using book_find_None_iff [OF assms, of "order_id ord"] by (simp add: validate_def)

text \<open>
  The one condition the invariant needs of an incoming iceberg: if part of it rests, it executed
  less than its first tranche on the way in. An order that hides nothing always satisfies it.
\<close>

definition tranche_intact :: "order \<Rightarrow> SubmitResult \<Rightarrow> bool" where
  "tranche_intact ord r \<longleftrightarrow> sr_restingQty r = 0 \<or> sr_filledQty r < visibleQty ord"

lemma tranche_intact_result:
  "tranche_intact ord (submit_result ord fs blocked left) \<longleftrightarrow>
     (rests ord blocked left \<longrightarrow> remaining ord - left < visibleQty ord)"
  by (auto simp: tranche_intact_def submit_result_def rests_def)

lemma tranche_intact_plain:
  assumes "\<not> is_iceberg ord" and "left \<le> remaining ord"
  shows "tranche_intact ord (submit_result ord fs blocked left)"
  using assms
  by (auto simp: tranche_intact_result not_iceberg_visible rests_def word_less_nat_alt word_le_nat_alt unat_sub)

context matching_strategy
begin

lemma submit_spec:
  assumes ok: "book_ok bk" and "remaining ord \<noteq> 0" and "order_id ord \<notin> book_ids bk"
  shows "\<exists>fs blocked left own' opp'.
     submit plan (Some ord) bk = Some (Inr (submit_result ord fs blocked left), with_sides (order_side ord) own' opp' bk) \<and>
     submitted ord (bk_nextNode bk) (bk_nextSequence bk) (book_side (order_side ord) bk)
       (book_side (opposite (order_side ord)) bk) fs blocked left own' opp' \<and>
     (order_wf ord \<and> tranche_intact ord (submit_result ord fs blocked left) \<longrightarrow>
        book_ok (with_sides (order_side ord) own' opp' bk))"
proof -
  let ?s = "order_side ord"
  obtain fs blocked left own' opp' where
    sub: "submit_on plan ?s ord bk = Some (submit_result ord fs blocked left, with_sides ?s own' opp' bk)"
    and r: "submitted ord (bk_nextNode bk) (bk_nextSequence bk) (book_side ?s bk) (book_side (opposite ?s) bk)
       fs blocked left own' opp'"
    using submit_on_spec [OF ok, of ord] by blast
  have "submit plan (Some ord) bk = Some (Inr (submit_result ord fs blocked left), with_sides ?s own' opp' bk)"
    using assms sub by (simp add: submit_def validate_cases)
  moreover have "book_ok (with_sides ?s own' opp' bk)"
    if wf: "order_wf ord" "tranche_intact ord (submit_result ord fs blocked left)"
  proof (rule submitted_book_ok [OF r])
    show "order_id ord \<notin> side_ids (book_side ?s bk)" "order_id ord \<notin> side_ids (book_side (opposite ?s) bk)"
      using assms(3) by (auto simp: book_ids_sided [of _ ?s])
  qed (use ok [unfolded book_ok_sided [of _ ?s]] wf tranche_intact_result in blast)+
  ultimately show ?thesis using r by blast
qed

text \<open>No input makes a submission undefined, and a rejected one changes nothing.\<close>

lemma submit_total:
  assumes ok: "book_ok bk"
  shows "\<exists>r bk'. submit plan incoming bk = Some (r, bk') \<and> \<not> isCrossed bk' \<and>
     (case r of
        Inl e \<Rightarrow> bk' = bk
      | Inr result \<Rightarrow> \<exists>ord. incoming = Some ord \<and>
          (order_wf ord \<and> tranche_intact ord result \<longrightarrow> book_ok bk'))"
proof -
  have nc: "\<not> isCrossed bk" using ok uncrossed_not_isCrossed by (simp add: book_ok_def)
  show ?thesis
  proof (cases incoming)
    case None
    then show ?thesis using nc by (simp add: submit_def)
  next
    case (Some ord)
    show ?thesis
    proof (cases "remaining ord \<noteq> 0 \<and> order_id ord \<notin> book_ids bk")
      case True
      then obtain fs blocked left own' opp' where
        s: "submit plan (Some ord) bk = Some (Inr (submit_result ord fs blocked left), with_sides (order_side ord) own' opp' bk)"
        and r: "submitted ord (bk_nextNode bk) (bk_nextSequence bk) (book_side (order_side ord) bk)
          (book_side (opposite (order_side ord)) bk) fs blocked left own' opp'"
        and k: "order_wf ord \<and> tranche_intact ord (submit_result ord fs blocked left) \<longrightarrow>
          book_ok (with_sides (order_side ord) own' opp' bk)"
        using submit_spec [OF ok] by blast
      have "\<not> isCrossed (with_sides (order_side ord) own' opp' bk)"
        using submitted_uncrossed [OF r] ok [unfolded book_ok_sided [of _ "order_side ord"]] uncrossed_not_isCrossed by blast
      then show ?thesis using Some s k by simp
    next
      case False
      then show ?thesis using Some ok nc by (auto simp: submit_def validate_cases)
    qed
  qed
qed

end

lemma book_ok_shrink:
  assumes ok: "book_ok bk" and sd: "side_ok s sd" and ids: "side_ids sd \<subseteq> side_ids (book_side s bk)"
    and prices: "side_prices sd \<subseteq> side_prices (book_side s bk)" and nodes: "side_nodes sd \<subseteq> side_nodes (book_side s bk)"
  shows "book_ok (set_side s sd bk)"
  unfolding book_ok_sided [of _ s] book_side_set
  using assms(2-) ok [unfolded book_ok_sided [of _ s]] by blast

lemma cancel_spec:
  assumes ok: "book_ok bk"
  shows "\<exists>bk'. cancel oid bk = Some (book_find oid bk, bk') \<and> book_ok bk' \<and>
     side_orders (bk_bids bk') = filter (\<lambda>o'. order_id o' \<noteq> oid) (side_orders (bk_bids bk)) \<and>
     side_orders (bk_asks bk') = filter (\<lambda>o'. order_id o' \<noteq> oid) (side_orders (bk_asks bk)) \<and>
     bk_nextSequence bk' = bk_nextSequence bk \<and> bk_nextNode bk' = bk_nextNode bk"
proof -
  have sides: "side_ok Buy (bk_bids bk)" "side_ok Sell (bk_asks bk)" using ok by (auto simp: book_ok_def)
  then have find: "side_find (ordering_of Buy) oid (bk_bids bk) = List.find (\<lambda>o'. order_id o' = oid) (side_orders (bk_bids bk))"
    "side_find (ordering_of Sell) oid (bk_asks bk) = List.find (\<lambda>o'. order_id o' = oid) (side_orders (bk_asks bk))"
    using side_find_orders [of Buy] side_find_orders [of Sell] by (auto simp: side_ok_def)
  obtain bids where b: "side_cancel (ordering_of Buy) oid (bk_bids bk) =
      Some (List.find (\<lambda>o'. order_id o' = oid) (side_orders (bk_bids bk)), bids)" "side_ok Buy bids"
    "side_orders bids = filter (\<lambda>o'. order_id o' \<noteq> oid) (side_orders (bk_bids bk))"
    "side_prices bids \<subseteq> side_prices (bk_bids bk)" "side_nodes bids \<subseteq> side_nodes (bk_bids bk)"
    using side_cancel_spec [OF sides(1)] by blast
  obtain asks where a: "side_cancel (ordering_of Sell) oid (bk_asks bk) =
      Some (List.find (\<lambda>o'. order_id o' = oid) (side_orders (bk_asks bk)), asks)" "side_ok Sell asks"
    "side_orders asks = filter (\<lambda>o'. order_id o' \<noteq> oid) (side_orders (bk_asks bk))"
    "side_prices asks \<subseteq> side_prices (bk_asks bk)" "side_nodes asks \<subseteq> side_nodes (bk_asks bk)"
    using side_cancel_spec [OF sides(2)] by blast
  have bids: "book_ok (bk\<lparr>bk_bids := bids\<rparr>)"
    using book_ok_shrink [of bk Buy bids] ok b by (auto simp: side_ids_orders)
  then have both: "book_ok (bk\<lparr>bk_bids := bids, bk_asks := asks\<rparr>)"
    using book_ok_shrink [of "bk\<lparr>bk_bids := bids\<rparr>" Sell asks] a by (auto simp: side_ids_orders)
  show ?thesis
  proof (cases "List.find (\<lambda>o'. order_id o' = oid) (side_orders (bk_bids bk))")
    case None
    then show ?thesis using a b both find by (simp add: cancel_def book_find_def)
  next
    case (Some ord)
    then have "oid \<in> side_ids (bk_bids bk)" by (auto simp: side_ids_orders find_Some_iff)
    then have "oid \<notin> side_ids (bk_asks bk)" using ok by (auto simp: book_ok_def)
    then have "filter (\<lambda>o'. order_id o' \<noteq> oid) (side_orders (bk_asks bk)) = side_orders (bk_asks bk)"
      by (auto simp: filter_id_conv side_ids_orders)
    then show ?thesis using Some b bids find by (simp add: cancel_def book_find_def)
  qed
qed

section \<open>Modification\<close>

lemma side_orders_resting:
  assumes "side_shape s sd" and "ord \<in> set (side_orders sd)"
  obtains p where "resting_ok s p ord" and "p \<in> side_prices sd"
  using assms by (force simp: side_orders_def level_list_def side_shape_def level_ok_def side_prices_def)

lemma side_find_resting:
  assumes "side_shape s sd" and "side_find (ordering_of s) oid sd = Some ord"
  shows "ord \<in> set (side_orders sd)" and "order_id ord = oid"
  using assms by (auto simp: side_find_orders find_Some_iff)

lemma map_unique:
  "distinct (map f (xs @ x # ys)) \<Longrightarrow>
     map (\<lambda>y. if f y = f x then g y else y) (xs @ x # ys) = xs @ g x # ys"
  by (induction xs) (auto simp: image_iff intro!: map_idI)

lemma set_side_twice [simp]:
  "set_side s a (set_side (opposite s) b (set_side s c bk)) = set_side s a (set_side (opposite s) b bk)"
  by (cases s) auto

text \<open>Shrinking in place rewrites one order and leaves every order, including that one, where it stood.\<close>

lemma reduceInPlace_spec:
  assumes ok: "side_ok s sd" and f: "side_find (ordering_of s) oid sd = Some ord" and q: "0 < q"
  shows "\<exists>sd'. reduceInPlace (ordering_of s) oid q sd = Some sd' \<and> side_ok s sd' \<and>
     side_orders sd' = map (\<lambda>o'. if order_id o' = oid then reduceTo q o' else o') (side_orders sd) \<and>
     side_ids sd' = side_ids sd \<and> side_prices sd' = side_prices sd \<and> side_nodes sd' = side_nodes sd"
proof -
  have shape: "side_shape s sd" using ok by (simp add: side_ok_def)
  obtain loc where loc: "map_of (sb_index sd) oid = Some loc"
    using f by (auto simp: side_find_def split: Option.bind_splits)
  define p w where "p = loc_price loc" and "w = loc_position loc"
  obtain l o1 where l: "map_of (sb_levels sd) p = Some l" and d: "deref w l = Some o1"
    and oid: "order_id o1 = oid" and lok: "level_ok s p l"
    using side_lookupE [OF shape loc] unfolding p_def w_def by metis
  obtain l' where red: "reduceQuantity w q l = Some l'" and l': "level_ok s p l'"
    "pl_orders l' = al_adjust w (reduceTo q) (pl_orders l)" using reduceQuantity_ok [OF lok d q] by blast
  obtain qs rs where qs: "pl_orders l = qs @ (w, o1) # rs" and w: "w \<notin> fst ` set qs" "w \<notin> fst ` set rs"
    by (rule level_ok_split [OF lok d])
  have orders': "pl_orders l' = qs @ (w, reduceTo q o1) # rs" using l'(2) qs w by simp
  obtain xs ys where ls: "sb_levels sd = xs @ (p, l) # ys" and p: "p \<notin> fst ` set xs" "p \<notin> fst ` set ys"
    using shape l by (rule side_shape_splitE)
  let ?sd = "set_level p l' sd"
  have new: "sb_levels ?sd = xs @ (p, l') # ys" using ls p by (simp add: set_level_def)
  have "mset (level_entries p l') = mset (level_entries p l)"
    using orders' qs by (simp add: level_entries_def)
  note sd' = side_shape_rewrite [OF shape l l'(1) this]
  have "reduceInPlace (ordering_of s) oid q sd = Some ?sd"
    using loc l red by (simp add: reduceInPlace_def locate_def p_def w_def)
  moreover have "side_ok s ?sd"
    using sd'(1) ok ls orders' new by (auto simp: side_ok_def level_empty_def)
  moreover have "side_orders ?sd = map (\<lambda>o'. if order_id o' = oid then reduceTo q o' else o') (side_orders sd)"
  proof -
    let ?as = "level_list xs @ map snd qs" and ?bs = "map snd rs @ level_list ys"
    have split: "side_orders sd = ?as @ o1 # ?bs" using ls qs by (simp add: side_orders_def)
    have "map (\<lambda>o'. if order_id o' = oid then reduceTo q o' else o') (?as @ o1 # ?bs) = ?as @ reduceTo q o1 # ?bs"
      using side_shape_distinct_ids [OF shape, unfolded split] unfolding oid [symmetric] by (rule map_unique)
    then show ?thesis unfolding split using new orders' by (simp add: side_orders_def)
  qed
  moreover have "side_prices ?sd = side_prices sd" "side_nodes ?sd = side_nodes sd"
    using new ls qs orders' by (simp_all add: side_prices_def side_nodes_of image_Un)
  ultimately show ?thesis using sd'(2) by blast
qed

lemma cancel_on_side:
  assumes ok: "book_ok bk" and "oid \<in> side_ids (book_side s bk)"
    and "side_cancel (ordering_of s) oid (book_side s bk) = Some (Some ord, own)"
  shows "cancel oid bk = Some (Some ord, set_side s own bk)"
proof (cases s)
  case Buy
  then show ?thesis using assms by (simp add: cancel_def)
next
  case Sell
  have "side_shape Buy (bk_bids bk)" "oid \<notin> side_ids (bk_bids bk)"
    using ok assms(2) Sell by (auto simp: book_ok_def side_ok_def)
  then have "map_of (sb_index (bk_bids bk)) oid = None" using side_shape_index(2) by blast
  then have "side_cancel (ordering_of Buy) oid (bk_bids bk) = Some (None, bk_bids bk)"
    by (simp add: side_cancel_def)
  then show ?thesis using assms(3) Sell by (simp add: cancel_def)
qed

context matching_strategy
begin

text \<open>Requeueing is withdrawing the order and submitting its amended clone.\<close>

lemma requeue_spec:
  assumes ok: "book_ok bk" and f: "side_find (ordering_of s) oid (book_side s bk) = Some resting" and q: "0 < q"
  shows "\<exists>bk1 result bk2. cancel oid bk = Some (Some resting, bk1) \<and> book_ok bk1 \<and>
     submit plan (Some (cloneAmended q p resting)) bk1 = Some (Inr result, bk2) \<and>
     requeue plan s oid q p bk =
       Some (\<lparr>mr_status = Requeued, mr_fills = sr_fills result, mr_restingQty = sr_restingQty result\<rparr>, bk2) \<and>
     (tranche_intact (cloneAmended q p resting) result \<longrightarrow> book_ok bk2)"
proof -
  let ?new = "cloneAmended q p resting"
  have sok: "side_ok s (book_side s bk)" and shape: "side_shape s (book_side s bk)"
    using book_ok_shapes [OF ok] by auto
  note r = side_find_resting [OF shape f]
  have oid: "oid \<in> side_ids (book_side s bk)" using r by (auto simp: side_ids_orders)
  have side: "order_side ?new = s"
    by (rule side_orders_resting [OF shape r(1)]) (simp add: resting_ok_def)
  obtain own where own: "side_cancel (ordering_of s) oid (book_side s bk) = Some (Some resting, own)"
    "side_orders own = filter (\<lambda>o'. order_id o' \<noteq> oid) (side_orders (book_side s bk))"
    using side_cancel_spec [OF sok, of oid] f side_find_orders [OF shape] by auto
  let ?bk1 = "set_side s own bk"
  have cancel: "cancel oid bk = Some (Some resting, ?bk1)" by (rule cancel_on_side [OF ok oid own(1)])
  then have bk1: "book_ok ?bk1" using cancel_spec [OF ok, of oid] by auto
  have "oid \<notin> side_ids own" "oid \<notin> side_ids (book_side (opposite s) bk)"
    using own(2) oid ok by (auto simp: side_ids_orders [of own] book_ok_sided [of _ s])
  then have fresh: "order_id ?new \<notin> book_ids ?bk1" using r(2) by (simp add: book_ids_sided [of _ s])
  have rem: "remaining ?new \<noteq> 0" using q by auto
  obtain result bk2 where sub: "submit plan (Some ?new) ?bk1 = Some (Inr result, bk2)"
    and on: "submit_on plan s ?new ?bk1 = Some (result, bk2)"
    and k: "order_wf ?new \<and> tranche_intact ?new result \<longrightarrow> book_ok bk2"
    using submit_spec [OF bk1 rem fresh] rem fresh side
    by (auto simp: submit_def validate_cases [OF bk1] split: Option.bind_splits)
  have "requeue plan s oid q p bk =
      Some (\<lparr>mr_status = Requeued, mr_fills = sr_fills result, mr_restingQty = sr_restingQty result\<rparr>, bk2)"
    using on f own(1)
    by (auto simp: requeue_def submit_on_def Let_def new_ModifyResult_def set_side_twice
        split: Option.bind_splits if_splits)
  then show ?thesis using cancel bk1 sub k cloneAmended_wf [OF q] by blast
qed

end

end
