(* ===== verification/Book_Spec.thy ===== *)
theory Book_Spec
  imports Book
begin

text \<open>
  The specification of matching: the textbook price-time algorithm on plain lists of orders, and
  the proof that the plan-then-commit implementation of \<^verbatim>\<open>core/book.cpp\<close> and
  \<^verbatim>\<open>core/price_time_strategy.cpp\<close> refines it, with \<^const>\<open>side_orders\<close> as the abstraction function.
\<close>

section \<open>The textbook algorithm\<close>

text \<open>
  A side of the market is one list of orders in priority order. An incoming order executes
  against the head of the opposite list while the head is eligible and not its own; a spent
  iceberg tranche is refreshed and goes behind every order at the same price; what is left of a
  priced order joins the own list behind its price. No levels, index, iterators, aggregates,
  plans or nodes.
\<close>

function match_orders ::
  "ordering \<Rightarrow> order \<Rightarrow> Quantity \<Rightarrow> order list \<Rightarrow> (order \<times> Quantity) list \<times> order list \<times> Quantity \<times> bool" where
  "match_orders cmp agg a os =
     (if \<not> 0 < a then ([], os, a, False)
      else case os of
        [] \<Rightarrow> ([], [], a, False)
      | resting # rest \<Rightarrow>
          (case restingPrice resting of
             None \<Rightarrow> ([], os, a, False)
           | Some p \<Rightarrow>
               if \<not> crosses agg p then ([], os, a, False)
               else if order_account resting = order_account agg then ([], os, a, True)
               else
                 let qty = min a (visibleQty resting) in
                 if \<not> 0 < qty then ([], os, a, False)
                 else
                   let hit = onPartialFill qty resting;
                       left = a - qty;
                       (es, os', a', blocked) = match_orders cmp agg left
                         (if isFilled hit then rest
                          else if needsReplenish hit then queue_in cmp p (replenish hit) rest
                          else hit # rest)
                   in ((resting, qty) # es, os', a', blocked)))"
  by pat_completeness auto
termination
  by (relation "measure (\<lambda>(cmp, agg, a, os). unat a)")
     (simp, simp (no_asm) only: in_measure prod.case, rule unat_minus_min_less, assumption+)

declare match_orders.simps [simp del]

definition execution_fill :: "order \<Rightarrow> order \<times> Quantity \<Rightarrow> Fill" where
  "execution_fill agg e = (case e of (resting, qty) \<Rightarrow>
     \<lparr>fl_aggressorId = order_id agg, fl_restingId = order_id resting,
      fl_price = the (restingPrice resting), fl_quantity = qty,
      fl_aggressorAccount = order_account agg, fl_restingAccount = order_account resting,
      fl_aggressorSide = order_side agg\<rparr>)"

definition spec_submit :: "order \<Rightarrow> Sequence \<Rightarrow> order list \<Rightarrow> order list \<Rightarrow> SubmitResult \<times> order list \<times> order list" where
  "spec_submit ord seq own opp =
     (let s = order_side ord;
          (es, opp', left, blocked) = match_orders (ordering_of (opposite s)) ord (remaining ord) opp;
          filled = remaining ord - left
      in case restingPrice ord of
           Some p \<Rightarrow>
             if 0 < left \<and> \<not> blocked then
               (\<lparr>sr_status = (if es = [] then Resting else PartiallyFilledResting),
                 sr_fills = map (execution_fill ord) es, sr_filledQty = filled, sr_restingQty = left\<rparr>,
                queue_in (ordering_of s) p (onPartialFill filled (assignSequence seq ord)) own, opp')
             else
               (\<lparr>sr_status = (if left = 0 then Filled else SelfMatchBlocked),
                 sr_fills = map (execution_fill ord) es, sr_filledQty = filled, sr_restingQty = 0\<rparr>, own, opp')
         | None \<Rightarrow>
             (\<lparr>sr_status = (if left = 0 then Filled else if blocked then SelfMatchBlocked else CancelledRemainder),
               sr_fills = map (execution_fill ord) es, sr_filledQty = filled, sr_restingQty = 0\<rparr>, own, opp'))"

section \<open>A sweep of one level is the textbook algorithm on its orders\<close>

definition swept :: "(node \<times> order \<times> Quantity) list \<Rightarrow> (order \<times> Quantity) list" where
  "swept sw = map (\<lambda>(n, ord, qty). (ord, qty)) sw"

definition swept_qty :: "(node \<times> order \<times> Quantity) list \<Rightarrow> Quantity" where
  "swept_qty sw = (\<Sum>(n, ord, qty) \<leftarrow> sw. qty)"

lemma swept_simps [simp]:
  "swept [] = []" "swept ((n, ord, qty) # sw) = (ord, qty) # swept sw"
  "swept_qty [] = 0" "swept_qty ((n, ord, qty) # sw) = qty + swept_qty sw"
  by (simp_all add: swept_def swept_qty_def)

lemma fill_queue_head:
  assumes "n \<notin> fst ` set rest"
  shows "fill_queue n qty ord ((n, ord) # rest) =
     (let hit = onPartialFill qty ord
      in if isFilled hit then rest else if needsReplenish hit then rest @ [(n, replenish hit)]
         else (n, hit) # rest)"
  using assms by (simp add: fill_queue_def Let_def)

lemma queue_in_level:
  assumes "\<And>x. x \<in> set as \<Longrightarrow> restingPrice x = Some p" and "\<And>y. y \<in> set bs \<Longrightarrow> \<not> ahead (ordering_of s) p y"
  shows "queue_in (ordering_of s) p ord (as @ bs) = as @ ord # bs"
  using assms by (intro queue_in_split) (auto simp: ahead_def sided.irrefl)

lemma fill_queue_resting:
  assumes "\<forall>(m, x) \<in> set ((n, ord) # rest). resting_ok s p x" and "qty \<le> visibleQty ord"
    and "n \<notin> fst ` set rest" and "distinct (map fst rest)"
  shows "\<forall>(m, x) \<in> set (fill_queue n qty ord ((n, ord) # rest)). resting_ok s p x"
    and "distinct (map fst (fill_queue n qty ord ((n, ord) # rest)))"
proof -
  have ord: "order_wf ord" "order_side ord = s" "restingPrice ord = Some p"
    using assms(1) by (auto simp: resting_ok_def)
  from ord(1) assms(2) show "\<forall>(m, x) \<in> set (fill_queue n qty ord ((n, ord) # rest)). resting_ok s p x"
    by (cases rule: onPartialFill_cases)
       (use assms(1) ord in \<open>auto simp: fill_queue_head [OF assms(3)] Let_def resting_ok_def\<close>)
  show "distinct (map fst (fill_queue n qty ord ((n, ord) # rest)))"
    using assms(3,4) by (auto simp: fill_queue_head Let_def)
qed

lemma sweep_match:
  assumes "\<forall>(m, x) \<in> set q. resting_ok s p x" and "distinct (map fst q)" and "crosses agg p"
    and "\<And>y. y \<in> set bs \<Longrightarrow> \<not> ahead (ordering_of s) p y"
    and "sweep (order_account agg) a q = (sw, q', blocked)"
  shows "match_orders (ordering_of s) agg a (map snd q @ bs) =
     (if blocked \<or> q' \<noteq> [] then (swept sw, map snd q' @ bs, a - swept_qty sw, blocked)
      else let (es, os', a', b') = match_orders (ordering_of s) agg (a - swept_qty sw) bs
           in (swept sw @ es, os', a', b'))"
  using assms(1,2,5)
proof (induction a arbitrary: q sw rule: measure_induct_rule [of unat])
  case (less a)
  consider (none) "\<not> 0 < a" | (empty) "0 < a" "q = []" | (more) n ord rest where "0 < a" "q = (n, ord) # rest"
    by (cases q) auto
  then show ?case
  proof cases
    case none
    then have "a = 0" by (simp add: word_neq_0_conv [symmetric])
    with less.prems(3) show ?thesis
      by (auto simp: sweep.simps [of _ 0] match_orders.simps [of _ _ 0] Let_def)
  next
    case empty
    with less.prems(3) have "sw = []" "q' = []" "\<not> blocked"
      by (auto simp: sweep.simps [of _ a] split: if_splits)
    with empty show ?thesis by (simp split: prod.splits)
  next
    case more
    have ord: "order_wf ord" "restingPrice ord = Some p" using less.prems(1) more by (auto simp: resting_ok_def)
    show ?thesis
    proof (cases "order_account ord = order_account agg")
      case True
      with less.prems(3) more have "sw = []" "q' = q" "blocked"
        by (auto simp: sweep.simps [of _ a] split: if_splits)
      with True more ord assms(3) show ?thesis by (simp add: match_orders.simps [of _ _ a])
    next
      case False
      define qty where "qty = min a (visibleQty ord)"
      have qty: "0 < qty" "qty \<le> visibleQty ord" "unat (a - qty) < unat a"
        using order_wf_visible [OF ord(1)] more(1) by (auto simp: qty_def word_gr0_unat unat_min)
      have n: "n \<notin> fst ` set rest" "distinct (map fst rest)" using less.prems(2) more(2) by auto
      let ?q = "fill_queue n qty ord ((n, ord) # rest)"
      note inv = fill_queue_resting [OF less.prems(1) [unfolded more(2)] qty(2) n]
      obtain sw1 where sw: "sweep (order_account agg) (a - qty) ?q = (sw1, q', blocked)" "sw = (n, ord, qty) # sw1"
        using less.prems(3) more False qty(1)
        by (subst (asm) sweep.simps) (auto simp: qty_def [symmetric] Let_def split: prod.splits if_splits)
      have rest: "\<And>x. x \<in> set (map snd rest) \<Longrightarrow> restingPrice x = Some p"
        using less.prems(1) more(2) by (auto simp: resting_ok_def)
      have qi: "queue_in (ordering_of s) p x (map snd rest @ bs) = map snd rest @ x # bs" for x
        by (rule queue_in_level) (use rest assms(4) in auto)
      have "map snd ?q @ bs = (if isFilled (onPartialFill qty ord) then map snd rest @ bs
          else if needsReplenish (onPartialFill qty ord)
          then queue_in (ordering_of s) p (replenish (onPartialFill qty ord)) (map snd rest @ bs)
          else onPartialFill qty ord # map snd rest @ bs)"
        by (simp add: fill_queue_head [OF n(1)] Let_def qi)
      then have step: "match_orders (ordering_of s) agg a (map snd q @ bs) =
          (case match_orders (ordering_of s) agg (a - qty) (map snd ?q @ bs) of
             (es, os', a', b') \<Rightarrow> ((ord, qty) # es, os', a', b'))"
        using more False qty(1) ord(2) assms(3)
        by (subst match_orders.simps) (simp add: qty_def [symmetric] Let_def)
      show ?thesis
        unfolding step less.IH [OF qty(3) inv sw(1)] sw(2)
        by (auto simp: Let_def algebra_simps split: prod.splits)
    qed
  qed
qed

section \<open>Plan and commit over the levels\<close>

lemma later_not_ahead:
  assumes "levels_sorted (ordering_of s) ((p, l) # ls)" and "\<forall>(q, k) \<in> set ls. level_ok s q k"
    and "x \<in> set (level_list ls)"
  shows "\<not> ahead (ordering_of s) p x"
proof -
  obtain q where "q \<in> fst ` set ls" "restingPrice x = Some q" using assms(2,3) by (rule level_list_prices)
  then show ?thesis using assms(1) by (auto simp: ahead_def)
qed

lemma match_orders_none: "\<not> 0 < a \<Longrightarrow> match_orders cmp agg a os = ([], os, a, False)"
  by (subst match_orders.simps) simp

lemma match_orders_stop:
  assumes "\<And>x. x \<in> set os \<Longrightarrow> \<exists>p. restingPrice x = Some p \<and> \<not> crosses agg p"
  shows "match_orders cmp agg a os = ([], os, a, False)"
  using assms by (subst match_orders.simps) (force split: list.splits)

lemma map_make_fill_planned:
  assumes "sweep acct a q = (sw, q', blocked)" and "\<forall>(m, x) \<in> set q. resting_ok s p x" and "distinct (map fst q)"
  shows "map (make_fill agg) (map (as_planned p) sw) = map (execution_fill agg) (swept sw)"
  using assms
proof (induction a arbitrary: q sw rule: measure_induct_rule [of unat])
  case (less a)
  show ?case
  proof (cases "\<exists>n ord rest. q = (n, ord) # rest \<and> 0 < a \<and> order_account ord \<noteq> acct")
    case False
    then have "sw = []" using less.prems(1)
      by (cases q) (auto simp: sweep.simps [of _ a] word_neq_0_conv split: if_splits)
    then show ?thesis by simp
  next
    case True
    then obtain n ord rest where q: "q = (n, ord) # rest" "0 < a" "order_account ord \<noteq> acct" by blast
    have ord: "order_wf ord" "restingPrice ord = Some p" using less.prems(2) q by (auto simp: resting_ok_def)
    define qty where "qty = min a (visibleQty ord)"
    have qty: "0 < qty" "qty \<le> visibleQty ord" "unat (a - qty) < unat a"
      using order_wf_visible [OF ord(1)] q(2) by (auto simp: qty_def word_gr0_unat unat_min)
    have n: "n \<notin> fst ` set rest" "distinct (map fst rest)" using less.prems(3) q(1) by auto
    note inv = fill_queue_resting [OF less.prems(2) [unfolded q(1)] qty(2) n]
    obtain sw1 where sw: "sweep acct (a - qty) (fill_queue n qty ord ((n, ord) # rest)) = (sw1, q', blocked)"
      "sw = (n, ord, qty) # sw1"
      using less.prems(1) q qty(1)
      by (subst (asm) sweep.simps) (auto simp: qty_def [symmetric] Let_def split: prod.splits if_splits)
    show ?thesis using less.IH [OF qty(3) sw(1) inv] sw(2) ord(2)
      by (simp add: make_fill_def execution_fill_def)
  qed
qed

text \<open>One level, with the exact plan of the price-time strategy.\<close>

lemma price_time_level:
  assumes shape: "side_shape s opp" and ls: "sb_levels opp = xs @ (p, l) # ls"
  obtains sw blocked l' opp' where
    "sweep (order_account agg) avail (pl_orders l) = (sw, pl_orders l', blocked)"
    and "price_time_plan agg avail l into = Some (extend_plan into (map (as_planned p) sw) blocked)"
    and "planned_qty (map (as_planned p) sw) \<le> unat avail"
    and "\<not> blocked \<Longrightarrow> planned_qty (map (as_planned p) sw) = unat avail \<or> level_empty l'"
    and "\<not> blocked \<Longrightarrow> 0 < avail \<Longrightarrow> \<not> level_empty l \<Longrightarrow> 0 < planned_qty (map (as_planned p) sw)"
    and "map (make_fill agg) (map (as_planned p) sw) = map (execution_fill agg) (swept sw)"
    and "\<And>gs. commit_fills (map (as_planned p) sw @ gs) opp agg' fills =
        commit_fills gs opp' (agg_after (map (as_planned p) sw) agg') (fills @ map (make_fill agg') (map (as_planned p) sw))"
    and "sb_levels opp' = xs @ (p, l') # ls" and "side_shape s opp'" and "level_ok s p l"
proof -
  have d: "p \<notin> fst ` set xs" "p \<notin> fst ` set ls" using side_shape_distinct [OF shape] ls by auto
  have l: "map_of (sb_levels opp) p = Some l" using d ls by simp
  have lok: "level_ok s p l" by (rule side_shape_splitE [OF shape l])
  obtain sw blocked l' where sw: "sweep (order_account agg) avail (pl_orders l) = (sw, pl_orders l', blocked)"
    and plan: "price_time_plan agg avail l into = Some (extend_plan into (map (as_planned p) sw) blocked)"
    and run: "run_fills (map (as_planned p) sw) l = Some l'"
    and fits: "plan_fits agg avail l (map (as_planned p) sw) blocked"
    using price_time_plan_sweep [OF lok] by blast
  let ?fs = "map (as_planned p) sw"
  have v: "fills_valid ?fs l" and at: "\<forall>f \<in> set ?fs. pf_level f = p"
    using fits lok by (auto simp: plan_fits_def level_ok_def)
  obtain opp' where opp': "sb_levels opp' = al_adjust p (\<lambda>_. l') (sb_levels opp)" "side_shape s opp'"
    and c: "commit_fills (?fs @ []) opp agg' fills = commit_fills [] opp' (agg_after ?fs agg') (fills @ map (make_fill agg') ?fs)"
    using commit_level [OF shape l v at run, of "[]" agg' fills] by blast
  have "commit_fills (?fs @ gs) opp agg' fills = commit_fills gs opp' (agg_after ?fs agg') (fills @ map (make_fill agg') ?fs)" for gs
    using commit_fills_append [of ?fs gs opp agg' fills] c by simp
  moreover have "sb_levels opp' = xs @ (p, l') # ls" using opp'(1) ls d by simp
  moreover have "map (make_fill agg) ?fs = map (execution_fill agg) (swept sw)"
    by (rule map_make_fill_planned [OF sw, of s]) (use lok in \<open>auto simp: level_ok_def\<close>)
  moreover have "planned_qty ?fs \<le> unat avail" "\<not> blocked \<Longrightarrow> planned_qty ?fs = unat avail \<or> level_empty l'"
    using fits run by (auto simp: plan_fits_def level_empty_def)
  moreover have "0 < planned_qty ?fs" if "\<not> blocked" "0 < avail" "\<not> level_empty l"
    using price_time.plan_progress [OF lok that(2) _ plan fits that(1)] that(3) by (simp add: level_empty_def)
  ultimately show thesis using that sw plan opp'(2) lok by blast
qed

lemma swept_qty_planned: "(\<Sum>f \<leftarrow> map (as_planned p) sw. pf_quantity f) = swept_qty sw"
  by (induction sw) auto

lemma match_orders_beyond:
  assumes "levels_sorted (ordering_of (opposite (order_side agg))) ((p, l) # ls)"
    and "\<forall>(q, k) \<in> set ((p, l) # ls). level_ok (opposite (order_side agg)) q k" and "\<not> (0 < avail \<and> crosses agg p)"
  shows "match_orders (ordering_of (opposite (order_side agg))) agg avail (level_list ((p, l) # ls)) =
     ([], level_list ((p, l) # ls), avail, False)"
proof (cases "0 < avail")
  case True
  with assms(3) have nc: "\<forall>(q, k) \<in> set ((p, l) # ls). \<not> crosses agg q" using not_crosses_rest [OF assms(1)] by blast
  show ?thesis
  proof (rule match_orders_stop)
    fix x assume "x \<in> set (level_list ((p, l) # ls))"
    with assms(2) obtain q where "q \<in> fst ` set ((p, l) # ls)" "restingPrice x = Some q" by (rule level_list_prices)
    then show "\<exists>q. restingPrice x = Some q \<and> \<not> crosses agg q" using nc by auto
  qed
qed (simp add: match_orders_none)

lemma match_orders_level:
  assumes "levels_sorted (ordering_of s) ((p, l) # ls)" and "\<forall>(q, k) \<in> set ((p, l) # ls). level_ok s q k"
    and "crosses agg p" and "sweep (order_account agg) avail (pl_orders l) = (sw, q', blocked)"
  shows "match_orders (ordering_of s) agg avail (level_list ((p, l) # ls)) =
     (if blocked \<or> q' \<noteq> [] then (swept sw, map snd q' @ level_list ls, avail - swept_qty sw, blocked)
      else let (es, os', a', b') = match_orders (ordering_of s) agg (avail - swept_qty sw) (level_list ls)
           in (swept sw @ es, os', a', b'))"
proof -
  have "\<forall>(m, x) \<in> set (pl_orders l). resting_ok s p x" "distinct (map fst (pl_orders l))"
    using assms(2) by (auto simp: level_ok_def)
  moreover have "\<not> ahead (ordering_of s) p y" if "y \<in> set (level_list ls)" for y
    using later_not_ahead [OF assms(1) _ that] assms(2) by simp
  ultimately show ?thesis unfolding level_list_simps using sweep_match [OF _ _ assms(3) _ assms(4)] by blast
qed

lemma plan_commit_match:
  assumes "side_shape (opposite (order_side agg)) opp" and "sb_levels opp = xs @ ls"
    and "\<forall>(p, l) \<in> set ls. \<not> level_empty l" and "\<not> mp_selfMatchBlocked into"
  shows "\<exists>fs opp' ls' es left blocked.
     match_orders (ordering_of (opposite (order_side agg))) agg avail (level_list ls) =
       (es, level_list ls', left, blocked) \<and>
     plan_levels price_time_plan agg avail ls into = Some (left, extend_plan into fs blocked) \<and>
     commit_fills fs opp agg' fills = Some (opp', agg_after fs agg', fills @ map (make_fill agg') fs) \<and>
     sb_levels opp' = xs @ ls' \<and> map (make_fill agg) fs = map (execution_fill agg) es"
  using assms
proof (induction ls arbitrary: xs opp avail into agg' fills)
  case Nil
  then show ?case
    by (intro exI [of _ "[]"] exI [of _ opp] exI [of _ avail] exI [of _ False])
       (simp add: match_orders.simps [of _ _ avail])
next
  case (Cons e ls)
  let ?cmp = "ordering_of (opposite (order_side agg))"
  obtain p l where e: "e = (p, l)" by (cases e)
  note ls = Cons.prems(2) [unfolded e]
  have sorted: "levels_sorted ?cmp ((p, l) # ls)" and lok: "\<forall>(q, k) \<in> set ((p, l) # ls). level_ok (opposite (order_side agg)) q k"
    using Cons.prems(1) ls by (auto simp: side_shape_def sorted_wrt_append)
  show ?case
  proof (cases "0 < avail \<and> crosses agg p")
    case False
    have "match_orders ?cmp agg avail (level_list (e # ls)) = ([], level_list (e # ls), avail, False)"
      unfolding e by (rule match_orders_beyond [OF sorted lok False])
    moreover have "plan_levels price_time_plan agg avail (e # ls) into = Some (avail, extend_plan into [] False)"
      using False e by auto
    ultimately show ?thesis using Cons.prems(2)
      by (intro exI [of _ "[]"] exI [of _ opp] exI [of _ "e # ls"] exI [of _ avail] exI [of _ False]) simp
  next
    case True
    obtain sw blocked l1 opp1 where sw: "sweep (order_account agg) avail (pl_orders l) = (sw, pl_orders l1, blocked)"
      and plan: "price_time_plan agg avail l into = Some (extend_plan into (map (as_planned p) sw) blocked)"
      and qty: "planned_qty (map (as_planned p) sw) \<le> unat avail"
        "\<not> blocked \<Longrightarrow> planned_qty (map (as_planned p) sw) = unat avail \<or> level_empty l1"
        "\<not> blocked \<Longrightarrow> 0 < avail \<Longrightarrow> \<not> level_empty l \<Longrightarrow> 0 < planned_qty (map (as_planned p) sw)"
      and mk: "map (make_fill agg) (map (as_planned p) sw) = map (execution_fill agg) (swept sw)"
      and commit: "\<And>gs. commit_fills (map (as_planned p) sw @ gs) opp agg' fills =
        commit_fills gs opp1 (agg_after (map (as_planned p) sw) agg') (fills @ map (make_fill agg') (map (as_planned p) sw))"
      and opp1: "sb_levels opp1 = xs @ (p, l1) # ls" "side_shape (opposite (order_side agg)) opp1"
      using price_time_level [OF Cons.prems(1) ls] by metis
    let ?fs = "map (as_planned p) sw"
    define left where "left = avail - swept_qty sw"
    have sum: "(\<Sum>f \<leftarrow> ?fs. pf_quantity f) = swept_qty sw" by (rule swept_qty_planned)
    note words = plan_fits_word [OF qty(1), unfolded sum]
    have m: "match_orders ?cmp agg avail (level_list (e # ls)) =
        (if blocked \<or> pl_orders l1 \<noteq> [] then (swept sw, map snd (pl_orders l1) @ level_list ls, left, blocked)
         else let (es, os', a', b') = match_orders ?cmp agg left (level_list ls) in (swept sw @ es, os', a', b'))"
      unfolding e left_def by (rule match_orders_level [OF sorted lok conjunct2 [OF True] sw])
    have step: "plan_levels price_time_plan agg avail (e # ls) into =
        (if blocked then Some (left, extend_plan into ?fs blocked)
         else if swept_qty sw = 0 then Some (left, extend_plan into ?fs blocked)
         else plan_levels price_time_plan agg left ls (extend_plan into ?fs blocked))"
      using True plan Cons.prems(4) sum unfolding e left_def by (simp add: Let_def)
    show ?thesis
    proof (cases "blocked \<or> pl_orders l1 \<noteq> []")
      case stop: True
      have "left = 0" if "\<not> blocked"
        using qty(2) [OF that] stop that words(2) by (auto simp: left_def level_empty_def unsigned_eq_0_iff)
      then have "plan_levels price_time_plan agg avail (e # ls) into = Some (left, extend_plan into ?fs blocked)"
        using step plan_levels_none by auto
      then show ?thesis using m stop commit [of "[]"] opp1(1) mk
        by (intro exI [of _ ?fs] exI [of _ opp1] exI [of _ "(p, l1) # ls"] exI [of _ "swept sw"] exI [of _ left] exI [of _ blocked]) simp
    next
      case False
      have "swept_qty sw \<noteq> 0" using qty(3) False True Cons.prems(3) e words(1) by auto
      then have step': "plan_levels price_time_plan agg avail (e # ls) into =
          plan_levels price_time_plan agg left ls (extend_plan into ?fs blocked)"
        using step False by simp
      have ne: "\<forall>(p, l) \<in> set ls. \<not> level_empty l" using Cons.prems(3) by simp
      have "\<not> mp_selfMatchBlocked (extend_plan into ?fs blocked)" using Cons.prems(4) False by simp
      moreover have "sb_levels opp1 = (xs @ [(p, l1)]) @ ls" using opp1(1) by simp
      ultimately obtain gs opp' ls' es left' blocked' where
        IH: "match_orders ?cmp agg left (level_list ls) = (es, level_list ls', left', blocked')"
          "plan_levels price_time_plan agg left ls (extend_plan into ?fs blocked) =
            Some (left', extend_plan (extend_plan into ?fs blocked) gs blocked')"
          "commit_fills gs opp1 (agg_after ?fs agg') (fills @ map (make_fill agg') ?fs) =
            Some (opp', agg_after gs (agg_after ?fs agg'),
              (fills @ map (make_fill agg') ?fs) @ map (make_fill (agg_after ?fs agg')) gs)"
          "sb_levels opp' = (xs @ [(p, l1)]) @ ls'" "map (make_fill agg) gs = map (execution_fill agg) es"
        using Cons.IH [OF opp1(2) _ ne] by blast
      show ?thesis using m False IH step' commit [of gs] mk
        by (intro exI [of _ "?fs @ gs"] exI [of _ opp'] exI [of _ "(p, l1) # ls'"] exI [of _ "swept sw @ es"]
            exI [of _ left'] exI [of _ blocked']) simp
    qed
  qed
qed

section \<open>Refinement\<close>

lemma extend_empty_plan_inject:
  "extend_plan empty_plan fs b = extend_plan empty_plan gs c \<longleftrightarrow> fs = gs \<and> b = c"
  by (auto simp: extend_plan_def empty_plan_def)

lemma drop_settled_orders:
  assumes "settled agg blocked left ls (sb_levels opp)"
  shows "side_orders (dropEmptyLevelsFromFront opp) = level_list (sb_levels opp)"
proof -
  obtain es ns where ls: "sb_levels opp = es @ ns" "\<forall>(p, l) \<in> set es. level_empty l" "\<forall>(p, l) \<in> set ns. \<not> level_empty l"
    using assms by (auto simp: settled_def)
  have "dropWhile (\<lambda>(p, l). level_empty l) (es @ ns) = ns"
    by (rule dropWhile_prefix) (use ls(2,3) in auto)
  moreover have "level_list es = []" using ls(2) by (auto simp: level_list_def level_empty_def)
  ultimately show ?thesis using ls(1) by (simp add: side_orders_def dropEmptyLevelsFromFront_def)
qed

lemma price_time_submit_on:
  assumes ok: "book_ok bk"
  shows "\<exists>fs es blocked left own' opp'. let s = order_side ord in
     match_orders (ordering_of (opposite s)) ord (remaining ord) (side_orders (book_side (opposite s) bk)) =
       (es, side_orders opp', left, blocked) \<and>
     map (make_fill ord) fs = map (execution_fill ord) es \<and>
     submit_on price_time_plan s ord bk = Some (submit_result ord fs blocked left, with_sides s own' opp' bk) \<and>
     own_side_after ord (bk_nextNode bk) (bk_nextSequence bk) blocked left (book_side s bk) own'"
proof -
  let ?s = "order_side ord"
  let ?opp = "book_side (opposite ?s) bk" and ?agg = "assignSequence (bk_nextSequence bk) ord"
  have own: "side_ok ?s (book_side ?s bk)" and shape: "side_shape (opposite ?s) ?opp"
    and ne: "\<forall>(p, l) \<in> set (sb_levels ?opp). \<not> level_empty l"
    using ok by (auto simp: book_ok_sided [of _ ?s] side_ok_def)
  have e: "\<not> mp_selfMatchBlocked empty_plan" by (simp add: empty_plan_def)
  obtain fs opp1 es left blocked where
    m: "match_orders (ordering_of (opposite ?s)) ord (remaining ord) (side_orders ?opp) =
       (es, level_list (sb_levels opp1), left, blocked)"
    and pl: "plan_levels price_time_plan ord (remaining ord) (sb_levels ?opp) empty_plan =
       Some (left, extend_plan empty_plan fs blocked)"
    and c: "commit_fills fs ?opp ?agg [] = Some (opp1, agg_after fs ?agg, map (make_fill ord) fs)"
    and mk: "map (make_fill ord) fs = map (execution_fill ord) es"
    using plan_commit_match [OF shape _ ne e, of "[]" "remaining ord" ?agg "[]"]
    by (auto simp: side_orders_def)
  obtain st: "settled ord blocked left (sb_levels ?opp) (sb_levels opp1)"
    and qty: "unat left + planned_qty fs = unat (remaining ord)"
    using price_time.plan_commit [OF shape _ ne e, of "[]" "remaining ord" ?agg "[]"] pl c
    by (auto simp: extend_empty_plan_inject)
  obtain own' where own': "commitSubmit (ordering_of ?s) (book_side ?s bk) ?opp (bk_nextSequence bk)
      (prepared_submit (bk_nextNode bk) ord fs blocked left) =
       Some (submit_result ord fs blocked left, own', dropEmptyLevelsFromFront opp1, bk_nextSequence bk + 1)"
    and after: "own_side_after ord (bk_nextNode bk) (bk_nextSequence bk) blocked left (book_side ?s bk) own'"
    using commitSubmit_plan [OF qty c own, of "bk_nextNode bk" blocked] by blast
  have "submit_on price_time_plan ?s ord bk =
      Some (submit_result ord fs blocked left, with_sides ?s own' (dropEmptyLevelsFromFront opp1) bk)"
    using price_time.submit_on_spec [OF ok, of ord] own' prepareSubmit_plan [OF pl, of "bk_nextNode bk"]
    by (auto simp: submit_on_def Let_def with_sides_def split: if_splits)
  then show ?thesis unfolding Let_def using m mk after drop_settled_orders [OF st] by metis
qed

lemma submit_refines_spec:
  assumes ok: "book_ok bk" and wf: "order_wf ord" and fresh: "order_id ord \<notin> book_ids bk"
  defines "s \<equiv> order_side ord"
  shows "\<exists>r bk'. submit price_time_plan (Some ord) bk = Some (Inr r, bk') \<and>
     (tranche_intact ord r \<longrightarrow>
        (r, side_orders (book_side s bk'), side_orders (book_side (opposite s) bk')) =
        spec_submit ord (bk_nextSequence bk) (side_orders (book_side s bk)) (side_orders (book_side (opposite s) bk)))"
proof -
  obtain fs es blocked left own' opp' where
    m: "match_orders (ordering_of (opposite s)) ord (remaining ord) (side_orders (book_side (opposite s) bk)) =
       (es, side_orders opp', left, blocked)"
    and mk: "map (make_fill ord) fs = map (execution_fill ord) es"
    and sub: "submit_on price_time_plan s ord bk = Some (submit_result ord fs blocked left, with_sides s own' opp' bk)"
    and after: "own_side_after ord (bk_nextNode bk) (bk_nextSequence bk) blocked left (book_side s bk) own'"
    using price_time_submit_on [OF ok, of ord] unfolding s_def Let_def by blast
  have rem: "remaining ord \<noteq> 0" using order_wf_remaining [OF wf] by auto
  have "submit price_time_plan (Some ord) bk = Some (Inr (submit_result ord fs blocked left), with_sides s own' opp' bk)"
    using sub rem fresh by (simp add: submit_def validate_cases [OF ok] s_def)
  moreover have "(submit_result ord fs blocked left, side_orders own', side_orders opp') =
      spec_submit ord (bk_nextSequence bk) (side_orders (book_side s bk)) (side_orders (book_side (opposite s) bk))"
    if t: "tranche_intact ord (submit_result ord fs blocked left)"
  proof -
    have fr: "order_id ord \<notin> side_ids (book_side s bk)" "bk_nextNode bk \<notin> side_nodes (book_side s bk)"
      using fresh ok by (auto simp: book_ids_sided [of _ s] book_ok_sided [of _ s])
    have own: "side_orders own' = (if rests ord blocked left then queue_in (ordering_of s) (the (restingPrice ord))
        (onPartialFill (remaining ord - left) (assignSequence (bk_nextSequence bk) ord)) (side_orders (book_side s bk))
        else side_orders (book_side s bk))"
      using after fr wf t by (simp add: own_side_after_def tranche_intact_result s_def)
    have "fs = [] \<longleftrightarrow> es = []" using mk by (metis map_is_Nil_conv)
    then show ?thesis
      unfolding spec_submit_def Let_def s_def [symmetric] m prod.case own
      using mk by (cases "restingPrice ord") (auto simp: rests_def submit_result_def word_gt_0)
  qed
  ultimately show ?thesis by auto
qed

section \<open>What the textbook algorithm guarantees\<close>

text \<open>
  The induction every fact below uses: either the algorithm stops, or it executes against the
  head and goes on with the list that leaves.
\<close>

definition next_list :: "ordering \<Rightarrow> Quantity \<Rightarrow> order \<Rightarrow> order list \<Rightarrow> order list" where
  "next_list cmp qty resting rest =
     (let hit = onPartialFill qty resting
      in if isFilled hit then rest
         else if needsReplenish hit then queue_in cmp (the (restingPrice resting)) (replenish hit) rest
         else hit # rest)"

lemma match_orders_induct [consumes 1, case_names stop step]:
  assumes "match_orders cmp agg a os = (es, os', a', blocked)"
    and stop: "\<And>a os blocked.
      0 < a \<and> \<not> blocked \<longrightarrow> os = [] \<or> restingPrice (hd os) = None \<or>
        \<not> crosses agg (the (restingPrice (hd os))) \<or> visibleQty (hd os) = 0 \<Longrightarrow>
      blocked \<longrightarrow> 0 < a \<and> os \<noteq> [] \<and> order_account (hd os) = order_account agg \<Longrightarrow> P a os [] os a blocked"
    and step: "\<And>a resting rest es os' a' blocked p.
      0 < a \<Longrightarrow> restingPrice resting = Some p \<Longrightarrow> crosses agg p \<Longrightarrow>
      order_account resting \<noteq> order_account agg \<Longrightarrow> 0 < min a (visibleQty resting) \<Longrightarrow>
      match_orders cmp agg (a - min a (visibleQty resting)) (next_list cmp (min a (visibleQty resting)) resting rest) =
        (es, os', a', blocked) \<Longrightarrow>
      P (a - min a (visibleQty resting)) (next_list cmp (min a (visibleQty resting)) resting rest) es os' a' blocked \<Longrightarrow>
      P a (resting # rest) ((resting, min a (visibleQty resting)) # es) os' a' blocked"
  shows "P a os es os' a' blocked"
  using assms(1)
proof (induction a arbitrary: os es rule: measure_induct_rule [of unat])
  case (less a)
  show ?case
  proof (cases "0 < a \<and> (\<exists>resting rest p. os = resting # rest \<and> restingPrice resting = Some p \<and> crosses agg p \<and>
      order_account resting \<noteq> order_account agg \<and> 0 < min a (visibleQty resting))")
    case True
    then obtain resting rest p where c: "0 < a" "os = resting # rest" "restingPrice resting = Some p" "crosses agg p"
      "order_account resting \<noteq> order_account agg" "0 < min a (visibleQty resting)" by blast
    let ?qty = "min a (visibleQty resting)"
    have nl: "next_list cmp ?qty resting rest = (if isFilled (onPartialFill ?qty resting) then rest
        else if needsReplenish (onPartialFill ?qty resting) then queue_in cmp p (replenish (onPartialFill ?qty resting)) rest
        else onPartialFill ?qty resting # rest)" using c(3) by (simp add: next_list_def)
    obtain es1 where es1: "match_orders cmp agg (a - ?qty) (next_list cmp ?qty resting rest) = (es1, os', a', blocked)"
      "es = (resting, ?qty) # es1"
      using less.prems c by (auto simp: match_orders.simps [of _ _ a] nl Let_def split: prod.splits)
    have "unat (a - ?qty) < unat a" using c(6) by (auto simp: word_gr0_unat)
    from step [OF c(1,3-6) es1(1) less.IH [OF this es1(1)]] show ?thesis using c(2) es1(2) by simp
  next
    case False
    then have "es = [] \<and> os' = os \<and> a' = a \<and>
        (0 < a \<and> \<not> blocked \<longrightarrow> os = [] \<or> restingPrice (hd os) = None \<or>
           \<not> crosses agg (the (restingPrice (hd os))) \<or> visibleQty (hd os) = 0) \<and>
        (blocked \<longrightarrow> 0 < a \<and> os \<noteq> [] \<and> order_account (hd os) = order_account agg)"
      using less.prems
      by (auto simp: match_orders.simps [of _ _ a] Let_def word_gt_0 split: if_splits list.splits option.splits)
    then show ?thesis using stop by blast
  qed
qed

lemma set_next_list: "set (next_list cmp qty resting rest) \<subseteq>
    insert (onPartialFill qty resting) (insert (replenish (onPartialFill qty resting)) (set rest))"
  by (auto simp: next_list_def Let_def split: if_splits)

lemma next_list_price:
  "x \<in> set (next_list cmp qty resting rest) \<Longrightarrow> restingPrice x \<in> restingPrice ` set (resting # rest)"
  using set_next_list [of cmp qty resting rest] by fastforce

text \<open>Every execution is positive, eligible and against another account.\<close>

lemma match_orders_executions:
  assumes "match_orders cmp agg a os = (es, os', a', blocked)"
  shows "\<forall>(x, q) \<in> set es. 0 < q \<and> order_account x \<noteq> order_account agg \<and>
     (\<exists>p. restingPrice x = Some p \<and> crosses agg p)"
  using assms by (induction rule: match_orders_induct) auto

lemma match_orders_prices:
  assumes "match_orders cmp agg a os = (es, os', a', blocked)"
  shows "(\<forall>(x, q) \<in> set es. restingPrice x \<in> restingPrice ` set os) \<and>
     (\<forall>x \<in> set os'. restingPrice x \<in> restingPrice ` set os)"
  using assms
proof (induction rule: match_orders_induct)
  case (step a resting rest es os' a' blocked p)
  then show ?case using next_list_price by fastforce
qed auto

text \<open>The aggressor's quantity is split into the executions and what is left.\<close>

lemma match_orders_quantity:
  assumes "match_orders cmp agg a os = (es, os', a', blocked)"
  shows "(\<Sum>(x, q) \<leftarrow> es. unat q) + unat a' = unat a"
  using assms
proof (induction rule: match_orders_induct)
  case (step a resting rest es os' a' blocked p)
  then show ?case by (simp add: unat_min)
qed simp

section \<open>Priority\<close>

definition not_worse :: "ordering \<Rightarrow> order \<Rightarrow> order \<Rightarrow> bool" where
  "not_worse cmp x y \<longleftrightarrow> (\<exists>p q. restingPrice x = Some p \<and> restingPrice y = Some q \<and> \<not> cmp q p)"

definition by_priority :: "ordering \<Rightarrow> order list \<Rightarrow> bool" where
  "by_priority cmp os \<longleftrightarrow> sorted_wrt (not_worse cmp) os"

lemma by_priority_queue_in:
  assumes "by_priority (ordering_of s) os" and "restingPrice ord = Some p"
    and "\<forall>x \<in> set os. restingPrice x \<noteq> None"
  shows "by_priority (ordering_of s) (queue_in (ordering_of s) p ord os)"
proof -
  let ?A = "ahead (ordering_of s) p"
  have split: "sorted_wrt (not_worse (ordering_of s)) (takeWhile ?A os @ dropWhile ?A os)"
    using assms(1) by (simp add: by_priority_def)
  have fr: "not_worse (ordering_of s) x ord" if "x \<in> set (takeWhile ?A os)" for x
    using set_takeWhileD [OF that] assms(2) by (auto simp: not_worse_def ahead_def split: option.splits)
  have bk: "not_worse (ordering_of s) ord y" if y: "y \<in> set (dropWhile ?A os)" for y
  proof -
    have ne: "dropWhile ?A os \<noteq> []" using y by (metis list.set_cases list.distinct(1))
    let ?h = "hd (dropWhile ?A os)"
    have h: "\<not> ?A ?h" "?h \<in> set os" using hd_dropWhile [OF ne] hd_in_set [OF ne] set_dropWhileD by metis+
    then obtain q where q: "restingPrice ?h = Some q" "ordering_of s p q"
      using assms(3) by (auto simp: ahead_def split: option.splits)
    have "y = ?h \<or> not_worse (ordering_of s) ?h y"
      using split y ne by (cases "dropWhile ?A os") (auto simp: sorted_wrt_append)
    then obtain r where r: "restingPrice y = Some r" "r = q \<or> \<not> ordering_of s r q"
      using q(1) by (auto simp: not_worse_def)
    then have "\<not> ordering_of s r p" using q(2) sided.asym sided.trans by blast
    then show ?thesis using assms(2) r(1) by (auto simp: not_worse_def)
  qed
  show ?thesis unfolding by_priority_def queue_in_def
    using iffD1 [OF sorted_wrt_append split] fr bk by (auto simp: sorted_wrt_append)
qed

text \<open>Lists of orders a side can hold: priced, well formed and in priority order.\<close>

definition list_ok :: "Side \<Rightarrow> order list \<Rightarrow> bool" where
  "list_ok s os \<longleftrightarrow> by_priority (ordering_of s) os \<and> (\<forall>x \<in> set os. order_wf x \<and> restingPrice x \<noteq> None)"

lemma list_ok_Cons:
  "list_ok s (x # xs) \<longleftrightarrow> order_wf x \<and> restingPrice x \<noteq> None \<and> list_ok s xs \<and> (\<forall>y \<in> set xs. not_worse (ordering_of s) x y)"
  by (auto simp: list_ok_def by_priority_def)

lemma not_worse_price:
  "restingPrice x = restingPrice x' \<Longrightarrow> not_worse cmp x y = not_worse cmp x' y"
  "restingPrice y = restingPrice y' \<Longrightarrow> not_worse cmp x y = not_worse cmp x y'"
  by (auto simp: not_worse_def)

lemma list_ok_side: "side_shape s sd \<Longrightarrow> list_ok s (side_orders sd)"
proof -
  have "list_ok s (level_list ls)"
    if "levels_sorted (ordering_of s) ls" "\<forall>(p, l) \<in> set ls. level_ok s p l" for ls
    using that
  proof (induction ls)
    case Nil
    then show ?case by (simp add: list_ok_def by_priority_def)
  next
    case (Cons e ls)
    obtain p l where e: "e = (p, l)" by (cases e)
    have l: "\<forall>x \<in> snd ` set (pl_orders l). order_wf x \<and> restingPrice x = Some p"
      using Cons.prems(2) e by (auto simp: level_ok_def resting_ok_def)
    have same: "sorted_wrt (not_worse (ordering_of s)) xs" if "set xs \<subseteq> snd ` set (pl_orders l)" for xs
      using that
    proof (induction xs)
      case (Cons x xs)
      have "not_worse (ordering_of s) x y" if "y \<in> set xs" for y
      proof -
        have "x \<in> snd ` set (pl_orders l)" "y \<in> snd ` set (pl_orders l)" using Cons.prems that by auto
        then have "restingPrice x = Some p" "restingPrice y = Some p" using l by blast+
        then show ?thesis by (simp add: not_worse_def sided.irrefl)
      qed
      with Cons show ?case by simp
    qed simp
    have later: "not_worse (ordering_of s) x y" if "x \<in> snd ` set (pl_orders l)" "y \<in> set (level_list ls)" for x y
    proof -
      have "\<forall>(q, k) \<in> set ls. level_ok s q k" using Cons.prems(2) by simp
      from this that(2) obtain q where "q \<in> fst ` set ls" "restingPrice y = Some q" by (rule level_list_prices)
      moreover from this have "ordering_of s p q" using Cons.prems(1) e by auto
      ultimately show ?thesis using l that(1) sided.asym by (auto simp: not_worse_def)
    qed
    have "list_ok s (level_list ls)" using Cons by simp
    then show ?case using same [of "map snd (pl_orders l)"] later l e
      by (auto simp: list_ok_def by_priority_def sorted_wrt_append)
  qed
  then show "side_shape s sd \<Longrightarrow> list_ok s (side_orders sd)" by (simp add: side_shape_def side_orders_def)
qed

lemma list_ok_next_list:
  assumes "list_ok s (x # xs)" and "q \<le> visibleQty x"
  shows "list_ok s (next_list (ordering_of s) q x xs)"
proof -
  have x: "order_wf x" "list_ok s xs" "\<forall>y \<in> set xs. not_worse (ordering_of s) x y" using assms(1) by (auto simp: list_ok_Cons)
  obtain p where p: "restingPrice x = Some p" using assms(1) by (auto simp: list_ok_Cons)
  have nw: "not_worse (ordering_of s) (onPartialFill q x) y = not_worse (ordering_of s) x y" for y
    by (rule not_worse_price) simp
  from x(1) assms(2) show ?thesis
  proof (cases rule: onPartialFill_cases)
    case filled
    then show ?thesis using x(2) by (simp add: next_list_def)
  next
    case spent
    have "by_priority (ordering_of s) (queue_in (ordering_of s) p (replenish (onPartialFill q x)) xs)"
      by (rule by_priority_queue_in) (use x(2) p in \<open>auto simp: list_ok_def\<close>)
    then show ?thesis using spent x(2) p by (auto simp: next_list_def list_ok_def)
  next
    case open_
    then show ?thesis using x p nw by (simp add: next_list_def list_ok_Cons)
  qed
qed

lemma not_worse_refl: "restingPrice x \<noteq> None \<Longrightarrow> not_worse (ordering_of s) x x"
  by (auto simp: not_worse_def sided.irrefl)

text \<open>Best price first, and never through a better price that is still on the book.\<close>

lemma match_orders_priority:
  assumes "match_orders (ordering_of s) agg a os = (es, os', a', blocked)" and "list_ok s os"
  shows "list_ok s os' \<and> sorted_wrt (\<lambda>e f. not_worse (ordering_of s) (fst e) (fst f)) es \<and>
     (\<forall>(x, q) \<in> set es. \<forall>y \<in> set os'. not_worse (ordering_of s) x y)"
  using assms
proof (induction rule: match_orders_induct)
  case (step a resting rest es os' a' blocked p)
  let ?q = "min a (visibleQty resting)" and ?os = "next_list (ordering_of s) (min a (visibleQty resting)) resting rest"
  have ok: "list_ok s ?os" by (rule list_ok_next_list [OF step.prems min.cobounded2])
  note IH = step.IH [OF ok]
  have head: "not_worse (ordering_of s) resting y" if m: "restingPrice y \<in> restingPrice ` set ?os" for y
  proof -
    obtain w where "w \<in> set ?os" "restingPrice y = restingPrice w" by (rule imageE [OF m]) simp
    then have "restingPrice y \<in> restingPrice ` set (resting # rest)" using next_list_price by metis
    then obtain z where z: "restingPrice y = restingPrice z" "z = resting \<or> z \<in> set rest" by auto
    show ?thesis unfolding not_worse_price(2) [OF z(1)]
      using z(2) step.prems not_worse_refl [of resting s] by (auto simp: list_ok_Cons)
  qed
  note prices = match_orders_prices [OF step.hyps(6)]
  show ?case using IH prices head by (auto simp del: restingPrice.simps)
qed (auto simp: list_ok_def)

text \<open>If quantity is left and nothing blocked the order, no order left on the book is eligible.\<close>

lemma match_orders_exhausts:
  assumes "match_orders (ordering_of (opposite (order_side agg))) agg a os = (es, os', a', blocked)"
    and "list_ok (opposite (order_side agg)) os" and "0 < a'" and "\<not> blocked"
  shows "\<forall>y \<in> set os'. \<not> crosses agg (the (restingPrice y))"
  using assms
proof (induction rule: match_orders_induct)
  case (stop a os blocked)
  show ?case
  proof (cases os)
    case (Cons x xs)
    then have x: "\<not> crosses agg (the (restingPrice x))"
      using stop order_wf_visible [of x] by (auto simp: list_ok_Cons)
    have "\<not> crosses agg (the (restingPrice y))" if y: "y \<in> set xs" for y
    proof -
      obtain p q where "restingPrice x = Some p" "restingPrice y = Some q" "\<not> ordering_of (opposite (order_side agg)) q p"
        using stop(3) Cons y by (auto simp: list_ok_Cons not_worse_def)
      then show ?thesis using x sided.total crosses_mono by (metis option.sel)
    qed
    with x Cons show ?thesis by simp
  qed simp
next
  case (step a resting rest es os' a' blocked p)
  then show ?case using list_ok_next_list [OF step.prems(1) min.cobounded2] by blast
qed

definition total_qty :: "order list \<Rightarrow> nat" where
  "total_qty os = (\<Sum>x \<leftarrow> os. unat (remaining x))"

lemma total_qty_simps [simp]:
  "total_qty [] = 0" "total_qty (x # xs) = unat (remaining x) + total_qty xs"
  "total_qty (xs @ ys) = total_qty xs + total_qty ys"
  by (auto simp: total_qty_def)

lemma total_qty_queue_in [simp]: "total_qty (queue_in cmp p x xs) = unat (remaining x) + total_qty xs"
proof -
  have "total_qty (takeWhile (ahead cmp p) xs) + total_qty (dropWhile (ahead cmp p) xs) = total_qty xs"
    by (metis takeWhile_dropWhile_id total_qty_simps(3))
  then show ?thesis by (simp add: queue_in_def)
qed

lemma next_list_total:
  assumes "order_wf x" and "q \<le> visibleQty x"
  shows "total_qty (next_list cmp q x xs) + unat q = unat (remaining x) + total_qty xs"
proof -
  have "unat q \<le> unat (remaining x)"
    using order_wf_visible [OF assms(1)] assms(2) by (auto simp: word_le_nat_alt)
  then have "unat (remaining x - q) + unat q = unat (remaining x)"
    by (simp add: unat_sub word_le_nat_alt)
  then show ?thesis by (auto simp: next_list_def Let_def isFilled_def)
qed

text \<open>What the executions take from the opposite side is exactly what leaves it.\<close>

lemma match_orders_conserves:
  assumes "match_orders (ordering_of s) agg a os = (es, os', a', blocked)" and "list_ok s os"
  shows "total_qty os' + (\<Sum>(x, q) \<leftarrow> es. unat q) = total_qty os"
  using assms
proof (induction rule: match_orders_induct)
  case (step a resting rest es os' a' blocked p)
  have "order_wf resting" using step.prems by (simp add: list_ok_Cons)
  from next_list_total [OF this min.cobounded2, of "ordering_of s" a rest]
  show ?case using step.IH [OF list_ok_next_list [OF step.prems min.cobounded2]] by simp
qed simp

text \<open>
  Strict priority when nothing on the book is hidden: the executions run down the list from its
  head, each fills its order completely, except possibly the last, which leaves the order at the
  head of the list.
\<close>

lemma match_orders_strict:
  assumes "match_orders cmp agg a os = (es, os', a', blocked)" and "\<forall>x \<in> set os. \<not> is_iceberg x"
  shows "map fst es = take (length es) os \<and>
     (os' = drop (length es) os \<and> (\<forall>(x, q) \<in> set es. q = remaining x) \<or>
      (\<exists>fs x q. es = fs @ [(x, q)] \<and> (\<forall>(y, r) \<in> set fs. r = remaining y) \<and> q < remaining x \<and>
         os' = onPartialFill q x # drop (length es) os))"
  using assms
proof (induction rule: match_orders_induct)
  case (step a resting rest es os' a' blocked p)
  have vis: "visibleQty resting = remaining resting" using step.prems by (simp add: not_iceberg_visible)
  let ?q = "min a (visibleQty resting)"
  show ?case
  proof (cases "?q = remaining resting")
    case True
    then have "next_list cmp ?q resting rest = rest" by (simp add: next_list_def isFilled_def)
    then have IH: "map fst es = take (length es) rest \<and>
       (os' = drop (length es) rest \<and> (\<forall>(x, q) \<in> set es. q = remaining x) \<or>
        (\<exists>fs x q. es = fs @ [(x, q)] \<and> (\<forall>(y, r) \<in> set fs. r = remaining y) \<and> q < remaining x \<and>
           os' = onPartialFill q x # drop (length es) rest))"
      using step.IH step.prems by simp
    then show ?thesis
    proof (elim conjE disjE exE)
      fix fs x q
      assume "map fst es = take (length es) rest" "es = fs @ [(x, q)]" "\<forall>(y, r) \<in> set fs. r = remaining y"
        "q < remaining x" "os' = onPartialFill q x # drop (length es) rest"
      then show ?thesis using True by (intro conjI disjI2 exI [of _ "(resting, ?q) # fs"] exI [of _ x] exI [of _ q]) auto
    qed (use True in auto)
  next
    case False
    then have a: "?q = a" "a < remaining resting" using vis by (auto simp: min_def split: if_splits)
    then have "\<not> isFilled (onPartialFill a resting)" "\<not> needsReplenish (onPartialFill a resting)"
      using vis by (auto simp: isFilled_def needsReplenish_def)
    then have nl: "next_list cmp a resting rest = onPartialFill a resting # rest" by (simp add: next_list_def)
    have "es = [] \<and> os' = onPartialFill a resting # rest"
      using step.hyps(6) unfolding a(1) nl by (simp add: match_orders_none)
    then show ?thesis unfolding a(1) using a(2)
      by (intro conjI disjI2 exI [of _ "[]"] exI [of _ resting] exI [of _ a]) auto
  qed
qed auto

end
