(* ===== verification/Book_Properties.thy ===== *)
theory Book_Properties
  imports Book_Spec
begin

text \<open>
  The correctness properties of the book, over \<^verbatim>\<open>Book::submit\<close>, \<^verbatim>\<open>cancel\<close>, \<^verbatim>\<open>find\<close> and \<^verbatim>\<open>modify\<close> with
  the price-time strategy the engine uses. Each rests on the refinement to the textbook
  algorithm or on the lemmas of the locale \<open>matching_strategy\<close>, interpreted on that strategy.
\<close>

section \<open>From a submission to its match\<close>

lemma submit_matchE:
  assumes ok: "book_ok bk" and sub: "submit price_time_plan (Some ord) bk = Some (Inr r, bk')"
  obtains es left blocked where
    "match_orders (ordering_of (opposite (order_side ord))) ord (remaining ord)
       (side_orders (book_side (opposite (order_side ord)) bk)) =
     (es, side_orders (book_side (opposite (order_side ord)) bk'), left, blocked)"
    and "sr_fills r = map (execution_fill ord) es" and "sr_filledQty r = remaining ord - left"
    and "sr_restingQty r = (if rests ord blocked left then left else 0)"
    and "sr_status r = (if rests ord blocked left then (if es = [] then Resting else PartiallyFilledResting)
      else if left = 0 then Filled else if blocked then SelfMatchBlocked else CancelledRemainder)"
    and "(\<Sum>(x, q) \<leftarrow> es. unat q) = unat (sr_filledQty r)" and "left \<le> remaining ord"
    and "list_ok (opposite (order_side ord)) (side_orders (book_side (opposite (order_side ord)) bk))"
proof -
  let ?s = "order_side ord"
  have v: "validate ord bk = Inr ()" and on: "submit_on price_time_plan ?s ord bk = Some (r, bk')"
    using sub by (auto simp: submit_def split: sum.splits Option.bind_splits)
  obtain fs es blocked left own' opp' where
    m: "match_orders (ordering_of (opposite ?s)) ord (remaining ord) (side_orders (book_side (opposite ?s) bk)) =
       (es, side_orders opp', left, blocked)"
    and mk: "map (make_fill ord) fs = map (execution_fill ord) es"
    and on': "submit_on price_time_plan ?s ord bk = Some (submit_result ord fs blocked left, with_sides ?s own' opp' bk)"
    using price_time_submit_on [OF ok, of ord] unfolding Let_def by blast
  have r: "r = submit_result ord fs blocked left" "bk' = with_sides ?s own' opp' bk" using on on' by auto
  have "fs = [] \<longleftrightarrow> es = []" using mk by (metis map_is_Nil_conv)
  moreover have qty: "(\<Sum>(x, q) \<leftarrow> es. unat q) + unat left = unat (remaining ord)"
    by (rule match_orders_quantity [OF m])
  then have "left \<le> remaining ord" by (simp add: word_le_nat_alt)
  moreover from this qty have "(\<Sum>(x, q) \<leftarrow> es. unat q) = unat (remaining ord - left)"
    by (simp add: unat_sub)
  moreover have "list_ok (opposite ?s) (side_orders (book_side (opposite ?s) bk))"
    using book_ok_shapes [OF ok] by (blast intro: list_ok_side)
  ultimately show thesis using m mk r by (intro that [of es left blocked]) (simp_all add: submit_result_def)
qed

lemma execution_fill_simps [simp]:
  "fl_quantity (execution_fill ord (x, q)) = q" "fl_restingId (execution_fill ord (x, q)) = order_id x"
  "fl_price (execution_fill ord (x, q)) = the (restingPrice x)"
  "fl_restingAccount (execution_fill ord (x, q)) = order_account x"
  "fl_aggressorAccount (execution_fill ord (x, q)) = order_account ord"
  "fl_aggressorId (execution_fill ord (x, q)) = order_id ord"
  "fl_aggressorSide (execution_fill ord (x, q)) = order_side ord"
  by (simp_all add: execution_fill_def)

lemma sum_execution_fill:
  "(\<Sum>f \<leftarrow> map (execution_fill ord) es. unat (fl_quantity f)) = (\<Sum>(x, q) \<leftarrow> es. unat q)"
  by (induction es) auto

section \<open>Example books\<close>

text \<open>Three sells of accounts 7, 8 and 7 at 100, 100 and 101, and a buy of account 9 at 99.\<close>

definition place :: "order \<Rightarrow> Book \<Rightarrow> Book" where
  "place ord bk = snd (the (submit price_time_plan (Some ord) bk))"

definition demo_book :: Book where
  "demo_book = place (new_LimitOrder 4 Buy 9 6 99) (place (new_LimitOrder 3 Sell 7 4 101)
     (place (new_LimitOrder 2 Sell 8 3 100) (place (new_LimitOrder 1 Sell 7 5 100) new_Book)))"

definition demo_buy :: order where
  "demo_buy = new_LimitOrder 5 Buy 10 7 100"

lemma demo_book_ok: "book_ok demo_book"
  by code_simp

section \<open>Properties of submission\<close>





text \<open>
  C7. Quantity is conserved: the fills add up to the reported filled quantity, which is exactly
  what left the opposite side, and an order whose remainder rests rests with all of it.
\<close>

theorem submit_conserves_quantity:
  assumes "book_ok bk" and "submit price_time_plan (Some ord) bk = Some (Inr r, bk')"
  shows "(\<Sum>f \<leftarrow> sr_fills r. unat (fl_quantity f)) = unat (sr_filledQty r) \<and>
     total_qty (side_orders (book_side (opposite (order_side ord)) bk')) + unat (sr_filledQty r) =
       total_qty (side_orders (book_side (opposite (order_side ord)) bk)) \<and>
     unat (sr_filledQty r) \<le> unat (remaining ord) \<and>
     (sr_restingQty r \<noteq> 0 \<longrightarrow> unat (sr_filledQty r) + unat (sr_restingQty r) = unat (remaining ord))"
proof (rule submit_matchE [OF assms])
  fix es left blocked
  assume m: "match_orders (ordering_of (opposite (order_side ord))) ord (remaining ord)
       (side_orders (book_side (opposite (order_side ord)) bk)) =
     (es, side_orders (book_side (opposite (order_side ord)) bk'), left, blocked)"
    and r: "sr_fills r = map (execution_fill ord) es" "sr_filledQty r = remaining ord - left"
      "sr_restingQty r = (if rests ord blocked left then left else 0)"
      "(\<Sum>(x, q) \<leftarrow> es. unat q) = unat (sr_filledQty r)" "left \<le> remaining ord"
    and ok: "list_ok (opposite (order_side ord)) (side_orders (book_side (opposite (order_side ord)) bk))"
  from match_orders_conserves [OF m ok] r show ?thesis
    by (auto simp: sum_execution_fill unat_sub word_le_nat_alt simp del: map_map)
qed

theorem submit_conserves_quantity_witness:
  "\<exists>r bk'. submit price_time_plan (Some demo_buy) demo_book = Some (Inr r, bk') \<and>
     total_qty (side_orders (bk_asks bk')) + unat (sr_filledQty r) = 12 \<and> unat (sr_filledQty r) = 7"
proof -
  have s: "submit price_time_plan (Some demo_buy) demo_book =
      Some (Inr (projr (fst (the (submit price_time_plan (Some demo_buy) demo_book)))), place demo_buy demo_book)"
    and "order_side demo_buy = Buy" "total_qty (side_orders (bk_asks demo_book)) = 12"
    "unat (sr_filledQty (projr (fst (the (submit price_time_plan (Some demo_buy) demo_book))))) = 7"
    by code_simp+
  then show ?thesis using submit_conserves_quantity [OF demo_book_ok s] by fastforce
qed

text \<open>The submission the examples below look at.\<close>

definition demo_result :: SubmitResult where
  "demo_result = projr (fst (the (submit price_time_plan (Some demo_buy) demo_book)))"

lemma demo_submit: "submit price_time_plan (Some demo_buy) demo_book = Some (Inr demo_result, place demo_buy demo_book)"
  by code_simp

lemma demo_fills:
  "order_side demo_buy = Buy" "length (sr_fills demo_result) = 2"
  "map fl_price (sr_fills demo_result) = [100, 100]" "map fl_quantity (sr_fills demo_result) = [5, 2]"
  by code_simp+

lemma demo_plain: "\<forall>x \<in> set (side_orders (bk_asks demo_book)). \<not> is_iceberg x"
  by code_simp

text \<open>
  C8. Every fill is legitimate: positive, at a price the incoming order accepts, never against
  the submitter's own account, and attributed to the incoming order.
\<close>

theorem submit_fills_legitimate:
  assumes "book_ok bk" and "submit price_time_plan (Some ord) bk = Some (Inr r, bk')"
  shows "\<forall>f \<in> set (sr_fills r). 0 < fl_quantity f \<and> crosses ord (fl_price f) \<and>
     fl_restingAccount f \<noteq> order_account ord \<and> fl_aggressorAccount f = order_account ord \<and>
     fl_aggressorId f = order_id ord \<and> fl_aggressorSide f = order_side ord"
proof (rule submit_matchE [OF assms])
  fix es left blocked
  assume m: "match_orders (ordering_of (opposite (order_side ord))) ord (remaining ord)
       (side_orders (book_side (opposite (order_side ord)) bk)) =
     (es, side_orders (book_side (opposite (order_side ord)) bk'), left, blocked)"
    and "sr_fills r = map (execution_fill ord) es"
  with match_orders_executions [OF m] show ?thesis by force
qed

theorem submit_fills_legitimate_witness:
  "sr_fills demo_result \<noteq> [] \<and>
     list_all (\<lambda>f. 0 < fl_quantity f \<and> fl_restingAccount f \<noteq> order_account demo_buy) (sr_fills demo_result)"
  using submit_fills_legitimate [OF demo_book_ok demo_submit] demo_fills by (auto simp: list_all_iff)

text \<open>
  C9. Price priority: fills come best price first, and no order left on the opposite side is
  strictly better than any price that traded.
\<close>

theorem submit_price_priority:
  assumes "book_ok bk" and "submit price_time_plan (Some ord) bk = Some (Inr r, bk')"
  defines "better \<equiv> ordering_of (opposite (order_side ord))"
  shows "sorted_wrt (\<lambda>f g. \<not> better (fl_price g) (fl_price f)) (sr_fills r) \<and>
     (\<forall>f \<in> set (sr_fills r). \<forall>y \<in> set (side_orders (book_side (opposite (order_side ord)) bk')).
        \<forall>p. restingPrice y = Some p \<longrightarrow> \<not> better p (fl_price f))"
proof (rule submit_matchE [OF assms(1,2)])
  fix es left blocked
  assume m: "match_orders (ordering_of (opposite (order_side ord))) ord (remaining ord)
       (side_orders (book_side (opposite (order_side ord)) bk)) =
     (es, side_orders (book_side (opposite (order_side ord)) bk'), left, blocked)"
    and r: "sr_fills r = map (execution_fill ord) es"
    and ok: "list_ok (opposite (order_side ord)) (side_orders (book_side (opposite (order_side ord)) bk))"
  note prio = match_orders_priority [OF m ok, folded better_def]
  have nw: "\<not> better (the (restingPrice y)) (the (restingPrice x))" if "not_worse better x y" for x y
    using that by (auto simp: not_worse_def)
  have "sorted_wrt (\<lambda>e f. \<not> better (the (restingPrice (fst f))) (the (restingPrice (fst e)))) es"
    by (rule sorted_wrt_mono_rel [of es "\<lambda>e f. not_worse better (fst e) (fst f)"]) (use prio nw in auto)
  then have "sorted_wrt (\<lambda>f g. \<not> better (fl_price g) (fl_price f)) (sr_fills r)"
    by (simp add: r sorted_wrt_map execution_fill_def case_prod_unfold)
  moreover have "\<not> better p (fl_price f)"
    if "f \<in> set (sr_fills r)" "y \<in> set (side_orders (book_side (opposite (order_side ord)) bk'))" "restingPrice y = Some p" for f y p
    using that r prio nw by fastforce
  ultimately show ?thesis by blast
qed

theorem submit_price_priority_witness:
  "map fl_price (sr_fills demo_result) = [100, 100] \<and>
     sorted_wrt (\<lambda>f g. \<not> AskOrdering (fl_price g) (fl_price f)) (sr_fills demo_result)"
  using submit_price_priority [OF demo_book_ok demo_submit] demo_fills by simp

text \<open>
  C10. Time priority: when the opposite side shows everything it holds, the fills run down it in
  priority order without skipping anyone; every order hit is filled completely, except possibly
  the last, which keeps the head of the queue.
\<close>

theorem submit_time_priority:
  assumes "book_ok bk" and "submit price_time_plan (Some ord) bk = Some (Inr r, bk')"
    and "\<forall>x \<in> set (side_orders (book_side (opposite (order_side ord)) bk)). \<not> is_iceberg x"
  defines "before \<equiv> side_orders (book_side (opposite (order_side ord)) bk)"
    and "after \<equiv> side_orders (book_side (opposite (order_side ord)) bk')"
    and "n \<equiv> length (sr_fills r)"
  shows "map fl_restingId (sr_fills r) = map order_id (take n before) \<and>
     (after = drop n before \<and> map fl_quantity (sr_fills r) = map remaining (take n before) \<or>
      (\<exists>m q. n = Suc m \<and> m < length before \<and> q < remaining (before ! m) \<and>
         map fl_quantity (sr_fills r) = map remaining (take m before) @ [q] \<and>
         after = onPartialFill q (before ! m) # drop n before))"
proof (rule submit_matchE [OF assms(1,2)])
  fix es left blocked
  assume m: "match_orders (ordering_of (opposite (order_side ord))) ord (remaining ord)
       (side_orders (book_side (opposite (order_side ord)) bk)) =
     (es, side_orders (book_side (opposite (order_side ord)) bk'), left, blocked)"
    and r: "sr_fills r = map (execution_fill ord) es"
  have n: "n = length es" by (simp add: n_def r)
  have ids: "map fl_restingId (sr_fills r) = map order_id (map fst es)" and qs: "map fl_quantity (sr_fills r) = map snd es"
    by (auto simp: r execution_fill_def)
  note strict = match_orders_strict [OF m assms(3), folded before_def after_def n]
  then have fst_es: "map fst es = take n before" by blast
  then have ids': "map fl_restingId (sr_fills r) = map order_id (take n before)" using ids by simp
  from strict show ?thesis
  proof (elim conjE disjE exE)
    assume all: "after = drop n before" "\<forall>(x, q) \<in> set es. q = remaining x"
    then have "map snd es = map remaining (map fst es)" by auto
    then show ?thesis using ids' qs fst_es all(1) by simp
  next
    fix fs x q
    assume last: "es = fs @ [(x, q)]" "\<forall>(y, r) \<in> set fs. r = remaining y" "q < remaining x"
      "after = onPartialFill q x # drop n before"
    have len: "length fs < length before" using fst_es last(1) n by (metis length_append_singleton length_map length_take lessI min_less_iff_conj n)
    then have "map fst fs @ [x] = take (length fs) before @ [before ! length fs]"
      using fst_es last(1) n by (simp add: take_Suc_conv_app_nth)
    then have x: "before ! length fs = x" and f: "map fst fs = take (length fs) before" by auto
    have "map snd fs = map remaining (map fst fs)" using last(2) by auto
    then have "map fl_quantity (sr_fills r) = map remaining (take (length fs) before) @ [q]"
      using qs last(1) f by simp
    then show ?thesis using ids' last len x n
      by (intro conjI disjI2 exI [of _ "length fs"] exI [of _ q]) simp_all
  qed
qed

theorem submit_time_priority_witness:
  "map fl_restingId (sr_fills demo_result) = map order_id (take 2 (side_orders (bk_asks demo_book))) \<and>
     map fl_quantity (sr_fills demo_result) = [5, 2]"
  using submit_time_priority [OF demo_book_ok demo_submit] demo_fills demo_plain by simp

lemma match_orders_blocked:
  assumes "match_orders cmp agg a os = (es, os', a', blocked)" and blocked
  shows "0 < a' \<and> os' \<noteq> [] \<and> order_account (hd os') = order_account agg"
  using assms by (induction rule: match_orders_induct) auto

text \<open>
  The reported status says what happened: an order is reported filled exactly when all of it
  executed, resting exactly when quantity rests, self-match-blocked only with the submitter's own
  order at the head of the opposite side, and a remainder is cancelled only for an order without
  a price; nothing eligible is left behind by a remainder that rests or is cancelled.
\<close>

lemma submit_status_faithful:
  assumes "book_ok bk" and "submit price_time_plan (Some ord) bk = Some (Inr r, bk')"
  defines "after \<equiv> side_orders (book_side (opposite (order_side ord)) bk')"
  shows "(sr_status r = Filled \<longleftrightarrow> sr_filledQty r = remaining ord) \<and>
     (sr_status r = Resting \<longleftrightarrow> sr_restingQty r \<noteq> 0 \<and> sr_fills r = []) \<and>
     (sr_status r = PartiallyFilledResting \<longleftrightarrow> sr_restingQty r \<noteq> 0 \<and> sr_fills r \<noteq> []) \<and>
     (sr_status r = SelfMatchBlocked \<longrightarrow> after \<noteq> [] \<and> order_account (hd after) = order_account ord) \<and>
     (sr_status r = CancelledRemainder \<longrightarrow> restingPrice ord = None) \<and>
     (sr_restingQty r \<noteq> 0 \<or> sr_status r = CancelledRemainder \<longrightarrow>
        (\<forall>y \<in> set after. \<not> crosses ord (the (restingPrice y))))"
proof (rule submit_matchE [OF assms(1,2)])
  fix es left blocked
  assume m: "match_orders (ordering_of (opposite (order_side ord))) ord (remaining ord)
       (side_orders (book_side (opposite (order_side ord)) bk)) =
     (es, side_orders (book_side (opposite (order_side ord)) bk'), left, blocked)"
    and r: "sr_fills r = map (execution_fill ord) es" "sr_filledQty r = remaining ord - left"
      "sr_restingQty r = (if rests ord blocked left then left else 0)"
      "sr_status r = (if rests ord blocked left then (if es = [] then Resting else PartiallyFilledResting)
        else if left = 0 then Filled else if blocked then SelfMatchBlocked else CancelledRemainder)"
      "left \<le> remaining ord"
    and ok: "list_ok (opposite (order_side ord)) (side_orders (book_side (opposite (order_side ord)) bk))"
  have exh: "\<forall>y \<in> set after. \<not> crosses ord (the (restingPrice y))" if "0 < left" "\<not> blocked"
    unfolding after_def by (rule match_orders_exhausts [OF m ok that])
  have blk: "after \<noteq> [] \<and> order_account (hd after) = order_account ord" if blocked
    unfolding after_def using match_orders_blocked [OF m that] by blast
  consider "rests ord blocked left" "0 < left" "\<not> blocked" | "\<not> rests ord blocked left" "left = 0"
    | "\<not> rests ord blocked left" "0 < left" blocked
    | "\<not> rests ord blocked left" "0 < left" "\<not> blocked" "restingPrice ord = None"
    by (auto simp: rests_def word_gt_0)
  then show ?thesis by cases (use r exh blk in \<open>auto split: if_splits\<close>)
qed

section \<open>Properties of lookup and cancellation\<close>

text \<open>
  The index is exact: looking an id up finds the order resting under it, on whichever side,
  and nothing when none does; there is one resting order per id.
\<close>

lemma find_exact:
  assumes "book_ok bk"
  shows "(book_find oid bk = Some ord \<longleftrightarrow> ord \<in> set (book_orders bk) \<and> order_id ord = oid) \<and>
     (book_find oid bk = None \<longleftrightarrow> oid \<notin> order_id ` set (book_orders bk)) \<and>
     distinct (map order_id (book_orders bk))"
proof -
  have d: "distinct (map order_id (book_orders bk))"
    using book_ok_shapes [OF assms, of Buy] book_ok_shapes [OF assms, of Sell] side_shape_distinct_ids [of Buy]
      side_shape_distinct_ids [of Sell] assms by (auto simp: book_orders_def book_ok_def side_ids_orders)
  have "book_find oid bk = Some ord \<longleftrightarrow> ord \<in> set (book_orders bk) \<and> order_id ord = oid"
    using find_unique [OF d, of ord] by (auto simp: book_find_orders [OF assms] find_Some_iff)
  then show ?thesis using d by (auto simp: book_find_orders [OF assms] find_None_iff)
qed

text \<open>
  C21. Cancelling is exact: it always returns, hands back the order resting under the id if there
  is one, removes it and nothing else, keeps everyone else's place, and leaves a sound book.
\<close>

theorem cancel_exact:
  assumes "book_ok bk"
  shows "\<exists>bk'. cancel oid bk = Some (book_find oid bk, bk') \<and> book_ok bk' \<and>
     side_orders (bk_bids bk') = filter (\<lambda>x. order_id x \<noteq> oid) (side_orders (bk_bids bk)) \<and>
     side_orders (bk_asks bk') = filter (\<lambda>x. order_id x \<noteq> oid) (side_orders (bk_asks bk)) \<and>
     book_find oid bk' = None"
proof -
  obtain bk' where c: "cancel oid bk = Some (book_find oid bk, bk')" "book_ok bk'"
    "side_orders (bk_bids bk') = filter (\<lambda>x. order_id x \<noteq> oid) (side_orders (bk_bids bk))"
    "side_orders (bk_asks bk') = filter (\<lambda>x. order_id x \<noteq> oid) (side_orders (bk_asks bk))"
    using cancel_spec [OF assms, of oid] by auto
  then have "book_find oid bk' = None"
    by (auto simp: book_find_None_iff book_ids_def side_ids_orders)
  with c show ?thesis by blast
qed

theorem cancel_exact_witness:
  "\<exists>bk'. cancel 1 demo_book = Some (book_find 1 demo_book, bk') \<and> book_ok bk' \<and>
     map order_id (side_orders (bk_asks bk')) = [2, 3]"
proof -
  have "map order_id (filter (\<lambda>x. order_id x \<noteq> 1) (side_orders (bk_asks demo_book))) = [2, 3]" by code_simp
  then show ?thesis using cancel_exact [OF demo_book_ok, of 1] by force
qed

section \<open>Properties of modification\<close>

lemma modify_side:
  assumes ok: "book_ok bk" and f: "book_find oid bk = Some ord"
  defines "s \<equiv> (if side_find (ordering_of Buy) oid (bk_bids bk) \<noteq> None then Buy else Sell)"
  shows "side_find (ordering_of s) oid (book_side s bk) = Some ord"
    and "oid \<notin> side_ids (book_side (opposite s) bk)"
    and "\<exists>p. restingPrice ord = Some p"
proof -
  show find: "side_find (ordering_of s) oid (book_side s bk) = Some ord"
    using f by (auto simp: book_find_def s_def split: option.splits)
  have shape: "side_shape s (book_side s bk)" using book_ok_shapes [OF ok] by blast
  note r = side_find_resting [OF shape find]
  then have "oid \<in> side_ids (book_side s bk)" by (auto simp: side_ids_orders)
  then show "oid \<notin> side_ids (book_side (opposite s) bk)" using ok by (auto simp: book_ok_sided [of _ s])
  show "\<exists>p. restingPrice ord = Some p"
    by (rule side_orders_resting [OF shape r(1)]) (simp add: resting_ok_def)
qed

lemma modify_found:
  assumes ok: "book_ok bk" and f: "book_find oid bk = Some ord" and p: "restingPrice ord = Some p" and q: "0 < q"
  defines "s \<equiv> (if side_find (ordering_of Buy) oid (bk_bids bk) \<noteq> None then Buy else Sell)"
  shows "modify strat oid q newPrice bk =
     (if (newPrice = None \<or> newPrice = Some p) \<and> q \<le> remaining ord
      then do { sd \<leftarrow> reduceInPlace (ordering_of s) oid q (book_side s bk);
                Some (\<lparr>mr_status = AmendedInPlace, mr_fills = [], mr_restingQty = q\<rparr>, set_side s sd bk) }
      else requeue strat s oid q (case newPrice of None \<Rightarrow> p | Some p' \<Rightarrow> p') bk)"
proof -
  have "q \<noteq> 0" using q by auto
  then show ?thesis
    unfolding modify_def Let_def s_def [symmetric] modify_side(1) [OF ok f, folded s_def] option.case p
    by (auto simp: new_ModifyResult_def not_less split: option.splits)
qed

lemma both_sides: "P s \<Longrightarrow> P (opposite s) \<Longrightarrow> P t"
  by (cases s; cases t) simp_all

text \<open>
  C20. Shrinking an order at its price is done in place: the order keeps its position in the
  queue with the new quantity, every other order is untouched, and the book stays sound.
\<close>

theorem modify_shrinks_in_place:
  assumes ok: "book_ok bk" and f: "book_find oid bk = Some ord" and q: "0 < q" "q \<le> remaining ord"
    and p: "newPrice = None \<or> newPrice = restingPrice ord"
  shows "\<exists>bk'. modify price_time_plan oid q newPrice bk =
       Some (\<lparr>mr_status = AmendedInPlace, mr_fills = [], mr_restingQty = q\<rparr>, bk') \<and> book_ok bk' \<and>
     (\<forall>s. side_orders (book_side s bk') =
        map (\<lambda>x. if order_id x = oid then reduceTo q x else x) (side_orders (book_side s bk)))"
proof -
  define s where "s = (if side_find (ordering_of Buy) oid (bk_bids bk) \<noteq> None then Buy else Sell)"
  note side = modify_side [OF ok f, folded s_def]
  have sok: "side_ok s (book_side s bk)" using book_ok_shapes [OF ok] by blast
  obtain sd where sd: "reduceInPlace (ordering_of s) oid q (book_side s bk) = Some sd" "side_ok s sd"
    "side_orders sd = map (\<lambda>x. if order_id x = oid then reduceTo q x else x) (side_orders (book_side s bk))"
    "side_ids sd = side_ids (book_side s bk)" "side_prices sd = side_prices (book_side s bk)"
    "side_nodes sd = side_nodes (book_side s bk)"
    using reduceInPlace_spec [OF sok side(1) q(1)] by blast
  let ?bk = "set_side s sd bk"
  have "modify price_time_plan oid q newPrice bk =
      Some (\<lparr>mr_status = AmendedInPlace, mr_fills = [], mr_restingQty = q\<rparr>, ?bk)"
    using modify_found [OF ok f _ q(1), of _ price_time_plan newPrice, folded s_def] side(3) sd(1) q(2) p by auto
  moreover have "book_ok ?bk" using sd by (intro book_ok_shrink [OF ok]) simp_all
  moreover have "side_orders (book_side t ?bk) =
      map (\<lambda>x. if order_id x = oid then reduceTo q x else x) (side_orders (book_side t bk))" for t
  proof (rule both_sides [of _ s])
    show "side_orders (book_side (opposite s) ?bk) =
      map (\<lambda>x. if order_id x = oid then reduceTo q x else x) (side_orders (book_side (opposite s) bk))"
      using side(2) by (auto simp: side_ids_orders intro!: map_idI [symmetric])
  qed (use sd(3) in simp)
  ultimately show ?thesis by blast
qed

theorem modify_shrinks_in_place_witness:
  "\<exists>bk'. modify price_time_plan 1 2 None demo_book =
       Some (\<lparr>mr_status = AmendedInPlace, mr_fills = [], mr_restingQty = 2\<rparr>, bk') \<and> book_ok bk' \<and>
     map remaining (side_orders (bk_asks bk')) = [2, 3, 4]"
proof -
  define o1 where "o1 = assignSequence 1 (new_LimitOrder 1 Sell 7 5 100)"
  have f: "book_find 1 demo_book = Some o1" and le: "0 < (2 :: Quantity)" "(2 :: Quantity) \<le> remaining o1"
    unfolding o1_def by code_simp+
  have m: "map remaining (map (\<lambda>x. if order_id x = 1 then reduceTo 2 x else x) (side_orders (book_side Sell demo_book))) = [2, 3, 4]"
    by code_simp
  obtain bk' where bk': "modify price_time_plan 1 2 None demo_book =
       Some (\<lparr>mr_status = AmendedInPlace, mr_fills = [], mr_restingQty = 2\<rparr>, bk')" "book_ok bk'"
    "\<forall>s. side_orders (book_side s bk') =
        map (\<lambda>x. if order_id x = 1 then reduceTo 2 x else x) (side_orders (book_side s demo_book))"
    using modify_shrinks_in_place [OF demo_book_ok f le, of None] by blast
  from bk'(3) m have "map remaining (side_orders (book_side Sell bk')) = [2, 3, 4]" by (simp only:)
  with bk'(1,2) show ?thesis by (intro exI [of _ bk']) simp
qed

text \<open>
  C19. Any other amendment is a withdrawal followed by a submission: when the price moves or the
  size grows, the result and the book are the ones that cancelling the order and submitting its
  amended clone give, so a repriced order trades exactly as a fresh one would.
\<close>

theorem modify_requeues:
  assumes ok: "book_ok bk" and f: "book_find oid bk = Some ord" and q: "0 < q"
    and moves: "remaining ord < q \<or> newPrice \<noteq> None \<and> newPrice \<noteq> restingPrice ord"
  defines "clone \<equiv> cloneAmended q (case newPrice of None \<Rightarrow> the (restingPrice ord) | Some p \<Rightarrow> p) ord"
  shows "\<exists>bk1 r bk2. cancel oid bk = Some (Some ord, bk1) \<and>
     submit price_time_plan (Some clone) bk1 = Some (Inr r, bk2) \<and>
     modify price_time_plan oid q newPrice bk =
       Some (\<lparr>mr_status = Requeued, mr_fills = sr_fills r, mr_restingQty = sr_restingQty r\<rparr>, bk2) \<and>
     (tranche_intact clone r \<longrightarrow> book_ok bk2)"
proof -
  define s where "s = (if side_find (ordering_of Buy) oid (bk_bids bk) \<noteq> None then Buy else Sell)"
  note side = modify_side [OF ok f, folded s_def]
  obtain p where p: "restingPrice ord = Some p" using side(3) by blast
  let ?p = "case newPrice of None \<Rightarrow> p | Some p' \<Rightarrow> p'"
  have "modify price_time_plan oid q newPrice bk = requeue price_time_plan s oid q ?p bk"
    using modify_found [OF ok f p q, of price_time_plan newPrice, folded s_def] p moves by auto
  moreover have "clone = cloneAmended q ?p ord" by (cases newPrice) (simp_all add: clone_def p)
  ultimately show ?thesis using price_time.requeue_spec [OF ok side(1) q, of ?p] by metis
qed

theorem modify_requeues_witness:
  "\<exists>bk1 r bk2. cancel 4 demo_book = Some (book_find 4 demo_book, bk1) \<and>
     modify price_time_plan 4 6 (Some 100) demo_book =
       Some (\<lparr>mr_status = Requeued, mr_fills = sr_fills r, mr_restingQty = sr_restingQty r\<rparr>, bk2) \<and>
     submit price_time_plan (Some (new_LimitOrder 4 Buy 9 6 100)) bk1 = Some (Inr r, bk2)"
proof -
  define o4 where "o4 = assignSequence 4 (new_LimitOrder 4 Buy 9 6 99)"
  have f: "book_find 4 demo_book = Some o4" and "Some 100 \<noteq> restingPrice o4"
    "cloneAmended 6 100 o4 = new_LimitOrder 4 Buy 9 6 100" unfolding o4_def by code_simp+
  then show ?thesis using modify_requeues [OF demo_book_ok f, of 6 "Some 100"] by (auto simp: word_gt_0)
qed

text \<open>
  C22. An amendment to zero is rejected and one of an unknown id is not found; neither touches
  the book, and no amendment of a sound book is undefined or leaves it crossed.
\<close>

theorem modify_total:
  assumes ok: "book_ok bk"
  shows "(q = 0 \<longrightarrow> modify price_time_plan oid q newPrice bk = Some (new_ModifyResult\<lparr>mr_status := Rejected\<rparr>, bk)) \<and>
     (q \<noteq> 0 \<and> book_find oid bk = None \<longrightarrow>
        modify price_time_plan oid q newPrice bk = Some (new_ModifyResult\<lparr>mr_status := NotFound\<rparr>, bk)) \<and>
     (\<exists>r bk'. modify price_time_plan oid q newPrice bk = Some (r, bk') \<and> \<not> isCrossed bk')"
proof -
  have nc: "\<not> isCrossed bk" using ok uncrossed_not_isCrossed by (simp add: book_ok_def)
  have zero: "q = 0 \<Longrightarrow> modify price_time_plan oid q newPrice bk = Some (new_ModifyResult\<lparr>mr_status := Rejected\<rparr>, bk)"
    by (simp add: modify_def)
  have absent: "q \<noteq> 0 \<Longrightarrow> book_find oid bk = None \<Longrightarrow>
      modify price_time_plan oid q newPrice bk = Some (new_ModifyResult\<lparr>mr_status := NotFound\<rparr>, bk)"
    by (auto simp: modify_def book_find_def Let_def split: option.splits)
  have "\<exists>r bk'. modify price_time_plan oid q newPrice bk = Some (r, bk') \<and> \<not> isCrossed bk'"
    if q: "0 < q" and f: "book_find oid bk = Some ord" for ord
  proof -
    define s where "s = (if side_find (ordering_of Buy) oid (bk_bids bk) \<noteq> None then Buy else Sell)"
    note side = modify_side [OF ok f, folded s_def]
    obtain p where p: "restingPrice ord = Some p" using side(3) by blast
    note m = modify_found [OF ok f p q, of price_time_plan newPrice, folded s_def]
    have sok: "side_ok s (book_side s bk)" using book_ok_shapes [OF ok] by blast
    show ?thesis
    proof (cases "(newPrice = None \<or> newPrice = Some p) \<and> q \<le> remaining ord")
      case True
      obtain sd where sd: "reduceInPlace (ordering_of s) oid q (book_side s bk) = Some sd" "side_ok s sd"
        "side_ids sd = side_ids (book_side s bk)" "side_prices sd = side_prices (book_side s bk)"
        "side_nodes sd = side_nodes (book_side s bk)"
        using reduceInPlace_spec [OF sok side(1) q] by blast
      then have "book_ok (set_side s sd bk)" by (intro book_ok_shrink [OF ok]) simp_all
      then have "\<not> isCrossed (set_side s sd bk)" using uncrossed_not_isCrossed by (simp add: book_ok_def)
      then show ?thesis using m True sd(1) by simp
    next
      case False
      define p' where "p' = (case newPrice of None \<Rightarrow> p | Some p' \<Rightarrow> p')"
      obtain bk1 r bk2 where r: "book_ok bk1" "submit price_time_plan (Some (cloneAmended q p' ord)) bk1 = Some (Inr r, bk2)"
        "requeue price_time_plan s oid q p' bk =
          Some (\<lparr>mr_status = Requeued, mr_fills = sr_fills r, mr_restingQty = sr_restingQty r\<rparr>, bk2)"
        using price_time.requeue_spec [OF ok side(1) q, of p'] by blast
      have "\<not> isCrossed bk2"
        using price_time.submit_total [OF r(1), of "Some (cloneAmended q p' ord)"] r(2) by auto
      moreover have "modify price_time_plan oid q newPrice bk = requeue price_time_plan s oid q p' bk"
        using m False by (simp add: p'_def)
      ultimately show ?thesis using r(3) by simp
    qed
  qed
  then have "\<exists>r bk'. modify price_time_plan oid q newPrice bk = Some (r, bk') \<and> \<not> isCrossed bk'"
    using zero absent nc by (cases "q = 0"; cases "book_find oid bk") (auto simp: word_gt_0)
  with zero absent show ?thesis by blast
qed

theorem modify_total_witness:
  "modify price_time_plan 1 0 (Some 100) demo_book = Some (new_ModifyResult\<lparr>mr_status := Rejected\<rparr>, demo_book) \<and>
   modify price_time_plan 99 1 None demo_book = Some (new_ModifyResult\<lparr>mr_status := NotFound\<rparr>, demo_book)"
proof -
  have "book_find 99 demo_book = None" by code_simp
  then show ?thesis
    using modify_total [OF demo_book_ok, of 0 1 "Some 100"] modify_total [OF demo_book_ok, of 1 99 None] by simp
qed

section \<open>Properties of the cached aggregates\<close>

lemma queue_total_orders: "queue_total q = (\<Sum>x \<leftarrow> map snd q. remaining x)"
  by (induction q) auto

lemma queue_visible_orders: "queue_visible q = (\<Sum>x \<leftarrow> map snd q. visibleQty x)"
  by (induction q) auto

lemma level_list_at_price:
  assumes "\<forall>(q, k) \<in> set ls. level_ok s q k" and "distinct (map fst ls)"
  shows "filter (\<lambda>x. restingPrice x = Some p) (level_list ls) =
     (case map_of ls p of None \<Rightarrow> [] | Some l \<Rightarrow> map snd (pl_orders l))"
  using assms
proof (induction ls)
  case (Cons e ls)
  obtain q l where e: "e = (q, l)" by (cases e)
  have l: "\<forall>x \<in> set (map snd (pl_orders l)). restingPrice x = Some q"
    using Cons.prems(1) e by (auto simp: level_ok_def resting_ok_def)
  have head: "filter (\<lambda>x. restingPrice x = Some p) (map snd (pl_orders l)) = (if q = p then map snd (pl_orders l) else [])"
    using l by (auto simp: filter_id_conv filter_empty_conv simp del: set_map)
  show ?case
  proof (cases "q = p")
    case True
    then have "map_of ls p = None" using Cons.prems(2) e by (simp add: map_of_eq_None_iff)
    then show ?thesis using Cons e head True by simp
  next
    case False
    then show ?thesis using Cons e head by simp
  qed
qed simp

text \<open>
  The depth a side reports is the depth it holds: the cached total and visible quantity of
  a price level are the sums over the orders resting at that price, modulo \<open>2^64\<close>, every level
  that exists holds an order, and the best price is the price of the order with priority.
\<close>

lemma depth_exact:
  fixes s :: Side
  assumes "book_ok bk"
  defines "at p \<equiv> filter (\<lambda>x. restingPrice x = Some p) (side_orders (book_side s bk))"
  shows "qtyAt (ordering_of s) p (book_side s bk) = (\<Sum>x \<leftarrow> at p. remaining x) \<and>
     (case levelAt (ordering_of s) p (book_side s bk) of
        None \<Rightarrow> at p = []
      | Some l \<Rightarrow> at p \<noteq> [] \<and> pl_visibleQty l = (\<Sum>x \<leftarrow> at p. visibleQty x) \<and> level_orderCount l = length (at p)) \<and>
     bestPrice (book_side s bk) =
       (case side_orders (book_side s bk) of [] \<Rightarrow> None | x # xs \<Rightarrow> restingPrice x)"
proof -
  let ?sd = "book_side s bk"
  have ok: "side_ok s ?sd" and shape: "side_shape s ?sd" using book_ok_shapes [OF assms(1)] by auto
  have levels: "\<forall>(q, k) \<in> set (sb_levels ?sd). level_ok s q k" "\<forall>(q, k) \<in> set (sb_levels ?sd). \<not> level_empty k"
    using ok by (auto simp: side_ok_def side_shape_def)
  have at: "at p = (case map_of (sb_levels ?sd) p of None \<Rightarrow> [] | Some l \<Rightarrow> map snd (pl_orders l))"
    unfolding at_def side_orders_def by (rule level_list_at_price [OF levels(1) side_shape_distinct [OF shape]])
  have agg: "pl_totalQty l = (\<Sum>x \<leftarrow> map snd (pl_orders l). remaining x)"
    "pl_visibleQty l = (\<Sum>x \<leftarrow> map snd (pl_orders l). visibleQty x)" "pl_orders l \<noteq> []"
    if "map_of (sb_levels ?sd) p = Some l" for l
    using that levels map_of_SomeD [OF that]
    by (auto simp: level_ok_def aggregates_ok_def level_empty_def queue_total_orders queue_visible_orders)
  have "bestPrice ?sd = (case side_orders ?sd of [] \<Rightarrow> None | x # xs \<Rightarrow> restingPrice x)"
  proof (cases "sb_levels ?sd")
    case (Cons e ls)
    obtain q l where e: "e = (q, l)" by (cases e)
    then obtain n x xs where "pl_orders l = (n, x) # xs" "restingPrice x = Some q"
      using levels Cons by (cases "pl_orders l") (auto simp: level_empty_def level_ok_def resting_ok_def)
    then show ?thesis using Cons e by (simp add: bestPrice_def side_orders_def)
  qed (simp add: bestPrice_def side_orders_def)
  then show ?thesis using at agg
    by (simp add: qtyAt_def levelAt_def level_orderCount_def split: option.split)
qed

section \<open>Icebergs on the way in\<close>


end
