(* ===== verification/Commands.thy ===== *)
theory Commands
  imports Book_Properties
begin

text \<open>
  Commands and how a book executes them (\<^verbatim>\<open>core/command.hpp\<close>, \<^verbatim>\<open>core/apply.hpp\<close>,
  \<^verbatim>\<open>core/apply.cpp\<close>). The engine thread and recovery both run commands through
  \<^verbatim>\<open>applyCommand\<close>; the lemmas below show that a book driven by any sequence of commands that
  submits no iceberg order stays sound, whatever the commands are.
\<close>

section \<open>Model\<close>

datatype Command =
    SubmitCommand "order option"  \<comment> \<open>a \<^verbatim>\<open>unique_ptr\<close>, possibly null\<close>
  | CancelCommand OrderId
  | ModifyCommand OrderId Quantity "Price option"

record ApplyOutcome =
  ao_fills :: "Fill list"
  ao_accepted :: bool
  ao_restingQty :: Quantity

definition new_ApplyOutcome :: ApplyOutcome where
  "new_ApplyOutcome = \<lparr>ao_fills = [], ao_accepted = False, ao_restingQty = 0\<rparr>"

fun applyCommand :: "strategy \<Rightarrow> Command \<Rightarrow> Book \<Rightarrow> (ApplyOutcome result \<times> Book) option" where
  "applyCommand strategy (SubmitCommand ord) bk = do {
     (r, bk') \<leftarrow> submit strategy ord bk;
     Some (case r of
             Inl e \<Rightarrow> Inl e
           | Inr result \<Rightarrow> Inr \<lparr>ao_fills = sr_fills result, ao_accepted = True,
                               ao_restingQty = sr_restingQty result\<rparr>, bk')
   }"
| "applyCommand strategy (CancelCommand oid) bk = do {
     (removed, bk') \<leftarrow> cancel oid bk;
     Some (Inr (new_ApplyOutcome\<lparr>ao_accepted := removed \<noteq> None\<rparr>), bk')
   }"
| "applyCommand strategy (ModifyCommand oid qty price) bk = do {
     (result, bk') \<leftarrow> modify strategy oid qty price bk;
     Some (Inr \<lparr>ao_fills = mr_fills result,
                ao_accepted = (mr_status result \<noteq> NotFound \<and> mr_status result \<noteq> Rejected),
                ao_restingQty = mr_restingQty result\<rparr>, bk')
   }"

text \<open>
  The serial drain of a sequence of commands, as the engine thread and recovery both perform it:
  an exception rejects the command and the loop goes on.
\<close>

fun apply_all :: "strategy \<Rightarrow> Command list \<Rightarrow> Book \<Rightarrow> (ApplyOutcome result list \<times> Book) option" where
  "apply_all strategy [] bk = Some ([], bk)"
| "apply_all strategy (c # cs) bk = do {
     (r, bk1) \<leftarrow> applyCommand strategy c bk;
     (rs, bk2) \<leftarrow> apply_all strategy cs bk1;
     Some (r # rs, bk2)
   }"

lemma apply_all_append:
  "apply_all strategy (cs @ ds) bk = do {
     (rs, bk1) \<leftarrow> apply_all strategy cs bk;
     (qs, bk2) \<leftarrow> apply_all strategy ds bk1;
     Some (rs @ qs, bk2)
   }"
proof (induction cs arbitrary: bk)
  case Nil
  then show ?case by (cases "apply_all strategy ds bk") auto
next
  case (Cons c cs)
  show ?case
    by (cases "applyCommand strategy c bk") (auto simp: Cons.IH split: Option.bind_splits)
qed

section \<open>Books without hidden quantity\<close>

fun plain_command :: "Command \<Rightarrow> bool" where
  "plain_command (SubmitCommand (Some ord)) \<longleftrightarrow> \<not> is_iceberg ord"
| "plain_command _ \<longleftrightarrow> True"

definition plain_book :: "Book \<Rightarrow> bool" where
  "plain_book bk \<longleftrightarrow> (\<forall>s. \<forall>x \<in> set (side_orders (book_side s bk)). \<not> is_iceberg x)"

lemma plain_book_sided:
  "plain_book bk \<longleftrightarrow> (\<forall>x \<in> set (side_orders (book_side s bk)) \<union> set (side_orders (book_side (opposite s) bk)). \<not> is_iceberg x)"
proof
  assume a: "\<forall>x \<in> set (side_orders (book_side s bk)) \<union> set (side_orders (book_side (opposite s) bk)). \<not> is_iceberg x"
  have "\<forall>x \<in> set (side_orders (book_side t bk)). \<not> is_iceberg x" for t
    by (rule both_sides [of "\<lambda>t. \<forall>x \<in> set (side_orders (book_side t bk)). \<not> is_iceberg x" s]) (use a in auto)
  then show "plain_book bk" by (simp add: plain_book_def)
qed (auto simp: plain_book_def)

lemma match_orders_plain:
  assumes "match_orders cmp agg a os = (es, os', a', blocked)" and "\<forall>x \<in> set os. \<not> is_iceberg x"
  shows "\<forall>x \<in> set os'. \<not> is_iceberg x"
  using assms
proof (induction rule: match_orders_induct)
  case (step a resting rest es os' a' blocked p)
  have "\<forall>x \<in> set (next_list cmp (min a (visibleQty resting)) resting rest). \<not> is_iceberg x"
    using step.prems set_next_list [of cmp "min a (visibleQty resting)" resting rest] by auto
  then show ?case by (rule step.IH)
qed simp

lemma submit_plain:
  assumes ok: "book_ok bk" and plain: "plain_book bk" and c: "plain_command (SubmitCommand incoming)"
  shows "\<exists>r bk'. submit price_time_plan incoming bk = Some (r, bk') \<and> book_ok bk' \<and> plain_book bk'"
proof -
  obtain r bk' where s: "submit price_time_plan incoming bk = Some (r, bk')"
    and k: "case r of Inl e \<Rightarrow> bk' = bk | Inr result \<Rightarrow> \<exists>ord. incoming = Some ord \<and>
          (order_wf ord \<and> tranche_intact ord result \<longrightarrow> book_ok bk')"
    using price_time.submit_total [OF ok, of incoming] by blast
  show ?thesis
  proof (cases r)
    case (Inl e)
    then show ?thesis using s k ok plain by simp
  next
    case (Inr result)
    then obtain ord where ord: "incoming = Some ord" and k': "order_wf ord \<and> tranche_intact ord result \<longrightarrow> book_ok bk'"
      using k by auto
    have ni: "\<not> is_iceberg ord" using c ord by simp
    have sub: "submit price_time_plan (Some ord) bk = Some (Inr result, bk')" using s ord Inr by simp
    have v: "remaining ord \<noteq> 0" "order_id ord \<notin> book_ids bk"
      using sub ok by (auto simp: submit_def validate_cases split: if_splits)
    then have wf: "order_wf ord" using ni by (simp add: not_iceberg_wf word_gt_0)
    obtain fs blocked left own' opp' where
      sp: "submit price_time_plan (Some ord) bk =
         Some (Inr (submit_result ord fs blocked left), with_sides (order_side ord) own' opp' bk)"
      and r: "submitted ord (bk_nextNode bk) (bk_nextSequence bk) (book_side (order_side ord) bk)
         (book_side (opposite (order_side ord)) bk) fs blocked left own' opp'"
      using price_time.submit_spec [OF ok v] by blast
    have "left \<le> remaining ord" using r by (simp add: submitted_def word_le_nat_alt)
    then have t: "tranche_intact ord result" using tranche_intact_plain [OF ni] sp sub by auto
    then have ok': "book_ok bk'" using k' wf by blast
    have "plain_book bk'"
    proof -
      let ?s = "order_side ord"
      obtain es left' blocked' where m: "match_orders (ordering_of (opposite ?s)) ord (remaining ord)
          (side_orders (book_side (opposite ?s) bk)) = (es, side_orders (book_side (opposite ?s) bk'), left', blocked')"
        by (rule submit_matchE [OF ok sub])
      have opp: "\<forall>x \<in> set (side_orders (book_side (opposite ?s) bk')). \<not> is_iceberg x"
        by (rule match_orders_plain [OF m]) (use plain in \<open>auto simp: plain_book_def\<close>)
      have n: "bk_nextNode bk \<notin> side_nodes (book_side ?s bk)" "order_id ord \<notin> side_ids (book_side ?s bk)"
        using ok v(2) by (auto simp: book_ok_sided [of _ ?s] book_ids_sided [of _ ?s])
      have "set (side_orders (book_side ?s bk')) \<subseteq>
          insert (onPartialFill (remaining ord - left) (assignSequence (bk_nextSequence bk) ord))
            (set (side_orders (book_side ?s bk)))"
        using r t wf n sp sub
        by (auto simp: submitted_def own_side_after_def tranche_intact_result split: if_splits)
      then have "\<forall>x \<in> set (side_orders (book_side ?s bk')). \<not> is_iceberg x"
        using plain ni by (auto simp: plain_book_def)
      with opp show ?thesis by (auto simp: plain_book_sided [of _ ?s])
    qed
    with ok' s show ?thesis by blast
  qed
qed

lemma reduceTo_iceberg [simp]: "is_iceberg (reduceTo q ord) = is_iceberg ord"
  by (cases ord) simp_all

lemma cancel_plain:
  assumes "book_ok bk" and "plain_book bk" and "cancel oid bk = Some (r, bk')"
  shows "book_ok bk' \<and> plain_book bk'"
  using cancel_spec [OF assms(1), of oid] assms(2,3) by (auto simp: plain_book_sided [of _ Buy])

lemma modify_absent:
  "q \<noteq> 0 \<Longrightarrow> book_find oid bk = None \<Longrightarrow>
     modify strat oid q newPrice bk = Some (new_ModifyResult\<lparr>mr_status := NotFound\<rparr>, bk)"
  by (auto simp: modify_def book_find_def Let_def split: option.splits)

lemma modify_found_plain:
  assumes ok: "book_ok bk" and plain: "plain_book bk" and f: "book_find oid bk = Some ord" and q: "0 < q"
  shows "\<exists>r bk'. modify price_time_plan oid q newPrice bk = Some (r, bk') \<and> book_ok bk' \<and> plain_book bk'"
proof -
  define s where "s = (if side_find (ordering_of Buy) oid (bk_bids bk) \<noteq> None then Buy else Sell)"
  note side = modify_side [OF ok f, folded s_def]
  obtain p where p: "restingPrice ord = Some p" using side(3) by blast
  note m = modify_found [OF ok f p q, of price_time_plan newPrice, folded s_def]
  have sok: "side_ok s (book_side s bk)" and shape: "side_shape s (book_side s bk)"
    using book_ok_shapes [OF ok] by auto
  show ?thesis
  proof (cases "(newPrice = None \<or> newPrice = Some p) \<and> q \<le> remaining ord")
    case True
    obtain sd where sd: "reduceInPlace (ordering_of s) oid q (book_side s bk) = Some sd" "side_ok s sd"
      "side_ids sd = side_ids (book_side s bk)" "side_prices sd = side_prices (book_side s bk)"
      "side_nodes sd = side_nodes (book_side s bk)"
      "side_orders sd = map (\<lambda>o'. if order_id o' = oid then reduceTo q o' else o') (side_orders (book_side s bk))"
      using reduceInPlace_spec [OF sok side(1) q] by blast
    then have "book_ok (set_side s sd bk)" by (intro book_ok_shrink [OF ok]) simp_all
    moreover have "plain_book (set_side s sd bk)"
      using plain sd(6) by (auto simp: plain_book_sided [of _ s] split: if_splits)
    ultimately show ?thesis using m True sd(1) by auto
  next
    case False
    define p' where "p' = (case newPrice of None \<Rightarrow> p | Some x \<Rightarrow> x)"
    obtain bk1 result bk2 where c: "cancel oid bk = Some (Some ord, bk1)" "book_ok bk1"
      and sub: "submit price_time_plan (Some (cloneAmended q p' ord)) bk1 = Some (Inr result, bk2)"
      and rq: "requeue price_time_plan s oid q p' bk =
        Some (\<lparr>mr_status = Requeued, mr_fills = sr_fills result, mr_restingQty = sr_restingQty result\<rparr>, bk2)"
      using price_time.requeue_spec [OF ok side(1) q] by blast
    have "\<not> is_iceberg ord"
      using plain side_find_resting(1) [OF shape side(1)] by (auto simp: plain_book_def)
    then have "plain_command (SubmitCommand (Some (cloneAmended q p' ord)))" by simp
    moreover have "plain_book bk1" using cancel_plain [OF ok plain c(1)] by blast
    ultimately have "book_ok bk2 \<and> plain_book bk2" using submit_plain [OF c(2)] sub by fastforce
    then show ?thesis using m False rq p'_def by auto
  qed
qed

lemma applyCommand_plain:
  assumes ok: "book_ok bk" and plain: "plain_book bk" and c: "plain_command c"
  shows "\<exists>r bk'. applyCommand price_time_plan c bk = Some (r, bk') \<and> book_ok bk' \<and> plain_book bk'"
proof (cases c)
  case (SubmitCommand incoming)
  then show ?thesis using submit_plain [OF ok plain, of incoming] c by auto
next
  case (CancelCommand oid)
  then show ?thesis using cancel_spec [OF ok, of oid] cancel_plain [OF ok plain, of oid] by fastforce
next
  case (ModifyCommand oid q newPrice)
  have "\<exists>r bk'. modify price_time_plan oid q newPrice bk = Some (r, bk') \<and> book_ok bk' \<and> plain_book bk'"
  proof (cases "book_find oid bk")
    case None
    then show ?thesis using ok plain modify_absent [of q oid bk] by (cases "q = 0") (auto simp: modify_def)
  next
    case (Some ord)
    show ?thesis
    proof (cases "q = 0")
      case False
      then show ?thesis using modify_found_plain [OF ok plain Some] by (simp add: word_gt_0)
    qed (use ok plain in \<open>simp add: modify_def\<close>)
  qed
  then show ?thesis using ModifyCommand by auto
qed

lemma apply_all_plain:
  assumes "book_ok bk" and "plain_book bk" and "list_all plain_command cs"
  shows "\<exists>rs bk'. apply_all price_time_plan cs bk = Some (rs, bk') \<and> length rs = length cs \<and>
     book_ok bk' \<and> plain_book bk'"
  using assms
proof (induction cs arbitrary: bk)
  case (Cons c cs)
  obtain r bk1 where "applyCommand price_time_plan c bk = Some (r, bk1)" "book_ok bk1" "plain_book bk1"
    using applyCommand_plain [OF Cons.prems(1,2), of c] Cons.prems(3) by auto
  then show ?case using Cons.IH [of bk1] Cons.prems(3) by auto
qed simp

lemma new_Book_ok: "book_ok new_Book" "plain_book new_Book"
  by (code_simp, simp add: plain_book_sided [of _ Buy] new_Book_def empty_side_def side_orders_def level_list_def)

section \<open>Properties\<close>

text \<open>
  C16. From the empty book, every sequence of submit, cancel and modify commands without iceberg
  submissions runs to the end without undefined behaviour, whatever it does (duplicate ids, zero
  quantities, null orders, unknown ids), gives one outcome per command, and leaves a sound,
  uncrossed book.
\<close>

theorem every_plain_history_is_sound:
  assumes "list_all plain_command cs"
  shows "\<exists>rs bk. apply_all price_time_plan cs new_Book = Some (rs, bk) \<and> length rs = length cs \<and>
     book_ok bk \<and> \<not> isCrossed bk"
proof -
  obtain rs bk where "apply_all price_time_plan cs new_Book = Some (rs, bk)" "length rs = length cs" "book_ok bk"
    using apply_all_plain [OF new_Book_ok assms] by blast
  then show ?thesis using uncrossed_not_isCrossed [of bk] by (auto simp: book_ok_def)
qed

definition demo_commands :: "Command list" where
  "demo_commands =
     [SubmitCommand (Some (new_LimitOrder 1 Buy 7 10 100)), SubmitCommand None,
      SubmitCommand (Some (new_LimitOrder 1 Sell 8 10 100)), ModifyCommand 1 4 None,
      SubmitCommand (Some (new_MarketOrder 2 Sell 8 9)), CancelCommand 1]"

theorem every_plain_history_is_sound_witness:
  "list_all plain_command demo_commands \<and>
   (\<exists>rs bk. apply_all price_time_plan demo_commands new_Book = Some (rs, bk) \<and> length rs = 6 \<and> book_ok bk)"
proof -
  have "list_all plain_command demo_commands" by code_simp
  moreover have "length demo_commands = 6" by code_simp
  ultimately show ?thesis using every_plain_history_is_sound [of demo_commands] by auto
qed

end
