(* ===== verification/Wal_Record.thy ===== *)
theory Wal_Record
  imports Wire Crc32 Commands
begin

text \<open>
  \<^verbatim>\<open>store/wal_record.hpp\<close> and \<^verbatim>\<open>store/wal_record.cpp\<close>: one record of the write-ahead log, which is
  a length, a checksum and the serialised command. The lemmas give the round trip, and what
  decoding makes of a record that was cut short or damaged.
\<close>

unbundle bit_operations_syntax

section \<open>Model\<close>

definition kRecordHeaderSize :: nat where
  "kRecordHeaderSize = 8"

definition kMaxRecordPayload :: "32 word" where
  "kMaxRecordPayload = 4096"

datatype StoredOrderKind = StoredLimit | StoredMarket | StoredIceberg

fun stored_kind_byte :: "StoredOrderKind \<Rightarrow> byte" where
  "stored_kind_byte StoredLimit = 0"
| "stored_kind_byte StoredMarket = 1"
| "stored_kind_byte StoredIceberg = 2"

fun side_byte :: "Side \<Rightarrow> byte" where
  "side_byte Buy = 0"
| "side_byte Sell = 1"

text \<open>
  The cast of a byte to \<^verbatim>\<open>Side\<close> is unchecked. Every use of a side in the code compares it with
  \<^verbatim>\<open>Side::Buy\<close>, so any other value acts as a sell.
\<close>

definition cast_side :: "byte \<Rightarrow> Side" where
  "cast_side b = (if b = 0 then Buy else Sell)"

definition writeOrder :: "order \<Rightarrow> byte list" where
  "writeOrder ord =
     (let resting = restingPrice ord;
          kind = (if resting \<noteq> None
                  then (if displaySize ord < remaining ord then StoredIceberg else StoredLimit)
                  else StoredMarket)
      in w_u8 (stored_kind_byte kind) @ w_u64 (order_id ord) @ w_u32 (order_account ord) @
         w_u8 (side_byte (order_side ord)) @
         w_i64 (case resting of None \<Rightarrow> 0 | Some p \<Rightarrow> p) @
         w_u64 (remaining ord) @ w_u64 (displaySize ord))"

definition readOrder :: "Reader \<Rightarrow> order option read" where
  "readOrder r0 =
     andThen (r_u8 r0) (\<lambda>kind r1.
     andThen (r_u64 r1) (\<lambda>oid r2.
     andThen (r_u32 r2) (\<lambda>account r3.
     andThen (r_u8 r3) (\<lambda>side r4.
     andThen (r_i64 r4) (\<lambda>price r5.
     andThen (r_u64 r5) (\<lambda>quantity r6.
     andThen (r_u64 r6) (\<lambda>display r7.
       Inr (if kind = stored_kind_byte StoredLimit
            then Some (new_LimitOrder oid (cast_side side) account quantity price)
            else if kind = stored_kind_byte StoredMarket
            then Some (new_MarketOrder oid (cast_side side) account quantity)
            else if kind = stored_kind_byte StoredIceberg
            then Some (new_IcebergOrder oid (cast_side side) account quantity price display)
            else None, r7))))))))"

datatype RecordType = RecordSubmit | RecordCancel | RecordModify

fun record_type_byte :: "RecordType \<Rightarrow> byte" where
  "record_type_byte RecordSubmit = 1"
| "record_type_byte RecordCancel = 2"
| "record_type_byte RecordModify = 3"

text \<open>The payload; submitting a null order dereferences it here, before any validation.\<close>

fun encode_command :: "Command \<Rightarrow> byte list option" where
  "encode_command (SubmitCommand None) = None"
| "encode_command (SubmitCommand (Some ord)) =
     Some (w_u8 (record_type_byte RecordSubmit) @ writeOrder ord)"
| "encode_command (CancelCommand oid) = Some (w_u8 (record_type_byte RecordCancel) @ w_u64 oid)"
| "encode_command (ModifyCommand oid quantity price) =
     Some (w_u8 (record_type_byte RecordModify) @ w_u64 oid @ w_u64 quantity @
           w_u8 (if price \<noteq> None then 1 else 0) @ w_i64 (case price of None \<Rightarrow> 0 | Some p \<Rightarrow> p))"

definition encodeRecord :: "Sequence \<Rightarrow> Command \<Rightarrow> byte list option" where
  "encodeRecord sequence command = do {
     body \<leftarrow> encode_command command;
     let payload = w_u64 sequence @ body;
     Some (w_u32 (of_nat (length payload)) @ w_u32 (crc32 payload) @ payload)
   }"

record WalRecord =
  wr_sequence :: Sequence
  wr_command :: Command

datatype ReadStatus = ReadOk | Incomplete | Corrupt

record ReadResult =
  rr_status :: ReadStatus
  rr_record :: "WalRecord option"
  rr_consumed :: nat

definition new_ReadResult :: ReadResult where
  "new_ReadResult = \<lparr>rr_status = Incomplete, rr_record = None, rr_consumed = 0\<rparr>"

definition readU32 :: "byte list \<Rightarrow> nat \<Rightarrow> 32 word" where
  "readU32 bytes offset =
     foldl (\<lambda>value i. value OR push_bit (8 * i) (ucast (bytes ! (offset + i)))) 0 [0..<4]"

text \<open>The body of the \<^verbatim>\<open>try\<close> block; \<^term>\<open>Inr None\<close> is the early return for an unknown type or kind.\<close>

definition decode_payload :: "byte list \<Rightarrow> protocol_reason + WalRecord option" where
  "decode_payload payload =
     andThen (r_u64 (new_Reader payload)) (\<lambda>sequence r1.
     andThen (r_u8 r1) (\<lambda>type r2.
       andThen
        (if type = record_type_byte RecordSubmit then
           andThen (readOrder r2) (\<lambda>ord r3. Inr (map_option (\<lambda>x. SubmitCommand (Some x)) ord, r3))
         else if type = record_type_byte RecordCancel then
           andThen (r_u64 r2) (\<lambda>oid r3. Inr (Some (CancelCommand oid), r3))
         else if type = record_type_byte RecordModify then
           andThen (r_u64 r2) (\<lambda>oid r3.
           andThen (r_u64 r3) (\<lambda>quantity r4.
           andThen (r_u8 r4) (\<lambda>hasPrice r5.
           andThen (r_i64 r5) (\<lambda>price r6.
             Inr (Some (ModifyCommand oid quantity (if hasPrice \<noteq> 0 then Some price else None)), r6)))))
         else Inr (None, r2))
        (\<lambda>command r.
          case command of
            None \<Rightarrow> Inr None
          | Some c \<Rightarrow>
              (case requireFullyConsumed r of
                 Inl e \<Rightarrow> Inl e
               | Inr u \<Rightarrow> Inr (Some \<lparr>wr_sequence = sequence, wr_command = c\<rparr>)))))"

definition decodeRecord :: "byte list \<Rightarrow> ReadResult" where
  "decodeRecord bytes =
     (let result = new_ReadResult
      in if length bytes < kRecordHeaderSize then result\<lparr>rr_status := Incomplete\<rparr>
         else
           let len = readU32 bytes 0; expectedCrc = readU32 bytes 4
           in if len = 0 \<or> len > kMaxRecordPayload then result\<lparr>rr_status := Corrupt\<rparr>
              else if length bytes < kRecordHeaderSize + unat len then result\<lparr>rr_status := Incomplete\<rparr>
              else
                let payload = take (unat len) (drop kRecordHeaderSize bytes)
                in if crc32 payload \<noteq> expectedCrc then result\<lparr>rr_status := Corrupt\<rparr>
                   else
                     case decode_payload payload of
                       Inl e \<Rightarrow> result\<lparr>rr_status := Corrupt\<rparr>
                     | Inr None \<Rightarrow> result\<lparr>rr_status := Corrupt\<rparr>
                     | Inr (Some record) \<Rightarrow>
                         \<lparr>rr_status = ReadOk, rr_record = Some record,
                          rr_consumed = kRecordHeaderSize + unat len\<rparr>)"

section \<open>What the log remembers of an order\<close>

text \<open>
  An order as its constructor leaves it, and the order read back for it: an iceberg that shows all
  it holds is written as a limit order.
\<close>

fun as_constructed :: "order \<Rightarrow> bool" where
  "as_constructed (LimitOrder b limit) \<longleftrightarrow> ob_sequence b = 0"
| "as_constructed (MarketOrder b) \<longleftrightarrow> ob_sequence b = 0"
| "as_constructed (IcebergOrder b limit display visible) \<longleftrightarrow>
     ob_sequence b = 0 \<and> visible = display \<and> display \<le> ob_remaining b \<and> (display = 0 \<longrightarrow> ob_remaining b = 0)"

fun logged_order :: "order \<Rightarrow> order" where
  "logged_order (IcebergOrder b limit display visible) =
     (if display < ob_remaining b then IcebergOrder b limit display visible else LimitOrder b limit)"
| "logged_order ord = ord"

fun loggable :: "Command \<Rightarrow> bool" where
  "loggable (SubmitCommand None) \<longleftrightarrow> False"
| "loggable (SubmitCommand (Some ord)) \<longleftrightarrow> as_constructed ord"
| "loggable _ \<longleftrightarrow> True"

fun logged_command :: "Command \<Rightarrow> Command" where
  "logged_command (SubmitCommand (Some ord)) = SubmitCommand (Some (logged_order ord))"
| "logged_command c = c"

lemma constructed_orders:
  "as_constructed (new_LimitOrder i s a q p)"
  "as_constructed (new_MarketOrder i s a q)"
  "as_constructed (new_IcebergOrder i s a q p d)"
  by (auto simp: order_defs Let_def min_def split: if_splits)

lemma cast_side_byte [simp]: "cast_side (side_byte s) = s"
  by (cases s) (simp_all add: cast_side_def)

lemma then_order:
  assumes "unread r = writeOrder ord @ rest" and "reader_ok r" and "as_constructed ord"
    and "\<And>r'. unread r' = rest \<Longrightarrow> reader_ok r' \<Longrightarrow> f (Some (logged_order ord)) r' = x"
  shows "andThen (readOrder r) f = x"
proof -
  let ?kind = "if restingPrice ord \<noteq> None then (if displaySize ord < remaining ord then StoredIceberg else StoredLimit)
    else StoredMarket"
  let ?price = "case restingPrice ord of None \<Rightarrow> 0 | Some p \<Rightarrow> p"
  have order: "(if stored_kind_byte ?kind = stored_kind_byte StoredLimit
            then Some (new_LimitOrder (order_id ord) (order_side ord) (order_account ord) (remaining ord) ?price)
            else if stored_kind_byte ?kind = stored_kind_byte StoredMarket
            then Some (new_MarketOrder (order_id ord) (order_side ord) (order_account ord) (remaining ord))
            else if stored_kind_byte ?kind = stored_kind_byte StoredIceberg
            then Some (new_IcebergOrder (order_id ord) (order_side ord) (order_account ord) (remaining ord) ?price (displaySize ord))
            else None) = Some (logged_order ord)"
    using assms(3) by (cases ord) (auto simp: order_defs Let_def min_def)
  have u: "unread r = w_u8 (stored_kind_byte ?kind) @ w_u64 (order_id ord) @ w_u32 (order_account ord) @
         w_u8 (side_byte (order_side ord)) @ w_i64 ?price @ w_u64 (remaining ord) @ w_u64 (displaySize ord) @ rest"
    using assms(1) by (simp add: writeOrder_def Let_def)
  show ?thesis
    unfolding readOrder_def andThen_assoc
    apply (rule then_rules, rule u, rule assms(2))
    apply (erule (1) then_rules)+
    apply (simp only: andThen_simps cast_side_byte order)
    by (rule assms(4))
qed

section \<open>Round trip of a record\<close>

lemma decode_encoded_command:
  assumes "encode_command c = Some body" and "loggable c"
  shows "decode_payload (w_u64 sequence @ body) =
     Inr (Some \<lparr>wr_sequence = sequence, wr_command = logged_command c\<rparr>)"
proof -
  have start: "unread (new_Reader (w_u64 sequence @ body)) = w_u64 sequence @ body" "reader_ok (new_Reader (w_u64 sequence @ body))"
    by simp_all
  show ?thesis
  proof (cases c)
    case (SubmitCommand oo)
    then obtain ord where oo: "oo = Some ord" and ok: "as_constructed ord" using assms(2) by (cases oo) auto
    then have body: "body = w_u8 (record_type_byte RecordSubmit) @ writeOrder ord @ []"
      using assms(1) SubmitCommand by auto
    show ?thesis unfolding decode_payload_def body
      apply (rule then_u64, rule start [unfolded body], rule start [unfolded body])
      apply (erule (1) then_u8)
      apply (simp add: andThen_assoc)
      apply (erule (1) then_order [OF unread_last _ ok])
      by (simp add: SubmitCommand oo requireFullyConsumed_cases)
  next
    case (CancelCommand oid)
    then have body: "body = w_u8 (record_type_byte RecordCancel) @ w_u64 oid @ []" using assms(1) by auto
    show ?thesis unfolding decode_payload_def body
      apply (rule then_u64, rule start [unfolded body], rule start [unfolded body])
      apply (erule (1) then_u8)
      apply (simp add: andThen_assoc)
      apply (erule (1) then_u64 [OF unread_last])
      by (simp add: CancelCommand requireFullyConsumed_cases)
  next
    case (ModifyCommand oid q p)
    then have body: "body = w_u8 (record_type_byte RecordModify) @ w_u64 oid @ w_u64 q @
        w_u8 (if p \<noteq> None then 1 else 0) @ w_i64 (case p of None \<Rightarrow> 0 | Some p \<Rightarrow> p) @ []" using assms(1) by auto
    show ?thesis unfolding decode_payload_def body
      apply (rule then_u64, rule start [unfolded body], rule start [unfolded body])
      apply (erule (1) then_u8)
      apply (simp add: andThen_assoc del: append_Nil2)
      apply (erule (1) then_rules)+
      by (cases p) (simp_all add: ModifyCommand requireFullyConsumed_cases)
  qed
qed

lemma readU32_back:
  assumes "n = length xs"
  shows "readU32 (xs @ w_u32 v @ ys) n = v"
proof -
  have "readU32 (xs @ w_u32 v @ ys) n = le_value (w_u32 v)"
    unfolding readU32_def le_value_def length_writes
    by (rule foldl_cong) (auto simp: assms nth_append)
  also have "\<dots> = v"
    unfolding w_u32_def le_value_emit [of 4, simplified] by (rule take_bit_ucast_full) simp_all
  finally show ?thesis .
qed

lemma writeOrder_length: "length (writeOrder ord) = 38"
  by (simp add: writeOrder_def Let_def)

lemma encode_command_length: "encode_command c = Some body \<Longrightarrow> length body \<le> 39 \<and> 9 \<le> length body"
  by (cases c rule: encode_command.cases) (auto simp: writeOrder_length)

text \<open>A record written is a header of eight bytes and a payload of 17 to 47 bytes.\<close>

lemma encodeRecordE:
  assumes "encodeRecord sequence c = Some rec"
  obtains payload body where "encode_command c = Some body" and "payload = w_u64 sequence @ body"
    and "rec = w_u32 (of_nat (length payload)) @ w_u32 (crc32 payload) @ payload"
    and "length payload \<le> 47" and "17 \<le> length payload"
    and "length rec = 8 + length payload"
proof -
  obtain body where body: "encode_command c = Some body"
    and rec: "rec = w_u32 (of_nat (length (w_u64 sequence @ body))) @ w_u32 (crc32 (w_u64 sequence @ body)) @ w_u64 sequence @ body"
    using assms by (auto simp: encodeRecord_def Let_def split: Option.bind_splits)
  with encode_command_length [OF body] show ?thesis
    by (intro that [of body "w_u64 sequence @ body"]) simp_all
qed

lemma header_fields:
  "readU32 (w_u32 a @ w_u32 b @ bs) 0 = a"
  "readU32 (w_u32 a @ w_u32 b @ bs) 4 = b"
  "drop kRecordHeaderSize (w_u32 a @ w_u32 b @ bs) = bs"
  using readU32_back [of 0 "[]" a "w_u32 b @ bs"] readU32_back [of 4 "w_u32 a" b bs]
  by (simp_all add: kRecordHeaderSize_def)

lemma small_length:
  assumes "n \<le> 47" and "17 \<le> n"
  shows "unat (of_nat n :: 32 word) = n" and "(of_nat n :: 32 word) \<noteq> 0" and "(of_nat n :: 32 word) \<le> kMaxRecordPayload"
proof -
  show u: "unat (of_nat n :: 32 word) = n" using assms by (simp add: unat_of_nat)
  show "(of_nat n :: 32 word) \<noteq> 0" using u assms(2) by auto
  show "(of_nat n :: 32 word) \<le> kMaxRecordPayload" using u assms(1) by (simp add: word_le_nat_alt kMaxRecordPayload_def)
qed

text \<open>What decoding makes of a header with a plausible length.\<close>

lemma decodeRecord_framed:
  assumes "n \<le> 47" and "17 \<le> n"
  shows "decodeRecord (w_u32 (of_nat n) @ w_u32 crc @ bs) =
     (if length bs < n then new_ReadResult\<lparr>rr_status := Incomplete\<rparr>
      else if crc32 (take n bs) \<noteq> crc then new_ReadResult\<lparr>rr_status := Corrupt\<rparr>
      else case decode_payload (take n bs) of
             Inl e \<Rightarrow> new_ReadResult\<lparr>rr_status := Corrupt\<rparr>
           | Inr None \<Rightarrow> new_ReadResult\<lparr>rr_status := Corrupt\<rparr>
           | Inr (Some record) \<Rightarrow> \<lparr>rr_status = ReadOk, rr_record = Some record, rr_consumed = 8 + n\<rparr>)"
proof -
  have "\<not> (of_nat n :: 32 word) > kMaxRecordPayload" using small_length(3) [OF assms] by simp
  moreover have "length (w_u32 (of_nat n) @ w_u32 crc @ bs) = 8 + length bs" by simp
  ultimately show ?thesis
    unfolding decodeRecord_def Let_def header_fields small_length(1) [OF assms]
    using small_length(2) [OF assms] by (simp add: kRecordHeaderSize_def del: length_append split: sum.split option.split)
qed

lemma decode_encoded:
  assumes "encodeRecord sequence c = Some rec" and "loggable c"
  shows "decodeRecord (rec @ rest) =
     \<lparr>rr_status = ReadOk, rr_record = Some \<lparr>wr_sequence = sequence, wr_command = logged_command c\<rparr>,
      rr_consumed = length rec\<rparr>"
proof -
  obtain payload body where body: "encode_command c = Some body" "payload = w_u64 sequence @ body"
    and rec: "rec = w_u32 (of_nat (length payload)) @ w_u32 (crc32 payload) @ payload"
    and len: "length payload \<le> 47" "17 \<le> length payload" "length rec = 8 + length payload"
    by (rule encodeRecordE [OF assms(1)])
  have "decode_payload payload = Inr (Some \<lparr>wr_sequence = sequence, wr_command = logged_command c\<rparr>)"
    using decode_encoded_command [OF body(1) assms(2)] body(2) by simp
  then show ?thesis using decodeRecord_framed [OF len(1,2), of "crc32 payload" "payload @ rest"] rec len(3) by simp
qed

text \<open>A record cut anywhere before its end is incomplete, which is where a torn write leaves the log.\<close>

lemma decode_torn:
  assumes "encodeRecord sequence c = Some rec" and "k < length rec"
  shows "decodeRecord (take k rec) = new_ReadResult\<lparr>rr_status := Incomplete\<rparr>"
proof -
  obtain payload body where rec: "rec = w_u32 (of_nat (length payload)) @ w_u32 (crc32 payload) @ payload"
    and len: "length payload \<le> 47" "17 \<le> length payload" "length rec = 8 + length payload"
    by (rule encodeRecordE [OF assms(1)])
  show ?thesis
  proof (cases "k < 8")
    case True
    then show ?thesis using len by (simp add: decodeRecord_def Let_def kRecordHeaderSize_def)
  next
    case False
    then have "take k rec = w_u32 (of_nat (length payload)) @ w_u32 (crc32 payload) @ take (k - 8) payload"
      using rec by (simp add: take_Cons')
    moreover have "length (take (k - 8) payload) < length payload" using assms(2) len by simp
    ultimately show ?thesis using decodeRecord_framed [OF len(1,2)] by simp
  qed
qed

text \<open>A damaged byte of the checksum or the payload is always detected.\<close>

lemma readU32_bytes: "4 + k \<le> length bs \<Longrightarrow> readU32 bs k = le_value (take 4 (drop k bs))"
  unfolding readU32_def le_value_def by (simp, rule foldl_cong) auto

lemma decode_damaged:
  assumes "encodeRecord sequence c = Some rec" and "4 \<le> i" and "i < length rec" and "b \<noteq> rec ! i"
  shows "decodeRecord (rec[i := b] @ rest) = new_ReadResult\<lparr>rr_status := Corrupt\<rparr>"
proof -
  obtain payload body where rec: "rec = w_u32 (of_nat (length payload)) @ w_u32 (crc32 payload) @ payload"
    and len: "length payload \<le> 47" "17 \<le> length payload" "length rec = 8 + length payload"
    by (rule encodeRecordE [OF assms(1)])
  show ?thesis
  proof (cases "i < 8")
    case True
    let ?crc = "(w_u32 (crc32 payload))[i - 4 := b]"
    have i4: "i - 4 < 4" using True assms(2) by simp
    then have rec': "rec[i := b] = w_u32 (of_nat (length payload)) @ ?crc @ payload"
      using assms(2) by (simp add: rec list_update_append)
    obtain crc :: "32 word" where crc: "?crc = w_u32 crc" using le_value_surj [of ?crc] by auto
    have "crc32 payload \<noteq> crc"
    proof
      assume "crc32 payload = crc"
      then have "?crc ! (i - 4) = w_u32 (crc32 payload) ! (i - 4)" using crc by simp
      then show False using i4 assms(2,4) by (simp add: rec nth_append)
    qed
    then show ?thesis using decodeRecord_framed [OF len(1,2), of crc "payload @ rest"] rec' crc by simp
  next
    case False
    then obtain j where i: "i = 8 + j" by (auto simp: not_less le_iff_add)
    have j: "j < length payload" "payload ! j \<noteq> b" using assms(3,4) len by (auto simp: rec nth_append i)
    have rec': "rec[i := b] = w_u32 (of_nat (length payload)) @ w_u32 (crc32 payload) @ payload[j := b]"
      by (simp add: rec list_update_append i)
    have "crc32 (payload[j := b]) \<noteq> crc32 payload"
      using crc32_damaged_byte [OF j(2) [symmetric], of "take j payload" "drop (Suc j) payload"] j(1)
      by (simp add: upd_conv_take_nth_drop id_take_nth_drop [symmetric])
    then show ?thesis
      using decodeRecord_framed [OF len(1,2), of "crc32 payload" "payload[j := b] @ rest"] rec' by simp
  qed
qed

section \<open>Properties\<close>

text \<open>
  C27. Every command the engine can log is encoded, and decoding the record, whatever follows it in
  the file, returns the sequence number, the command as logged and the length of the record. The
  command as logged is the command itself, except that an iceberg showing everything it holds comes
  back as the limit order with the same fields.
\<close>

theorem wal_record_roundtrip:
  assumes "loggable c"
  shows "\<exists>rec. encodeRecord sequence c = Some rec \<and> length rec \<le> 55 \<and>
     decodeRecord (rec @ rest) =
       \<lparr>rr_status = ReadOk, rr_record = Some \<lparr>wr_sequence = sequence, wr_command = logged_command c\<rparr>,
        rr_consumed = length rec\<rparr>"
proof -
  obtain body where "encode_command c = Some body"
    using assms by (cases c rule: encode_command.cases) auto
  then obtain rec where rec: "encodeRecord sequence c = Some rec" by (simp add: encodeRecord_def Let_def)
  moreover from this have "length rec \<le> 55" by (rule encodeRecordE) simp
  ultimately show ?thesis using decode_encoded [OF rec assms] by blast
qed

theorem wal_record_roundtrip_witness:
  "loggable (SubmitCommand (Some (new_IcebergOrder 7 Sell 3 50 101 10))) \<and>
   (\<exists>rec. encodeRecord 1 (SubmitCommand (Some (new_IcebergOrder 7 Sell 3 50 101 10))) = Some rec \<and>
      rr_record (decodeRecord (rec @ [0xAB])) =
        Some \<lparr>wr_sequence = 1, wr_command = SubmitCommand (Some (new_IcebergOrder 7 Sell 3 50 101 10))\<rparr>)"
proof -
  let ?c = "SubmitCommand (Some (new_IcebergOrder 7 Sell 3 50 101 10))"
  have "loggable ?c" "logged_command ?c = ?c" by code_simp+
  then show ?thesis using wal_record_roundtrip [of ?c 1 "[0xAB]"] by auto
qed

text \<open>
  A record of which only a proper prefix reached the file is reported incomplete, at whatever
  byte the write was cut, and yields no command.
\<close>

lemma torn_record_incomplete:
  assumes "encodeRecord sequence c = Some rec" and "k < length rec"
  shows "rr_status (decodeRecord (take k rec)) = Incomplete \<and> rr_record (decodeRecord (take k rec)) = None"
  using decode_torn [OF assms] by (simp add: new_ReadResult_def)

definition demo_record :: "byte list" where
  "demo_record = the (encodeRecord 1 (CancelCommand 5))"

lemma demo_record: "encodeRecord 1 (CancelCommand 5) = Some demo_record" "length demo_record = 25"
  by (simp_all add: demo_record_def encodeRecord_def Let_def)

text \<open>
  C28. Changing any one byte of a record's checksum or payload makes the record corrupt: no command
  is read from it.
\<close>

theorem damaged_record_detected:
  assumes "encodeRecord sequence c = Some rec" and "4 \<le> i" and "i < length rec" and "b \<noteq> rec ! i"
  shows "rr_status (decodeRecord (rec[i := b] @ rest)) = Corrupt \<and>
     rr_record (decodeRecord (rec[i := b] @ rest)) = None"
  using decode_damaged [OF assms] by (simp add: new_ReadResult_def)

theorem damaged_record_detected_witness:
  "encodeRecord 1 (CancelCommand 5) = Some demo_record \<and> demo_record ! 16 = 2 \<and>
   rr_status (decodeRecord (demo_record[16 := 7] @ [])) = Corrupt"
proof -
  have b: "demo_record ! 16 = 2"
    by (simp add: demo_record_def encodeRecord_def Let_def nth_append w_u8_def)
  have "rr_status (decodeRecord (demo_record[16 := 7] @ [])) = Corrupt"
    using damaged_record_detected [OF demo_record(1), of 16 7 "[]"] demo_record(2) b by simp
  then show ?thesis using demo_record(1) b by blast
qed

end
