(* ===== verification/Command_Log.thy ===== *)
theory Command_Log
  imports Commands
begin

text \<open>
  \<^verbatim>\<open>core/command_log.hpp\<close>: what the engine needs from a durable log. \<^verbatim>\<open>ICommandLog\<close> is an abstract
  class owned by core and implemented by the store; here it is a locale whose laws are what an
  implementation promises about the commands a later replay will see. \<open>history\<close> is that sequence of
  commands and \<open>intact\<close> says that nothing damaged lies in its way.

  The documented contract is that a failed append leaves no record. The law is weaker: a failed
  append may leave the command in the log, because the write can succeed and the sync after it fail.
\<close>

locale command_log =
  fixes append :: "'env \<Rightarrow> Command \<Rightarrow> 'log \<Rightarrow> (Sequence result \<times> 'log) option"
    and history :: "'log \<Rightarrow> Command list"
    and intact :: "'log \<Rightarrow> bool"
    and recordable :: "Command \<Rightarrow> bool"
  assumes append_recorded: "intact l \<Longrightarrow> recordable c \<Longrightarrow> append env c l = Some (Inr n, l') \<Longrightarrow>
      intact l' \<and> history l' = history l @ [c]"
    and append_error: "append env c l = Some (Inl e, l') \<Longrightarrow> e = StorageError"
    and append_failed: "intact l \<Longrightarrow> recordable c \<Longrightarrow> append env c l = Some (Inl e, l') \<Longrightarrow>
      history l' = history l \<or> history l' = history l @ [c]"

end
