(* ===== verification/Thread_Safe_Queue.thy ===== *)
theory Thread_Safe_Queue
  imports Exchange_Prelude
begin

text \<open>
  \<^verbatim>\<open>concurrent/thread_safe_queue.hpp\<close>: the bounded queue between threads. Each operation holds the
  mutex for one critical section, so a critical section is a function on the queue; around them, a
  step relation interleaves any number of threads, with waiting on the two condition variables,
  notification after the lock is released, and spurious wakeups. The lemmas show that the queue is a
  bounded FIFO that loses nothing and that no wakeup is lost.
\<close>

section \<open>Critical sections\<close>

record 'a ThreadSafeQueue =
  q_items :: "'a list"
  q_capacity :: nat
  q_closed :: bool

definition new_ThreadSafeQueue :: "nat \<Rightarrow> 'a ThreadSafeQueue" where
  "new_ThreadSafeQueue capacity =
     \<lparr>q_items = [], q_capacity = (if capacity = 0 then 1 else capacity), q_closed = False\<rparr>"

text \<open>Where a thread is within an operation, between two critical sections.\<close>

datatype 'a thread_state =
    Idle
  | Pushing 'a             \<comment> \<open>in \<^verbatim>\<open>push\<close>, about to take the lock\<close>
  | PushWaiting 'a         \<comment> \<open>blocked on \<^verbatim>\<open>notFull_\<close>\<close>
  | TryPushing 'a
  | PushNotify             \<comment> \<open>enqueued and released the lock, about to notify \<^verbatim>\<open>notEmpty_\<close>\<close>
  | PushDone bool
  | Popping
  | PopWaiting             \<comment> \<open>blocked on \<^verbatim>\<open>notEmpty_\<close>\<close>
  | TryPopping
  | PopNotify 'a           \<comment> \<open>dequeued and released the lock, about to notify \<^verbatim>\<open>notFull_\<close>\<close>
  | PopDone "'a option"
  | Closing
  | CloseNotifyEmpty
  | CloseNotifyFull

definition push :: "'a \<Rightarrow> 'a ThreadSafeQueue \<Rightarrow> 'a thread_state \<times> 'a ThreadSafeQueue" where
  "push v q =
     (if \<not> (q_closed q \<or> length (q_items q) < q_capacity q) then (PushWaiting v, q)
      else if q_closed q then (PushDone False, q)
      else (PushNotify, q\<lparr>q_items := q_items q @ [v]\<rparr>))"

definition tryPush :: "'a \<Rightarrow> 'a ThreadSafeQueue \<Rightarrow> 'a thread_state \<times> 'a ThreadSafeQueue" where
  "tryPush v q =
     (if q_closed q \<or> length (q_items q) \<ge> q_capacity q then (PushDone False, q)
      else (PushNotify, q\<lparr>q_items := q_items q @ [v]\<rparr>))"

definition pop :: "'a ThreadSafeQueue \<Rightarrow> 'a thread_state \<times> 'a ThreadSafeQueue" where
  "pop q =
     (if \<not> (q_closed q \<or> q_items q \<noteq> []) then (PopWaiting, q)
      else case q_items q of
             [] \<Rightarrow> (PopDone None, q)
           | x # xs \<Rightarrow> (PopNotify x, q\<lparr>q_items := xs\<rparr>))"

definition tryPop :: "'a ThreadSafeQueue \<Rightarrow> 'a thread_state \<times> 'a ThreadSafeQueue" where
  "tryPop q =
     (case q_items q of
        [] \<Rightarrow> (PopDone None, q)
      | x # xs \<Rightarrow> (PopNotify x, q\<lparr>q_items := xs\<rparr>))"

definition close :: "'a ThreadSafeQueue \<Rightarrow> 'a thread_state \<times> 'a ThreadSafeQueue" where
  "close q = (CloseNotifyEmpty, q\<lparr>q_closed := True\<rparr>)"

section \<open>Threads\<close>

text \<open>
  The queue, the threads that use it, and two ghost lists: the values in the order in which they
  entered and in which they left the queue.
\<close>

record 'a system =
  sys_queue :: "'a ThreadSafeQueue"
  sys_threads :: "'a thread_state list"
  sys_accepted :: "'a list"
  sys_taken :: "'a list"

fun at_rest :: "'a thread_state \<Rightarrow> bool" where
  "at_rest Idle = True"
| "at_rest (PushDone b) = True"
| "at_rest (PopDone r) = True"
| "at_rest _ = False"

fun push_waiting :: "'a thread_state \<Rightarrow> bool" where
  "push_waiting (PushWaiting v) = True"
| "push_waiting _ = False"

fun pop_waiting :: "'a thread_state \<Rightarrow> bool" where
  "pop_waiting PopWaiting = True"
| "pop_waiting _ = False"

text \<open>A blocked thread that is woken goes back to its predicate.\<close>

fun woken :: "'a thread_state \<Rightarrow> 'a thread_state" where
  "woken (PushWaiting v) = Pushing v"
| "woken PopWaiting = Popping"
| "woken s = s"

definition entered :: "'a \<Rightarrow> 'a thread_state \<Rightarrow> 'a list \<Rightarrow> 'a list" where
  "entered v s xs = (case s of PushNotify \<Rightarrow> xs @ [v] | _ \<Rightarrow> xs)"

definition left_with :: "'a thread_state \<Rightarrow> 'a list \<Rightarrow> 'a list" where
  "left_with s xs = (case s of PopNotify v \<Rightarrow> xs @ [v] | _ \<Rightarrow> xs)"

inductive queue_step :: "'a system \<Rightarrow> 'a system \<Rightarrow> bool" where
  call: "\<lbrakk>i < length ts; at_rest (ts ! i); s' \<in> {Pushing v, TryPushing v, Popping, TryPopping, Closing}\<rbrakk>
    \<Longrightarrow> queue_step \<lparr>sys_queue = q, sys_threads = ts, sys_accepted = ac, sys_taken = tk\<rparr>
          \<lparr>sys_queue = q, sys_threads = ts[i := s'], sys_accepted = ac, sys_taken = tk\<rparr>"
| push_section: "\<lbrakk>i < length ts; ts ! i = Pushing v; push v q = (s', q')\<rbrakk>
    \<Longrightarrow> queue_step \<lparr>sys_queue = q, sys_threads = ts, sys_accepted = ac, sys_taken = tk\<rparr>
          \<lparr>sys_queue = q', sys_threads = ts[i := s'], sys_accepted = entered v s' ac, sys_taken = tk\<rparr>"
| tryPush_section: "\<lbrakk>i < length ts; ts ! i = TryPushing v; tryPush v q = (s', q')\<rbrakk>
    \<Longrightarrow> queue_step \<lparr>sys_queue = q, sys_threads = ts, sys_accepted = ac, sys_taken = tk\<rparr>
          \<lparr>sys_queue = q', sys_threads = ts[i := s'], sys_accepted = entered v s' ac, sys_taken = tk\<rparr>"
| pop_section: "\<lbrakk>i < length ts; ts ! i = Popping; pop q = (s', q')\<rbrakk>
    \<Longrightarrow> queue_step \<lparr>sys_queue = q, sys_threads = ts, sys_accepted = ac, sys_taken = tk\<rparr>
          \<lparr>sys_queue = q', sys_threads = ts[i := s'], sys_accepted = ac, sys_taken = left_with s' tk\<rparr>"
| tryPop_section: "\<lbrakk>i < length ts; ts ! i = TryPopping; tryPop q = (s', q')\<rbrakk>
    \<Longrightarrow> queue_step \<lparr>sys_queue = q, sys_threads = ts, sys_accepted = ac, sys_taken = tk\<rparr>
          \<lparr>sys_queue = q', sys_threads = ts[i := s'], sys_accepted = ac, sys_taken = left_with s' tk\<rparr>"
| close_section: "\<lbrakk>i < length ts; ts ! i = Closing; close q = (s', q')\<rbrakk>
    \<Longrightarrow> queue_step \<lparr>sys_queue = q, sys_threads = ts, sys_accepted = ac, sys_taken = tk\<rparr>
          \<lparr>sys_queue = q', sys_threads = ts[i := s'], sys_accepted = ac, sys_taken = tk\<rparr>"
| notify_notEmpty: "\<lbrakk>i < length ts; ts ! i = PushNotify; j < length ts; pop_waiting (ts ! j)\<rbrakk>
    \<Longrightarrow> queue_step \<lparr>sys_queue = q, sys_threads = ts, sys_accepted = ac, sys_taken = tk\<rparr>
          \<lparr>sys_queue = q, sys_threads = ts[j := woken (ts ! j), i := PushDone True], sys_accepted = ac, sys_taken = tk\<rparr>"
| notify_notEmpty_nobody: "\<lbrakk>i < length ts; ts ! i = PushNotify; list_all (Not \<circ> pop_waiting) ts\<rbrakk>
    \<Longrightarrow> queue_step \<lparr>sys_queue = q, sys_threads = ts, sys_accepted = ac, sys_taken = tk\<rparr>
          \<lparr>sys_queue = q, sys_threads = ts[i := PushDone True], sys_accepted = ac, sys_taken = tk\<rparr>"
| notify_notFull: "\<lbrakk>i < length ts; ts ! i = PopNotify v; j < length ts; push_waiting (ts ! j)\<rbrakk>
    \<Longrightarrow> queue_step \<lparr>sys_queue = q, sys_threads = ts, sys_accepted = ac, sys_taken = tk\<rparr>
          \<lparr>sys_queue = q, sys_threads = ts[j := woken (ts ! j), i := PopDone (Some v)], sys_accepted = ac, sys_taken = tk\<rparr>"
| notify_notFull_nobody: "\<lbrakk>i < length ts; ts ! i = PopNotify v; list_all (Not \<circ> push_waiting) ts\<rbrakk>
    \<Longrightarrow> queue_step \<lparr>sys_queue = q, sys_threads = ts, sys_accepted = ac, sys_taken = tk\<rparr>
          \<lparr>sys_queue = q, sys_threads = ts[i := PopDone (Some v)], sys_accepted = ac, sys_taken = tk\<rparr>"
| notify_all_notEmpty: "\<lbrakk>i < length ts; ts ! i = CloseNotifyEmpty\<rbrakk>
    \<Longrightarrow> queue_step \<lparr>sys_queue = q, sys_threads = ts, sys_accepted = ac, sys_taken = tk\<rparr>
          \<lparr>sys_queue = q, sys_threads = (map (\<lambda>s. if pop_waiting s then woken s else s) ts)[i := CloseNotifyFull],
           sys_accepted = ac, sys_taken = tk\<rparr>"
| notify_all_notFull: "\<lbrakk>i < length ts; ts ! i = CloseNotifyFull\<rbrakk>
    \<Longrightarrow> queue_step \<lparr>sys_queue = q, sys_threads = ts, sys_accepted = ac, sys_taken = tk\<rparr>
          \<lparr>sys_queue = q, sys_threads = (map (\<lambda>s. if push_waiting s then woken s else s) ts)[i := Idle],
           sys_accepted = ac, sys_taken = tk\<rparr>"
| spurious: "\<lbrakk>i < length ts\<rbrakk>
    \<Longrightarrow> queue_step \<lparr>sys_queue = q, sys_threads = ts, sys_accepted = ac, sys_taken = tk\<rparr>
          \<lparr>sys_queue = q, sys_threads = ts[i := woken (ts ! i)], sys_accepted = ac, sys_taken = tk\<rparr>"

definition queue_start :: "nat \<Rightarrow> nat \<Rightarrow> 'a system" where
  "queue_start capacity threads =
     \<lparr>sys_queue = new_ThreadSafeQueue capacity, sys_threads = replicate threads Idle,
      sys_accepted = [], sys_taken = []\<rparr>"

section \<open>Invariant\<close>

definition how_many :: "('a thread_state \<Rightarrow> bool) \<Rightarrow> 'a thread_state list \<Rightarrow> nat" where
  "how_many P ts = length (filter P ts)"

fun will_pop :: "'a thread_state \<Rightarrow> bool" where
  "will_pop Popping = True"
| "will_pop PushNotify = True"
| "will_pop _ = False"

fun will_push :: "'a thread_state \<Rightarrow> bool" where
  "will_push (Pushing v) = True"
| "will_push (PopNotify v) = True"
| "will_push _ = False"

fun notifies_notEmpty :: "'a thread_state \<Rightarrow> bool" where
  "notifies_notEmpty CloseNotifyEmpty = True"
| "notifies_notEmpty _ = False"

fun notifies_notFull :: "'a thread_state \<Rightarrow> bool" where
  "notifies_notFull CloseNotifyEmpty = True"
| "notifies_notFull CloseNotifyFull = True"
| "notifies_notFull _ = False"

text \<open>
  Besides the FIFO bookkeeping: whenever a consumer is blocked, every item is covered by a consumer
  that is already awake or a notification still to come; likewise every free slot when a producer is
  blocked; and after closing, blocked threads have the closing thread's notifications still ahead.
\<close>

definition inv_fifo :: "'a system \<Rightarrow> bool" where
  "inv_fifo sy \<longleftrightarrow> sys_accepted sy = sys_taken sy @ q_items (sys_queue sy) \<and>
     length (q_items (sys_queue sy)) \<le> q_capacity (sys_queue sy) \<and> 0 < q_capacity (sys_queue sy)"

definition inv_pop :: "'a ThreadSafeQueue \<Rightarrow> 'a thread_state list \<Rightarrow> bool" where
  "inv_pop q ts \<longleftrightarrow> 0 < how_many pop_waiting ts \<longrightarrow>
     (if q_closed q then 0 < how_many notifies_notEmpty ts else length (q_items q) \<le> how_many will_pop ts)"

definition inv_push :: "'a ThreadSafeQueue \<Rightarrow> 'a thread_state list \<Rightarrow> bool" where
  "inv_push q ts \<longleftrightarrow> 0 < how_many push_waiting ts \<longrightarrow>
     (if q_closed q then 0 < how_many notifies_notFull ts
      else q_capacity q - length (q_items q) \<le> how_many will_push ts)"

lemma how_many_simps [simp]: "how_many P [] = 0" "how_many P (s # ts) = (if P s then Suc (how_many P ts) else how_many P ts)"
  by (simp_all add: how_many_def)

lemma how_many_update:
  "i < length ts \<Longrightarrow> how_many P (ts[i := s]) + (if P (ts ! i) then 1 else 0) = how_many P ts + (if P s then 1 else 0)"
proof (induction ts arbitrary: i)
  case (Cons t ts)
  then show ?case by (cases i) auto
qed simp

lemma how_many_zero: "how_many P ts = 0 \<longleftrightarrow> list_all (Not \<circ> P) ts"
  by (induction ts) auto

lemma fifo_step: "queue_step sy sy' \<Longrightarrow> inv_fifo sy \<Longrightarrow> inv_fifo sy'"
  by (induction rule: queue_step.induct)
     (auto simp: inv_fifo_def push_def tryPush_def pop_def tryPop_def close_def entered_def left_with_def
       split: if_splits list.splits)

lemma how_many_woken:
  "(\<And>s. P (if W s then woken s else s) = Q s) \<Longrightarrow> how_many P (map (\<lambda>s. if W s then woken s else s) ts) = how_many Q ts"
  by (induction ts) auto

lemma how_many_mono: "(\<And>s. P s \<Longrightarrow> Q s) \<Longrightarrow> how_many P ts \<le> how_many Q ts"
  by (induction ts) (auto simp: le_SucI)

lemma how_many_pos: "i < length ts \<Longrightarrow> P s \<Longrightarrow> 0 < how_many P (ts[i := s])"
  by (simp add: how_many_def filter_empty_conv) (blast intro: set_update_memI)

text \<open>One thread moves from \<open>ts ! i\<close> to \<open>s'\<close> and the queue from \<open>q\<close> to \<open>q'\<close>.\<close>

lemma inv_pop_move:
  assumes "inv_pop q ts" and "i < length ts"
    and "pop_waiting s' \<longrightarrow> q' = q \<and> (pop_waiting (ts ! i) \<or> \<not> q_closed q \<and> q_items q = [])"
    and "notifies_notEmpty (ts ! i) \<longrightarrow> notifies_notEmpty s'"
    and "q_closed q' \<longrightarrow> q_closed q \<or> notifies_notEmpty s'"
    and "\<not> q_closed q' \<longrightarrow> \<not> q_closed q"
    and "length (q_items q') + (if will_pop (ts ! i) then 1 else 0) \<le> length (q_items q) + (if will_pop s' then 1 else 0) \<or>
      q_items q' = []"
  shows "inv_pop q' (ts[i := s'])"
  using assms how_many_update [OF assms(2), of pop_waiting s'] how_many_update [OF assms(2), of will_pop s']
    how_many_update [OF assms(2), of notifies_notEmpty s'] how_many_pos [OF assms(2), of notifies_notEmpty s']
  by (auto simp: inv_pop_def split: if_splits)

lemma inv_push_move:
  assumes "inv_push q ts" and "i < length ts" and "q_capacity q' = q_capacity q"
    and "push_waiting s' \<longrightarrow> q' = q \<and> (push_waiting (ts ! i) \<or> \<not> q_closed q \<and> q_capacity q \<le> length (q_items q))"
    and "notifies_notFull (ts ! i) \<longrightarrow> notifies_notFull s'"
    and "q_closed q' \<longrightarrow> q_closed q \<or> notifies_notFull s'"
    and "\<not> q_closed q' \<longrightarrow> \<not> q_closed q"
    and "q_capacity q - length (q_items q') + (if will_push (ts ! i) then 1 else 0) \<le>
      q_capacity q - length (q_items q) + (if will_push s' then 1 else 0) \<or> q_capacity q \<le> length (q_items q') \<or> q_closed q'"
  shows "inv_push q' (ts[i := s'])"
  using assms how_many_update [OF assms(2), of push_waiting s'] how_many_update [OF assms(2), of will_push s']
    how_many_update [OF assms(2), of notifies_notFull s'] how_many_pos [OF assms(2), of notifies_notFull s']
  by (auto simp: inv_push_def split: if_splits)

lemma inv_pop_wake_one:
  assumes "inv_pop q ts" and "i < length ts" and "ts ! i = PushNotify" and "j < length ts" and "pop_waiting (ts ! j)"
  shows "inv_pop q (ts[j := woken (ts ! j), i := PushDone True])"
proof -
  let ?ts = "ts[j := woken (ts ! j)]"
  have j: "ts ! j = PopWaiting" using assms(5) by (cases "ts ! j") simp_all
  then have i: "?ts ! i = PushNotify" "i < length ?ts" using assms(2,3) by (cases "i = j"; simp)+
  note first = how_many_update [OF assms(4), of _ "woken (ts ! j)"] and second = how_many_update [OF i(2), of _ "PushDone True"]
  show ?thesis
    using assms(1) i(1) j first [of pop_waiting] first [of will_pop] first [of notifies_notEmpty]
      second [of pop_waiting] second [of will_pop] second [of notifies_notEmpty]
    by (auto simp: inv_pop_def)
qed

lemma inv_push_wake_one:
  assumes "inv_push q ts" and "i < length ts" and "ts ! i = PopNotify v" and "j < length ts" and "push_waiting (ts ! j)"
  shows "inv_push q (ts[j := woken (ts ! j), i := PopDone (Some v)])"
proof -
  let ?ts = "ts[j := woken (ts ! j)]"
  obtain w where j: "ts ! j = PushWaiting w" using assms(5) by (cases "ts ! j") simp_all
  then have i: "?ts ! i = PopNotify v" "i < length ?ts" using assms(2,3) by (cases "i = j"; simp)+
  note first = how_many_update [OF assms(4), of _ "woken (ts ! j)"] and second = how_many_update [OF i(2), of _ "PopDone (Some v)"]
  show ?thesis
    using assms(1) i(1) j first [of push_waiting] first [of will_push] first [of notifies_notFull]
      second [of push_waiting] second [of will_push] second [of notifies_notFull]
    by (auto simp: inv_push_def)
qed

lemma nobody_waits:
  assumes "i < length ts" and "\<not> P s" and "list_all (Not \<circ> P) ts"
  shows "how_many P (ts[i := s]) = 0"
  using how_many_update [OF assms(1), of P s] assms(2,3) by (simp add: how_many_zero [symmetric] del: neq0_conv)

lemma all_woken:
  "i < length ts \<Longrightarrow> \<not> pop_waiting s \<Longrightarrow>
     how_many pop_waiting ((map (\<lambda>s. if pop_waiting s then woken s else s) ts)[i := s]) = 0"
  "i < length ts \<Longrightarrow> \<not> push_waiting s \<Longrightarrow>
     how_many push_waiting ((map (\<lambda>s. if push_waiting s then woken s else s) ts)[i := s]) = 0"
proof -
  have "\<not> pop_waiting (woken s)" for s :: "'a thread_state"
    by (cases s) simp_all
  then show "i < length ts \<Longrightarrow> \<not> pop_waiting s \<Longrightarrow>
     how_many pop_waiting ((map (\<lambda>s. if pop_waiting s then woken s else s) ts)[i := s]) = 0"
    by (intro nobody_waits) (auto simp: list_all_iff)
  have "\<not> push_waiting (woken s)" for s :: "'a thread_state"
    by (cases s) simp_all
  then show "i < length ts \<Longrightarrow> \<not> push_waiting s \<Longrightarrow>
     how_many push_waiting ((map (\<lambda>s. if push_waiting s then woken s else s) ts)[i := s]) = 0"
    by (intro nobody_waits) (auto simp: list_all_iff)
qed

lemma inv_push_others_woken:
  assumes "inv_push q ts"
  shows "inv_push q (map (\<lambda>s. if pop_waiting s then woken s else s) ts)"
proof -
  have same: "how_many P (map (\<lambda>s. if pop_waiting s then woken s else s) ts) = how_many P ts"
    if "P \<in> {push_waiting, will_push, notifies_notFull}" for P
  proof (rule how_many_woken)
    fix s show "P (if pop_waiting s then woken s else s) = P s" using that by (cases s) auto
  qed
  show ?thesis using assms by (simp add: inv_push_def same)
qed

lemma inv_pop_others_woken:
  assumes "inv_pop q ts"
  shows "inv_pop q (map (\<lambda>s. if push_waiting s then woken s else s) ts)"
proof -
  have same: "how_many P (map (\<lambda>s. if push_waiting s then woken s else s) ts) = how_many P ts"
    if "P \<in> {pop_waiting, will_pop, notifies_notEmpty}" for P
  proof (rule how_many_woken)
    fix s show "P (if push_waiting s then woken s else s) = P s" using that by (cases s) auto
  qed
  show ?thesis using assms by (simp add: inv_pop_def same)
qed

lemma at_rest_nothing:
  "at_rest s \<Longrightarrow> \<not> pop_waiting s \<and> \<not> push_waiting s \<and> \<not> will_pop s \<and> \<not> will_push s \<and>
     \<not> notifies_notEmpty s \<and> \<not> notifies_notFull s"
  by (cases s) simp_all

lemmas section_defs = push_def tryPush_def pop_def tryPop_def close_def

lemma pop_step: "queue_step sy sy' \<Longrightarrow> inv_pop (sys_queue sy) (sys_threads sy) \<Longrightarrow> inv_pop (sys_queue sy') (sys_threads sy')"
proof (induction rule: queue_step.induct)
  case (call i ts s' v q ac tk)
  then show ?case using at_rest_nothing [of "ts ! i"] by (auto intro!: inv_pop_move)
next
  case (notify_notEmpty i ts j q ac tk)
  then show ?case by (simp add: inv_pop_wake_one)
next
  case (notify_notEmpty_nobody i ts q ac tk)
  then show ?case by (simp add: inv_pop_def nobody_waits)
next
  case (notify_notFull i ts v j q ac tk)
  then obtain w where j: "ts ! j = PushWaiting w" by (cases "ts ! j") auto
  then have first: "inv_pop q (ts[j := woken (ts ! j)])" using notify_notFull by (auto intro!: inv_pop_move)
  have nth: "ts[j := woken (ts ! j)] ! i = PopNotify v" using notify_notFull j by (cases "i = j") auto
  have "inv_pop q (ts[j := woken (ts ! j), i := PopDone (Some v)])"
    by (rule inv_pop_move [OF first]) (use notify_notFull(1) nth in simp_all)
  then show ?case by simp
next
  case (notify_all_notEmpty i ts q ac tk)
  then show ?case by (simp add: inv_pop_def all_woken)
next
  case (notify_all_notFull i ts q ac tk)
  then show ?case by (auto intro!: inv_pop_move inv_pop_others_woken)
next
  case (spurious i ts q ac tk)
  then show ?case by (cases "ts ! i") (auto intro!: inv_pop_move)
qed (auto simp: section_defs intro!: inv_pop_move split: if_splits list.splits)

lemma push_step: "queue_step sy sy' \<Longrightarrow> inv_push (sys_queue sy) (sys_threads sy) \<Longrightarrow> inv_push (sys_queue sy') (sys_threads sy')"
proof (induction rule: queue_step.induct)
  case (call i ts s' v q ac tk)
  then show ?case using at_rest_nothing [of "ts ! i"] by (auto intro!: inv_push_move)
next
  case (notify_notFull i ts v j q ac tk)
  then show ?case by (simp add: inv_push_wake_one)
next
  case (notify_notFull_nobody i ts v q ac tk)
  then show ?case by (simp add: inv_push_def nobody_waits)
next
  case (notify_notEmpty i ts j q ac tk)
  then have j: "ts ! j = PopWaiting" by (cases "ts ! j") auto
  then have first: "inv_push q (ts[j := woken (ts ! j)])" using notify_notEmpty by (auto intro!: inv_push_move)
  have nth: "ts[j := woken (ts ! j)] ! i = PushNotify" using notify_notEmpty j by (cases "i = j") auto
  have "inv_push q (ts[j := woken (ts ! j), i := PushDone True])"
    by (rule inv_push_move [OF first]) (use notify_notEmpty(1) nth in simp_all)
  then show ?case by simp
next
  case (notify_all_notFull i ts q ac tk)
  then show ?case by (simp add: inv_push_def all_woken)
next
  case (notify_all_notEmpty i ts q ac tk)
  then show ?case by (auto intro!: inv_push_move inv_push_others_woken)
next
  case (spurious i ts q ac tk)
  then show ?case by (cases "ts ! i") (auto intro!: inv_push_move)
qed (auto simp: section_defs intro!: inv_push_move split: if_splits list.splits)

lemma reachable_inv:
  "queue_step\<^sup>*\<^sup>* (queue_start capacity threads) sy \<Longrightarrow>
     inv_fifo sy \<and> inv_pop (sys_queue sy) (sys_threads sy) \<and> inv_push (sys_queue sy) (sys_threads sy) \<and>
     q_capacity (sys_queue sy) = max 1 capacity"
proof (induction rule: rtranclp_induct)
  case base
  have "how_many P (replicate threads Idle) = 0" if "\<not> P Idle" for P :: "'a thread_state \<Rightarrow> bool"
    using that by (simp add: how_many_def)
  then show ?case
    by (simp add: queue_start_def inv_fifo_def inv_pop_def inv_push_def new_ThreadSafeQueue_def)
next
  case (step sy sy')
  have "q_capacity (sys_queue sy') = q_capacity (sys_queue sy)"
    using step(2) by (cases rule: queue_step.cases) (auto simp: section_defs split: if_splits list.splits)
  then show ?case using step fifo_step pop_step push_step by metis
qed

definition quiescent :: "'a system \<Rightarrow> bool" where
  "quiescent sy \<longleftrightarrow> list_all (\<lambda>s. at_rest s \<or> pop_waiting s \<or> push_waiting s) (sys_threads sy)"

lemma quiescent_nobody:
  assumes "quiescent sy" and "\<And>s. P s \<Longrightarrow> \<not> (at_rest s \<or> pop_waiting s \<or> push_waiting s)"
  shows "how_many P (sys_threads sy) = 0"
  using assms by (auto simp: quiescent_def how_many_zero list_all_iff)

lemma how_many_member: "s \<in> set ts \<Longrightarrow> P s \<Longrightarrow> 0 < how_many P ts"
  by (auto simp: how_many_def filter_empty_conv)

section \<open>Properties\<close>

text \<open>
  C23. Under every interleaving of any number of producers, consumers and closers, the queue is a
  bounded FIFO: what has left it followed by what is still in it is exactly what was accepted, in
  the order of acceptance, and it never holds more than its capacity.
\<close>

theorem queue_fifo_bounded:
  assumes "queue_step\<^sup>*\<^sup>* (queue_start capacity threads) sy"
  shows "sys_accepted sy = sys_taken sy @ q_items (sys_queue sy) \<and>
     length (q_items (sys_queue sy)) \<le> max 1 capacity"
  using reachable_inv [OF assms] by (auto simp: inv_fifo_def)

text \<open>One producer fills a queue of one slot, a second one blocks on it.\<close>

definition demo_system :: "nat system" where
  "demo_system = \<lparr>sys_queue = \<lparr>q_items = [7], q_capacity = 1, q_closed = False\<rparr>,
     sys_threads = [PushDone True, PushWaiting 8], sys_accepted = [7], sys_taken = []\<rparr>"

lemma demo_system_reachable: "queue_step\<^sup>*\<^sup>* (queue_start 1 2) demo_system"
proof -
  let ?q0 = "\<lparr>q_items = [], q_capacity = 1, q_closed = False\<rparr> :: nat ThreadSafeQueue"
    and ?q1 = "\<lparr>q_items = [7], q_capacity = 1, q_closed = False\<rparr> :: nat ThreadSafeQueue"
  let ?s0 = "\<lparr>sys_queue = ?q0, sys_threads = [Idle, Idle], sys_accepted = [], sys_taken = []\<rparr>"
    and ?s1 = "\<lparr>sys_queue = ?q0, sys_threads = [Pushing 7, Idle], sys_accepted = [], sys_taken = []\<rparr>"
    and ?s2 = "\<lparr>sys_queue = ?q1, sys_threads = [PushNotify, Idle], sys_accepted = [7], sys_taken = []\<rparr>"
    and ?s3 = "\<lparr>sys_queue = ?q1, sys_threads = [PushDone True, Idle], sys_accepted = [7], sys_taken = []\<rparr>"
    and ?s4 = "\<lparr>sys_queue = ?q1, sys_threads = [PushDone True, Pushing 8], sys_accepted = [7], sys_taken = []\<rparr>"
  have start: "queue_start 1 2 = ?s0" by (simp add: queue_start_def new_ThreadSafeQueue_def numeral_2_eq_2)
  have s1: "queue_step ?s0 ?s1" using call [of 0 "[Idle, Idle]" "Pushing 7" 7 ?q0 "[]" "[]"] by simp
  have s2: "queue_step ?s1 ?s2"
    using push_section [of 0 "[Pushing 7, Idle]" 7 ?q0 PushNotify ?q1 "[]" "[]"] by (simp add: push_def entered_def)
  have s3: "queue_step ?s2 ?s3" using notify_notEmpty_nobody [of 0 "[PushNotify, Idle]" ?q1 "[7]" "[]"] by simp
  have s4: "queue_step ?s3 ?s4" using call [of 1 "[PushDone True, Idle]" "Pushing 8" 8 ?q1 "[7]" "[]"] by simp
  have s5: "queue_step ?s4 demo_system"
    using push_section [of 1 "[PushDone True, Pushing 8]" 8 ?q1 "PushWaiting 8" ?q1 "[7]" "[]"]
    by (simp add: push_def entered_def demo_system_def)
  note step = converse_rtranclp_into_rtranclp [of queue_step]
  show ?thesis unfolding start
    by (rule step [OF s1], rule step [OF s2], rule step [OF s3], rule step [OF s4], rule r_into_rtranclp [of queue_step, OF s5])
qed

theorem queue_fifo_bounded_witness:
  "queue_step\<^sup>*\<^sup>* (queue_start 1 2) demo_system \<and> length (q_items (sys_queue demo_system)) \<le> max 1 1"
  using queue_fifo_bounded [OF demo_system_reachable] demo_system_reachable by blast

text \<open>
  C12. No wakeup is lost: when every thread has returned or is blocked, a blocked consumer means that
  the queue is open and empty, and a blocked producer that it is open and full. In particular, once
  the queue is closed no call stays blocked.
\<close>

theorem no_lost_wakeup:
  assumes "queue_step\<^sup>*\<^sup>* (queue_start capacity threads) sy" and "quiescent sy" and "s \<in> set (sys_threads sy)"
  shows "(pop_waiting s \<longrightarrow> \<not> q_closed (sys_queue sy) \<and> q_items (sys_queue sy) = []) \<and>
     (push_waiting s \<longrightarrow> \<not> q_closed (sys_queue sy) \<and> length (q_items (sys_queue sy)) = max 1 capacity)"
proof -
  note inv = reachable_inv [OF assms(1)]
  have "how_many will_pop (sys_threads sy) = 0" "how_many notifies_notEmpty (sys_threads sy) = 0"
    "how_many will_push (sys_threads sy) = 0" "how_many notifies_notFull (sys_threads sy) = 0"
    by (rule quiescent_nobody [OF assms(2)]; case_tac s; simp)+
  moreover have "pop_waiting s \<Longrightarrow> 0 < how_many pop_waiting (sys_threads sy)"
    "push_waiting s \<Longrightarrow> 0 < how_many push_waiting (sys_threads sy)" using how_many_member [OF assms(3)] by auto
  ultimately show ?thesis using inv by (auto simp: inv_fifo_def inv_pop_def inv_push_def split: if_splits)
qed

theorem no_lost_wakeup_witness:
  "queue_step\<^sup>*\<^sup>* (queue_start 1 2) demo_system \<and> quiescent demo_system \<and> push_waiting (PushWaiting 8 :: nat thread_state) \<and>
   length (q_items (sys_queue demo_system)) = max 1 1"
proof -
  have "quiescent demo_system" "PushWaiting 8 \<in> set (sys_threads demo_system)"
    by (simp_all add: quiescent_def demo_system_def)
  then show ?thesis using no_lost_wakeup [OF demo_system_reachable, of "PushWaiting 8"] demo_system_reachable by simp
qed

text \<open>
  Closing is final and loses nothing: after it no value is accepted any more, and a consumer is
  told that the queue is finished only when it is closed and everything accepted has been taken.
\<close>

lemma close_drains:
  assumes "queue_step\<^sup>*\<^sup>* (queue_start capacity threads) sy" and "q_closed (sys_queue sy)" and "queue_step sy sy'"
  shows "q_closed (sys_queue sy') \<and> sys_accepted sy' = sys_accepted sy \<and>
     (pop (sys_queue sy) = (PopDone None, sys_queue sy) \<longrightarrow> sys_taken sy = sys_accepted sy)"
proof -
  have "q_closed (sys_queue sy') \<and> sys_accepted sy' = sys_accepted sy"
    using assms(3,2)
    by (cases rule: queue_step.cases) (auto simp: section_defs entered_def split: if_splits list.splits)
  moreover have "pop (sys_queue sy) = (PopDone None, sys_queue sy) \<longrightarrow> q_items (sys_queue sy) = []"
    by (auto simp: pop_def split: if_splits list.splits)
  moreover have "sys_accepted sy = sys_taken sy @ q_items (sys_queue sy)"
    using reachable_inv [OF assms(1)] by (simp add: inv_fifo_def)
  ultimately show ?thesis by auto
qed

end
