(* ===== verification/Engine.thy ===== *)
theory Engine
  imports Command_Log Thread_Safe_Queue
begin

text \<open>
  \<^verbatim>\<open>core/engine.hpp\<close> and \<^verbatim>\<open>core/engine.cpp\<close>: the thread that owns the book. It pops commands, appends
  each to the log if there is one, executes it, reports the fills and counts the outcome.

  The log is a parameter: a function \<open>appendTo\<close> on the state of an implementation of
  \<^verbatim>\<open>ICommandLog\<close>, with an environment \<open>env\<close> for what its system calls answer. The fill handler is a
  parameter too: a function that says whether the handler throws; the fills handed to it are
  recorded in \<open>eng_delivered\<close>. The lemmas about an arbitrary log are proved in the locale of its
  interface.
\<close>

section \<open>Model\<close>

record 'log Engine =
  eng_book :: Book
  eng_queue :: "Command ThreadSafeQueue"
  eng_log :: "'log option"
  eng_running :: bool
  eng_started :: bool
  eng_stopping :: bool
  eng_processed :: nat
  eng_rejected :: nat
  eng_fills :: nat
  eng_storageFailures :: nat
  eng_delivered :: "Fill list"

definition new_Engine :: "nat \<Rightarrow> 'log option \<Rightarrow> 'log Engine" where
  "new_Engine capacity log =
     \<lparr>eng_book = new_Book, eng_queue = new_ThreadSafeQueue capacity, eng_log = log,
      eng_running = False, eng_started = False, eng_stopping = False,
      eng_processed = 0, eng_rejected = 0, eng_fills = 0, eng_storageFailures = 0, eng_delivered = []\<rparr>"

type_synonym fill_handler = "(Fill \<Rightarrow> exchange_error option) option"

type_synonym ('env, 'log) append_operation = "'env \<Rightarrow> Command \<Rightarrow> 'log \<Rightarrow> (Sequence result \<times> 'log) option"

text \<open>The loop over the fills of one command; an exception of the handler ends it.\<close>

fun report_fills :: "fill_handler \<Rightarrow> Fill list \<Rightarrow> 'log Engine \<Rightarrow> unit result \<times> 'log Engine" where
  "report_fills onFill [] eng = (Inr (), eng)"
| "report_fills onFill (fill # fills) eng =
     (let eng1 = eng\<lparr>eng_fills := eng_fills eng + 1\<rparr>
      in case onFill of
           None \<Rightarrow> report_fills onFill fills eng1
         | Some handler \<Rightarrow>
             (let eng2 = eng1\<lparr>eng_delivered := eng_delivered eng1 @ [fill]\<rparr>
              in case handler fill of
                   Some e \<Rightarrow> (Inl e, eng2)
                 | None \<Rightarrow> report_fills onFill fills eng2))"

definition mutate :: "fill_handler \<Rightarrow> Command \<Rightarrow> 'log Engine \<Rightarrow> (unit result \<times> 'log Engine) option" where
  "mutate onFill command eng = do {
     (r, bk) \<leftarrow> applyCommand price_time_plan command (eng_book eng);
     let eng1 = eng\<lparr>eng_book := bk\<rparr>;
     Some (case r of
             Inl e \<Rightarrow> (Inl e, eng1)
           | Inr outcome \<Rightarrow>
               (case report_fills onFill (ao_fills outcome) eng1 of
                  (Inl e, eng2) \<Rightarrow> (Inl e, eng2)
                | (Inr u, eng2) \<Rightarrow>
                    (Inr (), if ao_accepted outcome
                             then eng2\<lparr>eng_processed := eng_processed eng2 + 1\<rparr>
                             else eng2\<lparr>eng_rejected := eng_rejected eng2 + 1\<rparr>)))
   }"

definition engine_apply ::
  "('env, 'log) append_operation \<Rightarrow> fill_handler \<Rightarrow> 'env \<Rightarrow> Command \<Rightarrow> 'log Engine \<Rightarrow>
     (unit result \<times> 'log Engine) option" where
  "engine_apply appendTo onFill env command eng =
     (case eng_log eng of
        None \<Rightarrow> mutate onFill command eng
      | Some log \<Rightarrow> do {
          (r, log') \<leftarrow> appendTo env command log;
          let eng1 = eng\<lparr>eng_log := Some log'\<rparr>;
          case r of
            Inl e \<Rightarrow> Some (Inl e, eng1)
          | Inr n \<Rightarrow> mutate onFill command eng1
        })"

text \<open>The body of the loop, with its three handlers; no exception leaves it.\<close>

definition handle ::
  "('env, 'log) append_operation \<Rightarrow> fill_handler \<Rightarrow> 'env \<Rightarrow> Command \<Rightarrow> 'log Engine \<Rightarrow> 'log Engine option" where
  "handle appendTo onFill env command eng = do {
     (r, eng1) \<leftarrow> engine_apply appendTo onFill env command eng;
     Some (case r of
             Inr u \<Rightarrow> eng1
           | Inl StorageError \<Rightarrow> eng1\<lparr>eng_storageFailures := eng_storageFailures eng1 + 1\<rparr>
           | Inl _ \<Rightarrow> eng1\<lparr>eng_rejected := eng_rejected eng1 + 1\<rparr>)
   }"

lemma report_fills_frame:
  "report_fills onFill fs eng = (r, eng') \<Longrightarrow> eng_queue eng' = eng_queue eng \<and> eng_book eng' = eng_book eng \<and>
     eng_log eng' = eng_log eng \<and> eng_running eng' = eng_running eng \<and> eng_storageFailures eng' = eng_storageFailures eng \<and>
     eng_processed eng' = eng_processed eng \<and> eng_rejected eng' = eng_rejected eng"
proof (induction fs arbitrary: eng)
  case (Cons f fs)
  show ?case
  proof (cases onFill)
    case None
    then show ?thesis using Cons.prems Cons.IH [of "eng\<lparr>eng_fills := eng_fills eng + 1\<rparr>"] by (simp add: Let_def)
  next
    case (Some handler)
    let ?eng = "eng\<lparr>eng_fills := eng_fills eng + 1, eng_delivered := eng_delivered eng @ [f]\<rparr>"
    show ?thesis
      using Cons.prems Cons.IH [of ?eng] Some by (cases "handler f") (auto simp: Let_def)
  qed
qed simp

lemma mutate_cases:
  assumes "mutate onFill c eng = Some (r, eng')"
  obtains out bk where "applyCommand price_time_plan c (eng_book eng) = Some (out, bk)"
    and "eng_book eng' = bk" and "eng_queue eng' = eng_queue eng" and "eng_log eng' = eng_log eng"
    and "eng_running eng' = eng_running eng" and "eng_storageFailures eng' = eng_storageFailures eng"
    and "eng_processed eng' + eng_rejected eng' + (if isl r then 1 else 0) = eng_processed eng + eng_rejected eng + 1"
proof -
  obtain out bk where a: "applyCommand price_time_plan c (eng_book eng) = Some (out, bk)"
    using assms by (auto simp: mutate_def split: Option.bind_splits)
  show ?thesis
  proof (cases out)
    case (Inl e)
    then show ?thesis using assms a by (intro that [OF a]) (auto simp: mutate_def Let_def)
  next
    case (Inr outcome)
    obtain r2 eng2 where f: "report_fills onFill (ao_fills outcome) (eng\<lparr>eng_book := bk\<rparr>) = (r2, eng2)" by fastforce
    note frame = report_fills_frame [OF f]
    have eng': "(r, eng') = (case r2 of Inl e \<Rightarrow> (Inl e, eng2)
        | Inr u \<Rightarrow> (Inr (), if ao_accepted outcome then eng2\<lparr>eng_processed := eng_processed eng2 + 1\<rparr>
             else eng2\<lparr>eng_rejected := eng_rejected eng2 + 1\<rparr>))"
      using assms a Inr f by (auto simp: mutate_def Let_def split: sum.splits)
    show ?thesis
      by (rule that [OF a]) (use frame eng' in \<open>auto split: sum.splits if_splits\<close>)
  qed
qed

lemma handle_queue: "handle appendTo onFill env c eng = Some eng' \<Longrightarrow> eng_queue eng' = eng_queue eng"
  by (auto simp: handle_def engine_apply_def Let_def elim!: mutate_cases
      split: Option.bind_splits option.splits sum.splits exchange_error.splits)

lemma pop_PopNotify: "pop q = (PopNotify x, q') \<longleftrightarrow> (\<exists>xs. q_items q = x # xs \<and> q' = q\<lparr>q_items := xs\<rparr>)"
  by (auto simp: pop_def split: if_splits list.splits)

text \<open>
  The thread function: pop until the queue is closed and drained. When \<^verbatim>\<open>pop\<close> would block, the
  engine waits for producers and the function returns its state; \<open>envs k\<close> is the environment of the
  \<open>k\<close>-th command.
\<close>

function run ::
  "('env, 'log) append_operation \<Rightarrow> fill_handler \<Rightarrow> (nat \<Rightarrow> 'env) \<Rightarrow> nat \<Rightarrow> 'log Engine \<Rightarrow> 'log Engine option" where
  "run appendTo onFill envs k eng =
     (case pop (eng_queue eng) of
        (PopNotify command, q) \<Rightarrow> do {
          eng1 \<leftarrow> handle appendTo onFill (envs k) command (eng\<lparr>eng_queue := q\<rparr>);
          run appendTo onFill envs (k + 1) eng1
        }
      | (PopWaiting, q) \<Rightarrow> Some eng
      | (s, q) \<Rightarrow> Some (eng\<lparr>eng_running := False\<rparr>))"
  by pat_completeness auto

termination
  by (relation "measure (\<lambda>(appendTo, onFill, envs, k, eng). length (q_items (eng_queue eng)))")
     (auto simp: pop_PopNotify dest!: handle_queue sym [of "(PopNotify x, q)" "pop r" for x q r])

definition engine_start ::
  "('env, 'log) append_operation \<Rightarrow> fill_handler \<Rightarrow> (nat \<Rightarrow> 'env) \<Rightarrow> 'log Engine \<Rightarrow> 'log Engine option" where
  "engine_start appendTo onFill envs eng =
     (if eng_started eng then Some eng
      else run appendTo onFill envs 0 (eng\<lparr>eng_started := True, eng_running := True\<rparr>))"

text \<open>\<^verbatim>\<open>submit\<close> and \<^verbatim>\<open>trySubmit\<close>; a producer that finds the queue full blocks, and has not changed it yet.\<close>

definition engine_submit :: "Command \<Rightarrow> 'log Engine \<Rightarrow> bool option \<times> 'log Engine" where
  "engine_submit command eng =
     (case push command (eng_queue eng) of
        (PushNotify, q) \<Rightarrow> (Some True, eng\<lparr>eng_queue := q\<rparr>)
      | (PushDone b, q) \<Rightarrow> (Some b, eng\<lparr>eng_queue := q\<rparr>)
      | (s, q) \<Rightarrow> (None, eng))"

definition engine_trySubmit :: "Command \<Rightarrow> 'log Engine \<Rightarrow> bool \<times> 'log Engine" where
  "engine_trySubmit command eng =
     (case tryPush command (eng_queue eng) of
        (PushNotify, q) \<Rightarrow> (True, eng\<lparr>eng_queue := q\<rparr>)
      | (s, q) \<Rightarrow> (False, eng))"

text \<open>
  Stopping closes the queue, joins the thread, which drains what is left, and flushes the log; an
  exception of the flush is dropped.
\<close>

definition engine_stop ::
  "('env, 'log) append_operation \<Rightarrow> ('env \<Rightarrow> 'log \<Rightarrow> unit result \<times> 'log) \<Rightarrow> fill_handler \<Rightarrow>
     (nat \<Rightarrow> 'env) \<Rightarrow> 'env \<Rightarrow> 'log Engine \<Rightarrow> 'log Engine option" where
  "engine_stop appendTo flush onFill envs env eng =
     (if eng_stopping eng then Some eng
      else do {
        let eng1 = eng\<lparr>eng_stopping := True, eng_queue := snd (close (eng_queue eng))\<rparr>;
        eng2 \<leftarrow> (if eng_started eng1 then run appendTo onFill envs 0 eng1 else Some eng1);
        Some (case eng_log eng2 of
                None \<Rightarrow> eng2
              | Some log \<Rightarrow> eng2\<lparr>eng_log := Some (snd (flush env log))\<rparr>)
      })"

section \<open>One command\<close>

lemma handle_cases:
  assumes "handle appendTo onFill env c eng = Some eng'"
  obtains (executed) out bk where "applyCommand price_time_plan c (eng_book eng) = Some (out, bk)" "eng_book eng' = bk"
      "eng_log eng = None \<longrightarrow> eng_log eng' = None"
      "\<And>log. eng_log eng = Some log \<Longrightarrow> \<exists>n log'. appendTo env c log = Some (Inr n, log') \<and> eng_log eng' = Some log'"
      "eng_running eng' = eng_running eng"
      "eng_processed eng' + eng_rejected eng' + eng_storageFailures eng' = eng_processed eng + eng_rejected eng + eng_storageFailures eng + 1"
      "eng_storageFailures eng \<le> eng_storageFailures eng'"
  | (not_logged) log e log' where "eng_log eng = Some log" "appendTo env c log = Some (Inl e, log')"
      "eng_book eng' = eng_book eng" "eng_log eng' = Some log'" "eng_running eng' = eng_running eng"
      "eng_processed eng' + eng_rejected eng' + eng_storageFailures eng' = eng_processed eng + eng_rejected eng + eng_storageFailures eng + 1"
      "eng_storageFailures eng' = eng_storageFailures eng + (if e = StorageError then 1 else 0)"
proof -
  obtain r eng1 where a: "engine_apply appendTo onFill env c eng = Some (r, eng1)"
    and eng': "eng' = (case r of Inr u \<Rightarrow> eng1 | Inl StorageError \<Rightarrow> eng1\<lparr>eng_storageFailures := eng_storageFailures eng1 + 1\<rparr>
       | Inl _ \<Rightarrow> eng1\<lparr>eng_rejected := eng_rejected eng1 + 1\<rparr>)"
    using assms by (auto simp: handle_def split: Option.bind_splits)
  have fin: thesis if m: "mutate onFill c eng2 = Some (r, eng1)" and e2: "eng2 = eng\<lparr>eng_log := log2\<rparr>"
    and l: "eng_log eng = None \<longrightarrow> log2 = None"
      "\<And>log. eng_log eng = Some log \<Longrightarrow> \<exists>n log'. appendTo env c log = Some (Inr n, log') \<and> log2 = Some log'" for eng2 log2
    using m
  proof (cases rule: mutate_cases)
    case (1 out bk)
    show thesis
      by (rule executed [of out bk])
         (use 1 e2 l eng' in \<open>auto split: sum.splits exchange_error.splits\<close>)
  qed
  show thesis
  proof (cases "eng_log eng")
    case None
    then show ?thesis using a by (intro fin [of eng None]) (auto simp: engine_apply_def)
  next
    case (Some log)
    then obtain r1 log' where ap: "appendTo env c log = Some (r1, log')"
      using a by (auto simp: engine_apply_def split: Option.bind_splits)
    show ?thesis
    proof (cases r1)
      case (Inl e)
      then have "r = Inl e" "eng1 = eng\<lparr>eng_log := Some log'\<rparr>" using a Some ap by (auto simp: engine_apply_def Let_def)
      then show ?thesis
        using Some ap Inl eng' by (intro not_logged [of log e log']) (auto split: exchange_error.splits)
    next
      case (Inr n)
      then show ?thesis using a Some ap
        by (intro fin [of "eng\<lparr>eng_log := Some log'\<rparr>" "Some log'"]) (auto simp: engine_apply_def Let_def)
    qed
  qed
qed

section \<open>The thread\<close>

declare run.simps [simp del]

lemma run_step:
  "q_items (eng_queue eng) = c # cs \<Longrightarrow> run appendTo onFill envs k eng =
     do { eng1 \<leftarrow> handle appendTo onFill (envs k) c (eng\<lparr>eng_queue := (eng_queue eng)\<lparr>q_items := cs\<rparr>\<rparr>);
          run appendTo onFill envs (k + 1) eng1 }"
  by (subst run.simps) (simp add: pop_def)

lemma run_drained:
  "q_items (eng_queue eng) = [] \<Longrightarrow> run appendTo onFill envs k eng =
     Some (if q_closed (eng_queue eng) then eng\<lparr>eng_running := False\<rparr> else eng)"
  by (subst run.simps) (simp add: pop_def)

lemma run_induct [consumes 1, case_names drained step]:
  assumes "run appendTo onFill envs k eng = Some eng'"
    and "\<And>k eng. q_items (eng_queue eng) = [] \<Longrightarrow>
      P k eng (if q_closed (eng_queue eng) then eng\<lparr>eng_running := False\<rparr> else eng)"
    and "\<And>k eng c cs eng1 eng'. q_items (eng_queue eng) = c # cs \<Longrightarrow>
      handle appendTo onFill (envs k) c (eng\<lparr>eng_queue := (eng_queue eng)\<lparr>q_items := cs\<rparr>\<rparr>) = Some eng1 \<Longrightarrow>
      run appendTo onFill envs (k + 1) eng1 = Some eng' \<Longrightarrow> P (k + 1) eng1 eng' \<Longrightarrow> P k eng eng'"
  shows "P k eng eng'"
  using assms(1)
proof (induction "length (q_items (eng_queue eng))" arbitrary: k eng)
  case 0
  then show ?case using assms(2) [of eng k] run_drained [of eng appendTo onFill envs k] by simp
next
  case (Suc n)
  then obtain c cs where items: "q_items (eng_queue eng) = c # cs" by (cases "q_items (eng_queue eng)") auto
  then obtain eng1 where h: "handle appendTo onFill (envs k) c (eng\<lparr>eng_queue := (eng_queue eng)\<lparr>q_items := cs\<rparr>\<rparr>) = Some eng1"
    and r: "run appendTo onFill envs (k + 1) eng1 = Some eng'"
    using Suc.prems run_step [OF items, of appendTo onFill envs k] by (auto split: Option.bind_splits)
  have "n = length (q_items (eng_queue eng1))" using handle_queue [OF h] items Suc.hyps(2) by simp
  then show ?case using assms(3) [OF items h r] Suc.hyps(1) r by blast
qed

lemma run_failures_mono: "run appendTo onFill envs k eng = Some eng' \<Longrightarrow> eng_storageFailures eng \<le> eng_storageFailures eng'"
proof (induction rule: run_induct)
  case (step k eng c cs eng1 eng')
  from step(2) have "eng_storageFailures eng \<le> eng_storageFailures eng1" by (cases rule: handle_cases) auto
  then show ?case using step(4) by simp
qed simp

text \<open>Everything queued is handled, and every command is counted exactly once.\<close>

lemma run_drains:
  "run appendTo onFill envs k eng = Some eng' \<Longrightarrow>
     eng_queue eng' = (eng_queue eng)\<lparr>q_items := []\<rparr> \<and>
     eng_running eng' = (eng_running eng \<and> \<not> q_closed (eng_queue eng)) \<and>
     eng_processed eng' + eng_rejected eng' + eng_storageFailures eng' =
       eng_processed eng + eng_rejected eng + eng_storageFailures eng + length (q_items (eng_queue eng))"
proof (induction rule: run_induct)
  case (step k eng c cs eng1 eng')
  have q: "eng_queue eng1 = (eng_queue eng)\<lparr>q_items := cs\<rparr>" using handle_queue [OF step(2)] by simp
  from step(2) have "eng_running eng1 = eng_running eng"
    "eng_processed eng1 + eng_rejected eng1 + eng_storageFailures eng1 =
       eng_processed eng + eng_rejected eng + eng_storageFailures eng + 1" by (cases rule: handle_cases; simp)+
  then show ?case using step(1,4) q by simp
qed simp

text \<open>Without a log, the engine executes the queued commands one after the other, as \<^verbatim>\<open>applyCommand\<close> does.\<close>

lemma run_serial:
  "run appendTo onFill envs k eng = Some eng' \<Longrightarrow> eng_log eng = None \<Longrightarrow>
     \<exists>rs. apply_all price_time_plan (q_items (eng_queue eng)) (eng_book eng) = Some (rs, eng_book eng')"
proof (induction rule: run_induct)
  case (step k eng c cs eng1 eng')
  have q: "q_items (eng_queue eng1) = cs" using handle_queue [OF step(2)] by simp
  from step(2,5) obtain out where "applyCommand price_time_plan c (eng_book eng) = Some (out, eng_book eng1)" "eng_log eng1 = None"
    by (cases rule: handle_cases) auto
  then show ?case using step(1,4) q by auto
qed simp

lemma handle_total:
  assumes "applyCommand price_time_plan c (eng_book eng) = Some (r, bk)" and "eng_log eng = None"
  shows "\<exists>eng'. handle appendTo onFill env c eng = Some eng'"
  using assms by (simp add: handle_def engine_apply_def mutate_def Let_def split: prod.split)

lemma run_total:
  assumes "eng_log eng = None" and "book_ok (eng_book eng)" and "plain_book (eng_book eng)"
    and "list_all plain_command (q_items (eng_queue eng))"
  shows "\<exists>eng'. run appendTo onFill envs k eng = Some eng'"
  using assms
proof (induction "q_items (eng_queue eng)" arbitrary: eng k)
  case Nil
  then show ?case using run_drained [of eng appendTo onFill envs k] by simp
next
  case (Cons c cs)
  let ?eng = "eng\<lparr>eng_queue := (eng_queue eng)\<lparr>q_items := cs\<rparr>\<rparr>"
  obtain out bk where a: "applyCommand price_time_plan c (eng_book ?eng) = Some (out, bk)" "book_ok bk" "plain_book bk"
    using applyCommand_plain [of "eng_book eng" c] Cons.prems Cons.hyps(2) [symmetric] by auto
  obtain eng1 where h: "handle appendTo onFill (envs k) c ?eng = Some eng1"
    using handle_total [OF a(1), of appendTo onFill "envs k"] Cons.prems(1) by auto
  have e: "eng_log eng1 = None" "eng_book eng1 = bk"
    using h a(1) Cons.prems(1) by (cases rule: handle_cases; simp)+
  have "\<exists>eng'. run appendTo onFill envs (k + 1) eng1 = Some eng'"
    using handle_queue [OF h] Cons.prems(4) Cons.hyps(2) [symmetric] e a(2,3) by (intro Cons.hyps(1)) auto
  then show ?case using run_step [OF Cons.hyps(2) [symmetric], of appendTo onFill envs k] h by simp
qed

section \<open>Producers, the engine thread and shutdown interleaved\<close>

text \<open>
  Each step is one critical section of the queue together with what its thread does until the next
  one. The second component is the ghost list of the commands accepted so far.
\<close>

inductive engine_step ::
  "('env, 'log) append_operation \<Rightarrow> fill_handler \<Rightarrow> 'log Engine \<times> Command list \<Rightarrow> 'log Engine \<times> Command list \<Rightarrow> bool"
  for appendTo onFill where
  launch: "\<not> eng_started eng \<Longrightarrow>
    engine_step appendTo onFill (eng, ac) (eng\<lparr>eng_started := True, eng_running := True\<rparr>, ac)"
| submitted: "engine_submit c eng = (Some b, eng') \<Longrightarrow>
    engine_step appendTo onFill (eng, ac) (eng', if b then ac @ [c] else ac)"
| try_submitted: "engine_trySubmit c eng = (b, eng') \<Longrightarrow>
    engine_step appendTo onFill (eng, ac) (eng', if b then ac @ [c] else ac)"
| handled: "\<lbrakk>eng_running eng; pop (eng_queue eng) = (PopNotify c, q);
     handle appendTo onFill env c (eng\<lparr>eng_queue := q\<rparr>) = Some eng'\<rbrakk> \<Longrightarrow>
    engine_step appendTo onFill (eng, ac) (eng', ac)"
| finished: "\<lbrakk>eng_running eng; pop (eng_queue eng) = (PopDone None, q)\<rbrakk> \<Longrightarrow>
    engine_step appendTo onFill (eng, ac) (eng\<lparr>eng_running := False\<rparr>, ac)"
| stopped: "close (eng_queue eng) = (s, q) \<Longrightarrow>
    engine_step appendTo onFill (eng, ac) (eng\<lparr>eng_stopping := True, eng_queue := q\<rparr>, ac)"

lemma engine_submit_cases:
  "engine_submit c eng = (Some b, eng') \<Longrightarrow>
     (b \<and> \<not> q_closed (eng_queue eng) \<and> eng' = eng\<lparr>eng_queue := (eng_queue eng)\<lparr>q_items := q_items (eng_queue eng) @ [c]\<rparr>\<rparr>) \<or>
     (\<not> b \<and> eng' = eng)"
  by (auto simp: engine_submit_def push_def split: if_splits)

lemma engine_trySubmit_cases:
  "engine_trySubmit c eng = (b, eng') \<Longrightarrow>
     (b \<and> \<not> q_closed (eng_queue eng) \<and> eng' = eng\<lparr>eng_queue := (eng_queue eng)\<lparr>q_items := q_items (eng_queue eng) @ [c]\<rparr>\<rparr>) \<or>
     (\<not> b \<and> eng' = eng)"
  by (auto simp: engine_trySubmit_def tryPush_def split: if_splits)

lemma pop_PopDone: "pop q = (PopDone r, q') \<longleftrightarrow> r = None \<and> q_closed q \<and> q_items q = [] \<and> q' = q"
  by (auto simp: pop_def split: if_splits list.splits)

text \<open>
  What holds at every moment: the accepted commands are those taken, in order, followed by those
  queued; every one taken is counted once; and a thread that has ended has left nothing behind.
\<close>

definition accounted :: "'log Engine \<Rightarrow> Command list \<Rightarrow> Command list \<Rightarrow> bool" where
  "accounted eng ac taken \<longleftrightarrow> ac = taken @ q_items (eng_queue eng) \<and>
     eng_processed eng + eng_rejected eng + eng_storageFailures eng = length taken \<and>
     (eng_started eng \<and> \<not> eng_running eng \<longrightarrow> q_closed (eng_queue eng) \<and> q_items (eng_queue eng) = []) \<and>
     (eng_running eng \<longrightarrow> eng_started eng)"

text \<open>The book is the serial execution of the commands taken, and the log, if any, has recorded them.\<close>

definition executed_serially :: "'log Engine \<Rightarrow> Command list \<Rightarrow> bool" where
  "executed_serially eng taken \<longleftrightarrow> (\<exists>rs. apply_all price_time_plan taken new_Book = Some (rs, eng_book eng))"

lemma handle_started: "handle appendTo onFill env c eng = Some eng' \<Longrightarrow> eng_started eng' = eng_started eng"
proof -
  have "report_fills onFill fs e = (r, e') \<Longrightarrow> eng_started e' = eng_started e" for fs and e e' :: "'a Engine" and r
    by (induction fs arbitrary: e) (auto simp: Let_def split: option.splits)
  then have m: "mutate onFill c e = Some (r, e') \<Longrightarrow> eng_started e' = eng_started e" for e e' :: "'a Engine" and r
    by (auto simp: mutate_def Let_def split: Option.bind_splits sum.splits prod.splits if_splits)
  show "handle appendTo onFill env c eng = Some eng' \<Longrightarrow> eng_started eng' = eng_started eng"
    by (auto simp: handle_def engine_apply_def Let_def dest!: m
        split: Option.bind_splits option.splits sum.splits exchange_error.splits)
qed

lemma executed_step:
  "executed_serially eng taken \<Longrightarrow> applyCommand price_time_plan c (eng_book eng) = Some (out, eng_book eng') \<Longrightarrow>
     executed_serially eng' (taken @ [c])"
  by (auto simp: executed_serially_def apply_all_append)

lemma accounted_step:
  assumes "engine_step appendTo onFill (eng, ac) (eng', ac')" and "accounted eng ac taken"
  obtains (same) "accounted eng' ac' taken" "eng_book eng' = eng_book eng" "eng_log eng' = eng_log eng"
      "eng_storageFailures eng' = eng_storageFailures eng"
  | (took) c env q where "accounted eng' ac' (taken @ [c])" "handle appendTo onFill env c (eng\<lparr>eng_queue := q\<rparr>) = Some eng'"
      "c \<in> set ac" "ac' = ac"
  using assms(1)
proof (cases rule: engine_step.cases)
  case launch
  then show thesis using assms(2) by (intro same) (auto simp: accounted_def)
next
  case (submitted c b)
  then show thesis using assms(2) by (intro same) (auto simp: accounted_def dest!: engine_submit_cases)
next
  case (try_submitted c b)
  then show thesis using assms(2) by (intro same) (auto simp: accounted_def dest!: engine_trySubmit_cases)
next
  case (handled c q env)
  obtain cs where q: "q_items (eng_queue eng) = c # cs" "q = (eng_queue eng)\<lparr>q_items := cs\<rparr>"
    using handled(3) by (auto simp: pop_PopNotify)
  have e: "eng_queue eng' = q" "eng_started eng' = eng_started eng"
    using handle_queue [OF handled(4)] handle_started [OF handled(4)] by simp_all
  from handled(4) have "eng_running eng' = eng_running eng"
    "eng_processed eng' + eng_rejected eng' + eng_storageFailures eng' =
       eng_processed eng + eng_rejected eng + eng_storageFailures eng + 1" by (cases rule: handle_cases; simp)+
  then have "accounted eng' ac' (taken @ [c])" using assms(2) handled(1,2) q e by (auto simp: accounted_def)
  moreover have "c \<in> set ac" using assms(2) q by (auto simp: accounted_def)
  ultimately show thesis using handled(1,4) by (intro took) auto
next
  case (finished q)
  then show thesis using assms(2) by (intro same) (auto simp: accounted_def pop_PopDone)
next
  case (stopped s q)
  then show thesis using assms(2) by (intro same) (auto simp: accounted_def close_def)
qed

lemma accounted_new: "accounted (new_Engine capacity log) [] []" "executed_serially (new_Engine capacity log) []"
  by (simp_all add: accounted_def executed_serially_def new_Engine_def new_ThreadSafeQueue_def)


section \<open>Log and book agree\<close>

context command_log
begin

text \<open>
  As long as no append has failed, the history of the log is the sequence of commands taken: the
  record is there before the command has any effect, and every record has its effect.
\<close>

lemma handled_recorded:
  assumes "handle append onFill env c eng = Some eng'" and "eng_log eng = Some log" and "intact log"
    and "recordable c" and "eng_storageFailures eng' = eng_storageFailures eng"
  shows "\<exists>out log'. applyCommand price_time_plan c (eng_book eng) = Some (out, eng_book eng') \<and>
     eng_log eng' = Some log' \<and> intact log' \<and> history log' = history log @ [c]"
  using assms(1)
proof (cases rule: handle_cases)
  case (executed out bk)
  then obtain n log' where "append env c log = Some (Inr n, log')" "eng_log eng' = Some log'" using assms(2) by blast
  then show ?thesis using append_recorded [OF assms(3,4)] executed(1,2) by blast
next
  case (not_logged log2 e log')
  then show ?thesis using append_error [OF not_logged(2)] assms(5) by simp
qed

lemma reachable_logged:
  "(engine_step append onFill)\<^sup>*\<^sup>* (new_Engine capacity (Some log), []) (eng, ac) \<Longrightarrow> intact log \<Longrightarrow> history log = [] \<Longrightarrow>
     list_all recordable ac \<Longrightarrow>
     \<exists>taken. accounted eng ac taken \<and>
       (eng_storageFailures eng = 0 \<longrightarrow> executed_serially eng taken \<and>
          (\<exists>log'. eng_log eng = Some log' \<and> intact log' \<and> history log' = taken))"
proof (induction "(eng, ac)" arbitrary: eng ac rule: rtranclp_induct)
  case base
  then show ?case using accounted_new [of capacity "Some log"] by (auto simp: new_Engine_def)
next
  case (step y)
  obtain eng1 ac1 where y: "y = (eng1, ac1)" by (cases y)
  have "set ac1 \<subseteq> set ac" using step(2) unfolding y by (cases rule: engine_step.cases) auto
  then have r1: "list_all recordable ac1" using step(6) by (auto simp: list_all_iff)
  obtain taken where t: "accounted eng1 ac1 taken"
    and l: "eng_storageFailures eng1 = 0 \<longrightarrow> executed_serially eng1 taken \<and>
      (\<exists>log'. eng_log eng1 = Some log' \<and> intact log' \<and> history log' = taken)"
    using step(3) [OF y step(4,5) r1] by (elim exE conjE)
  from step(2) [unfolded y] t show ?case
  proof (cases rule: accounted_step)
    case same
    then show ?thesis using l by (auto simp: executed_serially_def)
  next
    case (took c env q)
    have mono: "eng_storageFailures eng1 \<le> eng_storageFailures eng"
      using took(2) by (cases rule: handle_cases) auto
    have "executed_serially eng (taken @ [c]) \<and> (\<exists>log'. eng_log eng = Some log' \<and> intact log' \<and> history log' = taken @ [c])"
      if f: "eng_storageFailures eng = 0"
    proof -
      obtain log1 where l1: "eng_log eng1 = Some log1" "intact log1" "history log1 = taken" and ex: "executed_serially eng1 taken"
        using l mono f by auto
      have "recordable c" using r1 took(3) by (auto simp: list_all_iff)
      then show ?thesis
        using handled_recorded [OF took(2), of log1] l1 mono f executed_step [OF ex] by auto
    qed
    then show ?thesis using took(1) by (intro exI [of _ "taken @ [c]"]) simp
  qed
qed

end

section \<open>Properties\<close>


definition demo_idle :: "unit Engine" where
  "demo_idle = (new_Engine 4 None)\<lparr>eng_started := True, eng_running := True\<rparr>"

definition demo_order :: Command where
  "demo_order = SubmitCommand (Some (new_LimitOrder 1 Buy 7 10 100))"

definition no_log :: "(unit, unit) append_operation" where
  "no_log env c l = None"





text \<open>
  C24. Shutdown drains: when stopping a started engine returns, whatever the log and the fill handler
  did, the queue is closed and empty, the thread has ended, and every command that was queued has
  been counted exactly once as processed, rejected or not recordable.
\<close>

theorem engine_stop_drains:
  assumes "eng_started eng" and "\<not> eng_stopping eng"
    and "engine_stop appendTo flush onFill envs env eng = Some eng'"
  shows "q_closed (eng_queue eng') \<and> q_items (eng_queue eng') = [] \<and> \<not> eng_running eng' \<and>
     eng_processed eng' + eng_rejected eng' + eng_storageFailures eng' =
       eng_processed eng + eng_rejected eng + eng_storageFailures eng + length (q_items (eng_queue eng))"
proof -
  let ?eng1 = "eng\<lparr>eng_stopping := True, eng_queue := snd (close (eng_queue eng))\<rparr>"
  obtain eng2 where r: "run appendTo onFill envs 0 ?eng1 = Some eng2"
    and e': "eng' = (case eng_log eng2 of None \<Rightarrow> eng2 | Some log \<Rightarrow> eng2\<lparr>eng_log := Some (snd (flush env log))\<rparr>)"
    using assms by (auto simp: engine_stop_def Let_def split: Option.bind_splits)
  show ?thesis using run_drains [OF r] e' by (auto simp: close_def split: option.splits)
qed

definition demo_busy :: "unit Engine" where
  "demo_busy = demo_idle\<lparr>eng_queue := (eng_queue demo_idle)\<lparr>q_items := [demo_order, demo_order, CancelCommand 9]\<rparr>\<rparr>"

theorem engine_stop_drains_witness:
  "\<exists>eng'. engine_stop no_log (\<lambda>env l. (Inr (), l)) None (\<lambda>k. ()) () demo_busy = Some eng' \<and>
     q_items (eng_queue eng') = [] \<and> eng_processed eng' + eng_rejected eng' + eng_storageFailures eng' = 3"
proof -
  have s: "eng_started demo_busy" "\<not> eng_stopping demo_busy"
    by (simp_all add: demo_busy_def demo_idle_def new_Engine_def)
  have "list_all plain_command (q_items (eng_queue demo_busy))" by code_simp
  moreover have b: "eng_book demo_busy = new_Book" "eng_log demo_busy = None"
    by (simp_all add: demo_busy_def demo_idle_def new_Engine_def)
  ultimately obtain eng2 where "run no_log None (\<lambda>k. ()) 0
      (demo_busy\<lparr>eng_stopping := True, eng_queue := snd (close (eng_queue demo_busy))\<rparr>) = Some eng2"
    using run_total [of "demo_busy\<lparr>eng_stopping := True, eng_queue := snd (close (eng_queue demo_busy))\<rparr>" no_log None "\<lambda>k. ()" 0]
      new_Book_ok by (auto simp: close_def)
  then obtain eng' where e: "engine_stop no_log (\<lambda>env l. (Inr (), l)) None (\<lambda>k. ()) () demo_busy = Some eng'"
    using s by (simp add: engine_stop_def Let_def)
  have c: "eng_processed demo_busy + eng_rejected demo_busy + eng_storageFailures demo_busy = 0"
    "length (q_items (eng_queue demo_busy)) = 3" by (simp_all add: demo_busy_def demo_idle_def new_Engine_def)
  show ?thesis using engine_stop_drains [OF s e] e c by auto
qed

text \<open>
  The engine survives every input: stopping an engine without a log whose book is sound and
  whose queue holds any commands without iceberg submissions returns, with a sound book that is the
  serial execution of those commands.
\<close>

lemma engine_survives:
  assumes "eng_log eng = None" and "eng_started eng" and "\<not> eng_stopping eng" and "book_ok (eng_book eng)"
    and "plain_book (eng_book eng)" and "list_all plain_command (q_items (eng_queue eng))"
  shows "\<exists>eng' rs. engine_stop appendTo flush onFill envs env eng = Some eng' \<and> book_ok (eng_book eng') \<and>
     apply_all price_time_plan (q_items (eng_queue eng)) (eng_book eng) = Some (rs, eng_book eng')"
proof -
  let ?eng1 = "eng\<lparr>eng_stopping := True, eng_queue := snd (close (eng_queue eng))\<rparr>"
  obtain eng2 where r: "run appendTo onFill envs 0 ?eng1 = Some eng2"
    using run_total [of ?eng1 appendTo onFill envs 0] assms by (auto simp: close_def)
  obtain rs where rs: "apply_all price_time_plan (q_items (eng_queue eng)) (eng_book eng) = Some (rs, eng_book eng2)"
    using run_serial [OF r] assms(1) by (auto simp: close_def)
  then have "book_ok (eng_book eng2)" using apply_all_plain [OF assms(4-6)] by auto
  then show ?thesis using r rs assms(2,3) by (auto simp: engine_stop_def Let_def split: option.splits)
qed

end
