(* ===== verification/Write_Ahead_Log.thy ===== *)
theory Write_Ahead_Log
  imports Wal_Record Engine
begin

text \<open>
  \<^verbatim>\<open>store/write_ahead_log.hpp\<close> and \<^verbatim>\<open>store/write_ahead_log.cpp\<close>. The file behind the descriptor is a
  list of bytes. What the operating system answers is a parameter: the results of the successive
  \<^verbatim>\<open>write\<close> and \<^verbatim>\<open>read\<close> calls are a script that the retry loops consume, and the outcome of
  \<^verbatim>\<open>fdatasync\<close> and the clock readings come with each call. \<^term>\<open>None\<close> means that a retry loop is
  still waiting for the next call to return (the script is used up) or that the call dereferenced a
  null order.
\<close>

section \<open>Model\<close>

datatype io_result =
    Transferred nat  \<comment> \<open>a non-negative return value\<close>
  | Interrupted      \<comment> \<open>\<^verbatim>\<open>-1\<close> with \<^verbatim>\<open>errno == EINTR\<close>\<close>
  | IoFailed         \<comment> \<open>\<^verbatim>\<open>-1\<close> with any other \<^verbatim>\<open>errno\<close>\<close>

datatype SyncPolicy = Always | Batch | Never

record WalConfig =
  wc_policy :: SyncPolicy
  wc_batchRecords :: nat
  wc_batchInterval :: int

record WriteAheadLog =
  wal_config :: WalConfig
  wal_file :: "byte list"  \<comment> \<open>the file behind \<^verbatim>\<open>fd_\<close>, opened for appending\<close>
  wal_nextSequence :: Sequence
  wal_recordsWritten :: nat
  wal_syncCount :: nat
  wal_sinceSync :: nat
  wal_lastSync :: int

text \<open>What the system answers during one call.\<close>

record Os =
  os_writes :: "io_result list"
  os_syncOk :: bool
  os_now :: int       \<comment> \<open>the clock when \<^verbatim>\<open>shouldSync\<close> reads it\<close>
  os_syncedAt :: int  \<comment> \<open>the clock when \<^verbatim>\<open>syncNow\<close> reads it\<close>

fun writeFully :: "io_result list \<Rightarrow> byte list \<Rightarrow> nat \<Rightarrow> byte list \<Rightarrow> (unit result \<times> byte list) option" where
  "writeFully [] bytes written file =
     (if written < length bytes then None else Some (Inr (), file))"
| "writeFully (r # script) bytes written file =
     (if written < length bytes then
        (case r of
           Transferred wrote \<Rightarrow>
             if wrote > 0
             then writeFully script bytes (written + wrote) (file @ take wrote (drop written bytes))
             else Some (Inl StorageError, file)
         | Interrupted \<Rightarrow> writeFully script bytes written file
         | IoFailed \<Rightarrow> Some (Inl StorageError, file))
      else Some (Inr (), file))"

definition shouldSync :: "int \<Rightarrow> WriteAheadLog \<Rightarrow> bool" where
  "shouldSync now wal =
     (case wc_policy (wal_config wal) of
        Always \<Rightarrow> True
      | Never \<Rightarrow> False
      | Batch \<Rightarrow> if wal_sinceSync wal \<ge> wc_batchRecords (wal_config wal) then True
                 else now - wal_lastSync wal \<ge> wc_batchInterval (wal_config wal))"

definition syncNow :: "Os \<Rightarrow> WriteAheadLog \<Rightarrow> unit result \<times> WriteAheadLog" where
  "syncNow os wal =
     (if \<not> os_syncOk os then (Inl StorageError, wal)
      else (Inr (), wal\<lparr>wal_syncCount := wal_syncCount wal + 1, wal_sinceSync := 0,
                        wal_lastSync := os_syncedAt os\<rparr>))"

definition append_wal :: "Os \<Rightarrow> Command \<Rightarrow> WriteAheadLog \<Rightarrow> (Sequence result \<times> WriteAheadLog) option" where
  "append_wal os command wal = do {
     let sequence = wal_nextSequence wal;
     record \<leftarrow> encodeRecord sequence command;
     (wrote, file) \<leftarrow> writeFully (os_writes os) record 0 (wal_file wal);
     let wal1 = wal\<lparr>wal_file := file\<rparr>;
     case wrote of
       Inl e \<Rightarrow> Some (Inl e, wal1)
     | Inr u \<Rightarrow>
         (let wal2 = wal1\<lparr>wal_nextSequence := wal_nextSequence wal1 + 1,
                          wal_recordsWritten := wal_recordsWritten wal1 + 1,
                          wal_sinceSync := wal_sinceSync wal1 + 1\<rparr>
          in if shouldSync (os_now os) wal2 then
               (case syncNow os wal2 of
                  (Inl e, wal3) \<Rightarrow> Some (Inl e, wal3)
                | (Inr v, wal3) \<Rightarrow> Some (Inr sequence, wal3))
             else Some (Inr sequence, wal2))
   }"

definition flush :: "Os \<Rightarrow> WriteAheadLog \<Rightarrow> unit result \<times> WriteAheadLog" where
  "flush os wal = syncNow os wal"  \<comment> \<open>a constructed log has an open descriptor\<close>

definition lastSequence :: "WriteAheadLog \<Rightarrow> Sequence" where
  "lastSequence wal = wal_nextSequence wal - 1"

record ReplayResult =
  rp_records :: "WalRecord list"
  rp_validBytes :: nat
  rp_truncated :: bool

datatype open_result = Opened "byte list" | NoSuchFile | OpenFailed

fun read_contents :: "io_result list \<Rightarrow> byte list \<Rightarrow> byte list \<Rightarrow> byte list result option" where
  "read_contents [] file contents = None"
| "read_contents (r # script) file contents =
     (case r of
        Transferred got \<Rightarrow>
          if got > 0 then read_contents script (drop got file) (contents @ take got file)
          else Some (Inr contents)
      | Interrupted \<Rightarrow> read_contents script file contents
      | IoFailed \<Rightarrow> Some (Inl StorageError))"

lemma decodeRecord_ok:
  "rr_status (decodeRecord bytes) = ReadOk \<Longrightarrow>
     (\<exists>r. rr_record (decodeRecord bytes) = Some r) \<and> 8 \<le> rr_consumed (decodeRecord bytes) \<and>
     rr_consumed (decodeRecord bytes) \<le> length bytes"
  by (auto simp: decodeRecord_def Let_def new_ReadResult_def kRecordHeaderSize_def
      split: if_splits sum.splits option.splits)

function replay_loop :: "byte list \<Rightarrow> nat \<Rightarrow> WalRecord list \<Rightarrow> ReplayResult" where
  "replay_loop contents offset records =
     (if offset < length contents then
        let read = decodeRecord (drop offset contents)
        in if rr_status read = ReadOk
           then replay_loop contents (offset + rr_consumed read) (records @ [the (rr_record read)])
           else \<lparr>rp_records = records, rp_validBytes = offset, rp_truncated = True\<rparr>
      else \<lparr>rp_records = records, rp_validBytes = offset, rp_truncated = False\<rparr>)"
  by auto

termination
proof (relation "measure (\<lambda>(contents, offset, records). length contents - offset)")
  fix contents :: "byte list" and offset and records :: "WalRecord list" and read
  assume "offset < length contents" "read = decodeRecord (drop offset contents)" "rr_status read = ReadOk"
  then show "((contents, offset + rr_consumed read, records @ [the (rr_record read)]), contents, offset, records)
      \<in> measure (\<lambda>(contents, offset, records). length contents - offset)"
    using decodeRecord_ok [of "drop offset contents"] by auto
qed simp

definition replay :: "open_result \<Rightarrow> io_result list \<Rightarrow> ReplayResult result option" where
  "replay opened script =
     (case opened of
        NoSuchFile \<Rightarrow> Some (Inr \<lparr>rp_records = [], rp_validBytes = 0, rp_truncated = False\<rparr>)
      | OpenFailed \<Rightarrow> Some (Inl StorageError)
      | Opened file \<Rightarrow> do {
          contents \<leftarrow> read_contents script file [];
          Some (case contents of Inl e \<Rightarrow> Inl e | Inr bytes \<Rightarrow> Inr (replay_loop bytes 0 []))
        })"

definition truncateTo :: "bool \<Rightarrow> nat \<Rightarrow> byte list \<Rightarrow> unit result \<times> byte list" where
  "truncateTo ok validBytes file =
     (if \<not> ok then (Inl StorageError, file)
      else (Inr (), take validBytes file @ replicate (validBytes - length file) 0))"

text \<open>
  The constructor, on the file as \<^verbatim>\<open>open\<close> finds or creates it: the sequence continues after the last
  intact record.
\<close>

definition new_WriteAheadLog ::
  "WalConfig \<Rightarrow> open_result \<Rightarrow> io_result list \<Rightarrow> int \<Rightarrow> WriteAheadLog result option" where
  "new_WriteAheadLog config opened script now =
     (case opened of
        OpenFailed \<Rightarrow> Some (Inl StorageError)
      | NoSuchFile \<Rightarrow> Some (Inl StorageError)  \<comment> \<open>with \<^verbatim>\<open>O_CREAT\<close>: a missing directory\<close>
      | Opened file \<Rightarrow> do {
          existing \<leftarrow> replay opened script;
          Some (case existing of
                  Inl e \<Rightarrow> Inl e
                | Inr result \<Rightarrow>
                    Inr \<lparr>wal_config = config, wal_file = file,
                         wal_nextSequence = (if rp_records result \<noteq> []
                                             then wr_sequence (last (rp_records result)) + 1 else 1),
                         wal_recordsWritten = 0, wal_syncCount = 0, wal_sinceSync = 0,
                         wal_lastSync = now\<rparr>)
        })"

section \<open>Writing and reading the file\<close>

text \<open>A write that returns has appended exactly the record; one that throws, a proper prefix of it.\<close>

lemma writeFully_ok:
  "writeFully script bytes written file = Some (Inr (), file') \<Longrightarrow> file' = file @ drop written bytes"
proof (induction script bytes written "file" rule: writeFully.induct)
  case (2 r script bytes written "file")
  show ?case
  proof (cases "written < length bytes")
    case True
    then show ?thesis using 2 append_take_drop_id [of _ "drop written bytes"]
      by (auto simp: drop_drop [symmetric] add.commute simp del: append_take_drop_id drop_drop
          split: io_result.splits if_splits)
  next
    case False
    then show ?thesis using 2 by simp
  qed
qed (auto split: if_splits)

lemma writeFully_error:
  "writeFully script bytes written file = Some (Inl e, file') \<Longrightarrow>
     e = StorageError \<and> (\<exists>k. k < length bytes - written \<and> file' = file @ take k (drop written bytes))"
proof (induction script bytes written "file" rule: writeFully.induct)
  case (2 r script bytes written "file")
  show ?case
  proof (cases "written < length bytes")
    case True
    show ?thesis
    proof (cases r)
      case (Transferred wrote)
      show ?thesis
      proof (cases "wrote > 0")
        case w: True
        obtain k where e: "e = StorageError" and k: "k < length bytes - (written + wrote)"
          and file': "file' = (file @ take wrote (drop written bytes)) @ take k (drop (written + wrote) bytes)"
          using 2 True Transferred w by auto
        have "take (wrote + k) (drop written bytes) = take wrote (drop written bytes) @ take k (drop (written + wrote) bytes)"
          by (simp only: take_add drop_drop add.commute [of wrote written])
        then show ?thesis using e k file' by (intro conjI exI [of _ "wrote + k"]) auto
      next
        case False
        then show ?thesis using 2 True Transferred by (auto intro: exI [of _ 0])
      qed
    next
      case Interrupted
      then show ?thesis using 2 True by simp
    next
      case IoFailed
      then show ?thesis using 2 True by (auto intro: exI [of _ 0])
    qed
  next
    case False
    then show ?thesis using 2 by simp
  qed
qed (auto split: if_splits)

text \<open>
  The retry loop ends as soon as the system has made progress often enough: short writes and
  interruptions only delay it.
\<close>

fun makes_progress :: "io_result \<Rightarrow> bool" where
  "makes_progress (Transferred n) \<longleftrightarrow> 0 < n"
| "makes_progress Interrupted \<longleftrightarrow> True"
| "makes_progress IoFailed \<longleftrightarrow> False"

lemma writeFully_returns:
  "list_all makes_progress script \<Longrightarrow>
     length bytes - written \<le> length (filter (\<lambda>r. r \<noteq> Interrupted) script) \<Longrightarrow>
     \<exists>file'. writeFully script bytes written file = Some (Inr (), file')"
proof (induction script arbitrary: written "file")
  case (Cons r script)
  then show ?case by (cases r) (auto intro!: Cons.IH)
qed simp

text \<open>What \<^verbatim>\<open>read\<close> promises: at most what is left, and nothing only at the end of the file.\<close>

fun honest_reads :: "io_result list \<Rightarrow> byte list \<Rightarrow> bool" where
  "honest_reads [] file \<longleftrightarrow> True"
| "honest_reads (Transferred got # script) file \<longleftrightarrow>
     got \<le> length file \<and> (if got = 0 then file = [] else honest_reads script (drop got file))"
| "honest_reads (Interrupted # script) file \<longleftrightarrow> honest_reads script file"
| "honest_reads (IoFailed # script) file \<longleftrightarrow> True"

lemma read_contents_ok:
  "honest_reads script file \<Longrightarrow> read_contents script file contents = Some (Inr out) \<Longrightarrow> out = contents @ file"
proof (induction script "file" arbitrary: contents rule: honest_reads.induct)
  case (2 got script "file")
  show ?case
  proof (cases "got = 0")
    case False
    then show ?thesis using 2(2,3) 2(1) [of "contents @ take got file"] by simp
  qed (use 2 in auto)
qed auto

section \<open>Replaying a log\<close>

text \<open>A decoded record, and a corrupt one, stay what they are whatever is appended behind them.\<close>

lemma readU32_append: "4 + k \<le> length bs \<Longrightarrow> readU32 (bs @ xs) k = readU32 bs k"
  unfolding readU32_def by (rule foldl_cong) (auto simp: nth_append)

lemma decodeRecord_extend:
  assumes "rr_status (decodeRecord bs) \<noteq> Incomplete"
  shows "decodeRecord (bs @ xs) = decodeRecord bs"
proof -
  have len: "8 \<le> length bs" using assms by (auto simp: decodeRecord_def kRecordHeaderSize_def intro: ccontr)
  then have hdr: "readU32 (bs @ xs) 0 = readU32 bs 0" "readU32 (bs @ xs) 4 = readU32 bs 4"
    by (simp_all add: readU32_append)
  let ?n = "unat (readU32 bs 0)"
  have "8 + ?n \<le> length bs \<or> readU32 bs 0 = 0 \<or> readU32 bs 0 > kMaxRecordPayload"
    using assms len by (auto simp: decodeRecord_def Let_def kRecordHeaderSize_def new_ReadResult_def split: if_splits)
  then show ?thesis
  proof (elim disjE)
    assume n: "8 + ?n \<le> length bs"
    then have "take ?n (drop 8 (bs @ xs)) = take ?n (drop 8 bs)" by simp
    then show ?thesis using n len unfolding decodeRecord_def Let_def hdr kRecordHeaderSize_def by simp
  qed (use len in \<open>simp_all add: decodeRecord_def Let_def hdr kRecordHeaderSize_def\<close>)
qed

declare replay_loop.simps [simp del]

lemma replay_loop_step:
  assumes "offset < length contents" and "rr_status (decodeRecord (drop offset contents)) = ReadOk"
  shows "replay_loop contents offset records =
     replay_loop contents (offset + rr_consumed (decodeRecord (drop offset contents)))
       (records @ [the (rr_record (decodeRecord (drop offset contents)))])"
  using assms by (subst replay_loop.simps) (simp add: Let_def)

lemma replay_loop_end:
  "length contents \<le> offset \<Longrightarrow>
     replay_loop contents offset records = \<lparr>rp_records = records, rp_validBytes = offset, rp_truncated = False\<rparr>"
  by (subst replay_loop.simps) simp

lemma replay_loop_stop:
  "offset < length contents \<Longrightarrow> rr_status (decodeRecord (drop offset contents)) \<noteq> ReadOk \<Longrightarrow>
     replay_loop contents offset records = \<lparr>rp_records = records, rp_validBytes = offset, rp_truncated = True\<rparr>"
  by (subst replay_loop.simps) (simp add: Let_def)

text \<open>Replay of a longer file goes through the intact records of the shorter one.\<close>

lemma replay_loop_extend:
  "\<not> rp_truncated (replay_loop bs offset records) \<Longrightarrow> offset \<le> length bs \<Longrightarrow>
     replay_loop (bs @ xs) offset records =
       replay_loop (bs @ xs) (length bs) (rp_records (replay_loop bs offset records))"
proof (induction bs offset records rule: replay_loop.induct)
  case (1 bs offset records)
  show ?case
  proof (cases "offset < length bs")
    case True
    let ?d = "decodeRecord (drop offset bs)"
    have ok: "rr_status ?d = ReadOk"
      using 1(2) replay_loop_stop [OF True] by (cases "rr_status ?d = ReadOk") auto
    have d: "decodeRecord (drop offset (bs @ xs)) = ?d"
      using decodeRecord_extend [of "drop offset bs" xs] ok True by simp
    have le: "offset + rr_consumed ?d \<le> length bs" using decodeRecord_ok [OF ok] True by auto
    have step: "replay_loop bs offset records = replay_loop bs (offset + rr_consumed ?d) (records @ [the (rr_record ?d)])"
      by (rule replay_loop_step [OF True ok])
    have "replay_loop (bs @ xs) offset records =
        replay_loop (bs @ xs) (offset + rr_consumed ?d) (records @ [the (rr_record ?d)])"
      using replay_loop_step [of offset "bs @ xs"] True ok d by simp
    then show ?thesis using 1(1) [OF True refl ok] 1(2) le step by simp
  next
    case False
    then show ?thesis using 1(3) by (simp add: replay_loop_end)
  qed
qed

section \<open>The log as a sequence of commands\<close>

definition wal_records :: "WriteAheadLog \<Rightarrow> WalRecord list" where
  "wal_records wal = rp_records (replay_loop (wal_file wal) 0 [])"

definition wal_history :: "WriteAheadLog \<Rightarrow> Command list" where
  "wal_history wal = map wr_command (wal_records wal)"

definition wal_intact :: "WriteAheadLog \<Rightarrow> bool" where
  "wal_intact wal \<longleftrightarrow> \<not> rp_truncated (replay_loop (wal_file wal) 0 []) \<and>
     wal_nextSequence wal = (if wal_records wal = [] then 1 else wr_sequence (last (wal_records wal)) + 1)"

definition wal_recordable :: "Command \<Rightarrow> bool" where
  "wal_recordable c \<longleftrightarrow> loggable c \<and> logged_command c = c"

lemma encodeRecord_nonempty: "encodeRecord n c = Some rec \<Longrightarrow> rec \<noteq> []"
  by (erule encodeRecordE) auto

lemma replay_appended:
  assumes "\<not> rp_truncated (replay_loop bs 0 [])" and "encodeRecord n c = Some rec" and "loggable c"
  shows "replay_loop (bs @ rec) 0 [] =
     \<lparr>rp_records = rp_records (replay_loop bs 0 []) @ [\<lparr>wr_sequence = n, wr_command = logged_command c\<rparr>],
      rp_validBytes = length (bs @ rec), rp_truncated = False\<rparr>"
proof -
  let ?rs = "rp_records (replay_loop bs 0 [])"
  have d: "decodeRecord (drop (length bs) (bs @ rec)) =
      \<lparr>rr_status = ReadOk, rr_record = Some \<lparr>wr_sequence = n, wr_command = logged_command c\<rparr>, rr_consumed = length rec\<rparr>"
    using decode_encoded [OF assms(2,3), of "[]"] by simp
  have "replay_loop (bs @ rec) 0 [] = replay_loop (bs @ rec) (length bs) ?rs"
    using replay_loop_extend [OF assms(1)] by simp
  also have "\<dots> = replay_loop (bs @ rec) (length bs + length rec) (?rs @ [\<lparr>wr_sequence = n, wr_command = logged_command c\<rparr>])"
    using replay_loop_step [of "length bs" "bs @ rec" ?rs] d encodeRecord_nonempty [OF assms(2)] by simp
  finally show ?thesis by (simp add: replay_loop_end)
qed

lemma replay_torn:
  assumes "\<not> rp_truncated (replay_loop bs 0 [])" and "encodeRecord n c = Some rec" and "k < length rec"
  shows "replay_loop (bs @ take k rec) 0 [] =
     \<lparr>rp_records = rp_records (replay_loop bs 0 []), rp_validBytes = length bs, rp_truncated = (k \<noteq> 0)\<rparr>"
proof -
  have ext: "replay_loop (bs @ take k rec) 0 [] = replay_loop (bs @ take k rec) (length bs) (rp_records (replay_loop bs 0 []))"
    using replay_loop_extend [OF assms(1)] by simp
  show ?thesis
  proof (cases "k = 0")
    case True
    then show ?thesis using ext by (simp add: replay_loop_end)
  next
    case False
    then have "length bs < length (bs @ take k rec)" using assms(3) by simp
    moreover have "rr_status (decodeRecord (drop (length bs) (bs @ take k rec))) \<noteq> ReadOk"
      using decode_torn [OF assms(2,3)] by (simp add: new_ReadResult_def)
    ultimately show ?thesis using ext replay_loop_stop False by simp
  qed
qed

text \<open>The three ways an append can end: recorded, not written completely, or written but not synced.\<close>

lemma append_cases:
  assumes "append_wal os c wal = Some (r, wal')"
  obtains (recorded) rec where "encodeRecord (wal_nextSequence wal) c = Some rec" "r = Inr (wal_nextSequence wal)"
      "wal_file wal' = wal_file wal @ rec" "wal_nextSequence wal' = wal_nextSequence wal + 1"
  | (unsynced) rec where "encodeRecord (wal_nextSequence wal) c = Some rec" "r = Inl StorageError"
      "wal_file wal' = wal_file wal @ rec" "wal_nextSequence wal' = wal_nextSequence wal + 1" "\<not> os_syncOk os"
  | (torn) rec k where "encodeRecord (wal_nextSequence wal) c = Some rec" "r = Inl StorageError"
      "k < length rec" "wal_file wal' = wal_file wal @ take k rec" "wal_nextSequence wal' = wal_nextSequence wal"
proof -
  obtain rec wrote fl where rec: "encodeRecord (wal_nextSequence wal) c = Some rec"
    and w: "writeFully (os_writes os) rec 0 (wal_file wal) = Some (wrote, fl)"
    using assms by (auto simp: append_wal_def Let_def split: Option.bind_splits)
  show ?thesis
  proof (cases wrote)
    case (Inl e)
    then obtain k where "e = StorageError" "k < length rec" "fl = wal_file wal @ take k rec"
      using writeFully_error [of "os_writes os" rec 0 "wal_file wal" e fl] w by auto
    then show ?thesis using assms rec w Inl by (intro torn [of rec k]) (auto simp: append_wal_def Let_def)
  next
    case (Inr u)
    then have fl: "fl = wal_file wal @ rec" using writeFully_ok [of "os_writes os" rec 0 "wal_file wal" fl] w by simp
    show ?thesis
    proof (cases "r = Inl StorageError")
      case True
      then show ?thesis using assms rec w Inr fl
        by (intro unsynced [of rec]) (auto simp: append_wal_def Let_def syncNow_def split: if_splits)
    next
      case False
      then show ?thesis using assms rec w Inr fl
        by (intro recorded [of rec]) (auto simp: append_wal_def Let_def syncNow_def split: if_splits)
    qed
  qed
qed

lemma append_records:
  assumes "wal_intact wal" and "loggable c" and "wal_file wal' = wal_file wal @ rec"
    and "encodeRecord (wal_nextSequence wal) c = Some rec" and "wal_nextSequence wal' = wal_nextSequence wal + 1"
  shows "wal_intact wal'"
    and "wal_records wal' = wal_records wal @ [\<lparr>wr_sequence = wal_nextSequence wal, wr_command = logged_command c\<rparr>]"
  using replay_appended [of "wal_file wal", OF _ assms(4) assms(2)] assms(1,3,5)
  by (auto simp: wal_intact_def wal_records_def)

interpretation wal_log: command_log append_wal wal_history wal_intact wal_recordable
proof
  fix os c wal n wal'
  assume "wal_intact wal" "wal_recordable c" "append_wal os c wal = Some (Inr n, wal')"
  then show "wal_intact wal' \<and> wal_history wal' = wal_history wal @ [c]"
    by (elim append_cases) (auto simp: wal_recordable_def wal_history_def append_records)
next
  fix os c wal e wal'
  assume "append_wal os c wal = Some (Inl e, wal')"
  then show "e = StorageError" by (elim append_cases) auto
next
  fix os c wal e wal'
  assume i: "wal_intact wal" and c: "wal_recordable c" and "append_wal os c wal = Some (Inl e, wal')"
  from this(3) show "wal_history wal' = wal_history wal \<or> wal_history wal' = wal_history wal @ [c]"
  proof (cases rule: append_cases)
    case (unsynced rec)
    then show ?thesis using i c by (auto simp: wal_recordable_def wal_history_def append_records)
  next
    case (torn rec k)
    then show ?thesis using i replay_torn [OF _ torn(1,3)] by (simp add: wal_history_def wal_records_def wal_intact_def)
  qed simp
qed

section \<open>Properties\<close>

lemma replay_opened:
  assumes "honest_reads script bs" and "replay (Opened bs) script = Some (Inr res)"
  shows "res = replay_loop bs 0 []"
  using assms read_contents_ok [OF assms(1), of "[]"]
  by (auto simp: replay_def split: Option.bind_splits sum.splits)

definition new_log :: WriteAheadLog where
  "new_log = \<lparr>wal_config = \<lparr>wc_policy = Batch, wc_batchRecords = 2, wc_batchInterval = 10\<rparr>, wal_file = [],
     wal_nextSequence = 1, wal_recordsWritten = 0, wal_syncCount = 0, wal_sinceSync = 0, wal_lastSync = 0\<rparr>"

definition demo_os :: Os where
  "demo_os = \<lparr>os_writes = [Transferred 5, Interrupted, Transferred 20], os_syncOk = True, os_now = 3, os_syncedAt = 4\<rparr>"

definition demo_log :: WriteAheadLog where
  "demo_log = new_log\<lparr>wal_file := demo_record, wal_nextSequence := 2, wal_recordsWritten := 1, wal_sinceSync := 1\<rparr>"

lemma new_log_intact: "wal_intact new_log" "wal_records new_log = []"
  by (simp_all add: wal_intact_def wal_records_def new_log_def replay_loop_end)

lemma demo_append: "append_wal demo_os (CancelCommand 5) new_log = Some (Inr 1, demo_log)"
proof -
  have "writeFully (os_writes demo_os) demo_record 0 [] = Some (Inr (), take 5 demo_record @ take 20 (drop 5 demo_record))"
    using demo_record(2) by (simp add: demo_os_def)
  also have "take 5 demo_record @ take 20 (drop 5 demo_record) = demo_record"
    using demo_record(2) by (simp add: take_all)
  finally show ?thesis
    using demo_record(1)
    by (simp add: append_wal_def Let_def new_log_def demo_log_def shouldSync_def) (simp add: demo_os_def)
qed

text \<open>
  C25. A command whose append returned is in the log for good: any replay of the file returns all
  earlier records in order and then this one under the sequence number returned, and finds nothing
  damaged.
\<close>

theorem append_then_replay:
  assumes "wal_intact wal" and "loggable c" and "append_wal os c wal = Some (Inr n, wal')"
    and "honest_reads script (wal_file wal')" and "replay (Opened (wal_file wal')) script = Some (Inr res)"
  shows "n = wal_nextSequence wal \<and>
     rp_records res = wal_records wal @ [\<lparr>wr_sequence = n, wr_command = logged_command c\<rparr>] \<and>
     rp_validBytes res = length (wal_file wal') \<and> \<not> rp_truncated res \<and> wal_intact wal'"
proof -
  have res: "res = replay_loop (wal_file wal') 0 []" by (rule replay_opened [OF assms(4,5)])
  from assms(3) show ?thesis
  proof (cases rule: append_cases)
    case (recorded rec)
    then show ?thesis
      using res replay_appended [OF _ recorded(1) assms(2)] assms(1) append_records(1) [OF assms(1,2) recorded(3,1,4)]
      by (auto simp: wal_intact_def wal_records_def)
  qed simp_all
qed

theorem append_then_replay_witness:
  "append_wal demo_os (CancelCommand 5) new_log = Some (Inr 1, demo_log) \<and>
   honest_reads [Transferred 20, Interrupted, Transferred 5, Transferred 0] demo_record \<and>
   (\<exists>res. replay (Opened demo_record) [Transferred 20, Interrupted, Transferred 5, Transferred 0] = Some (Inr res) \<and>
      rp_records res = [\<lparr>wr_sequence = 1, wr_command = CancelCommand 5\<rparr>])"
proof -
  let ?script = "[Transferred 20, Interrupted, Transferred 5, Transferred 0]"
  have f: "wal_file demo_log = demo_record" by (simp add: demo_log_def)
  have h: "honest_reads ?script demo_record" using demo_record(2) by simp
  obtain res where r: "replay (Opened demo_record) ?script = Some (Inr res)" by (simp add: replay_def)
  have "rp_records res = [\<lparr>wr_sequence = 1, wr_command = CancelCommand 5\<rparr>]"
    using append_then_replay [OF new_log_intact(1) _ demo_append, of ?script res] f h r new_log_intact(2) by simp
  with demo_append h r show ?thesis by blast
qed

text \<open>
  C26. A crash in the middle of an append, after any proper prefix of the record has reached the
  file, loses nothing but that record: replay returns exactly the earlier records, reports the
  damage, and truncating to the reported offset restores the file as it was before the append.
\<close>

theorem torn_append_recovers:
  assumes "wal_intact wal" and "encodeRecord (wal_nextSequence wal) c = Some rec" and "0 < k" and "k < length rec"
    and "honest_reads script (wal_file wal @ take k rec)"
    and "replay (Opened (wal_file wal @ take k rec)) script = Some (Inr res)"
  shows "rp_records res = wal_records wal \<and> rp_truncated res \<and>
     truncateTo True (rp_validBytes res) (wal_file wal @ take k rec) = (Inr (), wal_file wal)"
proof -
  have "res = replay_loop (wal_file wal @ take k rec) 0 []" by (rule replay_opened [OF assms(5,6)])
  then show ?thesis
    using replay_torn [OF _ assms(2,4)] assms(1,3) by (simp add: wal_intact_def wal_records_def truncateTo_def)
qed

theorem torn_append_recovers_witness:
  "encodeRecord 1 (CancelCommand 5) = Some demo_record \<and>
   (\<exists>res. replay (Opened (take 9 demo_record)) [Transferred 9, Transferred 0] = Some (Inr res) \<and>
      rp_records res = [] \<and> truncateTo True (rp_validBytes res) (take 9 demo_record) = (Inr (), []))"
proof -
  let ?script = "[Transferred 9, Transferred 0]"
  have enc: "encodeRecord (wal_nextSequence new_log) (CancelCommand 5) = Some demo_record"
    using demo_record(1) by (simp add: new_log_def)
  have f: "wal_file new_log = []" by (simp add: new_log_def)
  obtain res where r: "replay (Opened (take 9 demo_record)) ?script = Some (Inr res)" by (simp add: replay_def)
  have "rp_records res = [] \<and> truncateTo True (rp_validBytes res) (take 9 demo_record) = (Inr (), [])"
    using torn_append_recovers [OF new_log_intact(1) enc, of 9 ?script res] f r demo_record(2) new_log_intact(2) by simp
  with demo_record(1) r show ?thesis by blast
qed

text \<open>
  The write loop ends: if the system interrupts it any finite number of times but otherwise
  transfers at least one byte per call, as many calls as the record has bytes suffice, and the
  append then fails only if the sync does.
\<close>

lemma append_returns:
  assumes "encodeRecord (wal_nextSequence wal) c = Some rec" and "list_all makes_progress (os_writes os)"
    and "length rec \<le> length (filter (\<lambda>r. r \<noteq> Interrupted) (os_writes os))"
  shows "\<exists>r wal'. append_wal os c wal = Some (r, wal') \<and> wal_file wal' = wal_file wal @ rec \<and>
     (os_syncOk os \<longrightarrow> r = Inr (wal_nextSequence wal))"
proof -
  obtain fl where w: "writeFully (os_writes os) rec 0 (wal_file wal) = Some (Inr (), fl)"
    using writeFully_returns [OF assms(2), of rec 0] assms(3) by auto
  moreover have "fl = wal_file wal @ rec" using writeFully_ok [OF w] by simp
  ultimately show ?thesis using assms(1) by (auto simp: append_wal_def Let_def syncNow_def)
qed

text \<open>
  The loss window is bounded: after a successful append no record is unsynced under the
  always-sync policy, and fewer than the batch size are under the batch policy, provided the batch
  size is not zero.
\<close>

lemma unsynced_bounded:
  assumes "append_wal os c wal = Some (Inr n, wal')"
  shows "(wc_policy (wal_config wal) = Always \<longrightarrow> wal_sinceSync wal' = 0) \<and>
     (wc_policy (wal_config wal) = Batch \<and> 0 < wc_batchRecords (wal_config wal) \<longrightarrow>
        wal_sinceSync wal' < wc_batchRecords (wal_config wal))"
  using assms
  by (auto simp: append_wal_def Let_def shouldSync_def syncNow_def split: Option.bind_splits sum.splits if_splits)

text \<open>
  Reopening an intact log continues it: the new log has the same records, is intact, and gives
  the next record the sequence number that the old one would have given.
\<close>

lemma reopen_continues:
  assumes "wal_intact wal" and "honest_reads script (wal_file wal)"
    and "new_WriteAheadLog config (Opened (wal_file wal)) script now = Some (Inr wal2)"
  shows "wal_records wal2 = wal_records wal \<and> wal_intact wal2 \<and> wal_nextSequence wal2 = wal_nextSequence wal"
proof -
  obtain res where r: "replay (Opened (wal_file wal)) script = Some (Inr res)"
    and w: "wal_file wal2 = wal_file wal"
      "wal_nextSequence wal2 = (if rp_records res \<noteq> [] then wr_sequence (last (rp_records res)) + 1 else 1)"
    using assms(3) by (auto simp: new_WriteAheadLog_def split: Option.bind_splits sum.splits)
  moreover have "res = replay_loop (wal_file wal) 0 []" by (rule replay_opened [OF assms(2) r])
  ultimately show ?thesis using assms(1) by (auto simp: wal_intact_def wal_records_def)
qed

lemma demo_log_intact: "wal_intact demo_log" "wal_records demo_log = [\<lparr>wr_sequence = 1, wr_command = CancelCommand 5\<rparr>]"
  using append_records [of new_log "CancelCommand 5" demo_log demo_record] new_log_intact demo_record(1)
  by (simp_all add: new_log_def demo_log_def)

section \<open>Where the log and the contract part\<close>

lemma record_length_field:
  assumes "encodeRecord n c = Some rec"
  shows "\<exists>len rest. rec = len # 0 # 0 # 0 # rest \<and> len \<in> {17, 34, 47} \<and> 21 \<le> length rest"
proof -
  obtain body payload where b: "encode_command c = Some body" "payload = w_u64 n @ body"
    and rec: "rec = w_u32 (of_nat (length payload)) @ w_u32 (crc32 payload) @ payload" "17 \<le> length payload"
    by (rule encodeRecordE [OF assms])
  have field: "w_u32 17 = [17, 0, 0, 0]" "w_u32 34 = [34, 0, 0, 0]" "w_u32 47 = [47, 0, 0, 0]"
    by (simp_all add: w_u32_def emit_def upt_rec)
  have "length payload \<in> {17, 34, 47}"
    using b by (cases c rule: encode_command.cases) (auto simp: writeOrder_length)
  then show ?thesis using rec field by auto
qed

text \<open>
  A write that fails after its first byte makes the log swallow what follows: the failed
  command is reported, but a later append that reports success is not replayed, because the stray
  byte turns the next length field into an impossible one. The log does not trim the tail when a
  write fails, and appends behind it.
\<close>

lemma partial_write_hides_later_records:
  assumes "wal_intact wal"
    and "os_writes os1 = [Transferred 1, IoFailed]" and "append_wal os1 c1 wal = Some (r1, wal1)"
    and "append_wal os2 c2 wal1 = Some (Inr n, wal2)"
  shows "r1 = Inl StorageError \<and> wal_history wal2 = wal_history wal \<and>
     rp_truncated (replay_loop (wal_file wal2) 0 [])"
proof -
  obtain rec1 where enc1: "encodeRecord (wal_nextSequence wal) c1 = Some rec1"
    using assms(3) by (auto simp: append_wal_def Let_def split: Option.bind_splits)
  obtain a rest1 where rec1: "rec1 = a # 0 # 0 # 0 # rest1" and a: "a \<in> {17, 34, 47}"
    using record_length_field [OF enc1] by blast
  have r1: "r1 = Inl StorageError" and f1: "wal_file wal1 = wal_file wal @ [a]"
    using assms(2,3) enc1 rec1 by (auto simp: append_wal_def Let_def)
  from assms(4) obtain rec2 where enc2: "encodeRecord (wal_nextSequence wal1) c2 = Some rec2"
    and f2: "wal_file wal2 = wal_file wal1 @ rec2" by (cases rule: append_cases) auto
  obtain b rest2 where rec2: "rec2 = b # 0 # 0 # 0 # rest2" and b: "b \<in> {17, 34, 47}" and len: "21 \<le> length rest2"
    using record_length_field [OF enc2] by blast
  let ?tail = "a # rec2"
  have "readU32 ?tail 0 > kMaxRecordPayload"
    using a b by (auto simp: readU32_def rec2 upt_rec kMaxRecordPayload_def)
  then have bad: "rr_status (decodeRecord ?tail) \<noteq> ReadOk"
    using len rec2 by (simp add: decodeRecord_def Let_def kRecordHeaderSize_def new_ReadResult_def)
  have "\<not> rp_truncated (replay_loop (wal_file wal) 0 [])" using assms(1) by (simp add: wal_intact_def)
  then have "replay_loop (wal_file wal @ ?tail) 0 [] =
      replay_loop (wal_file wal @ ?tail) (length (wal_file wal)) (wal_records wal)"
    using replay_loop_extend [of "wal_file wal" 0 "[]" ?tail] by (simp add: wal_records_def)
  also have "\<dots> = \<lparr>rp_records = wal_records wal, rp_validBytes = length (wal_file wal), rp_truncated = True\<rparr>"
    using bad by (intro replay_loop_stop) simp_all
  finally show ?thesis using r1 f1 f2 by (simp add: wal_history_def wal_records_def)
qed

lemma demo_write: "writeFully [Transferred 25] demo_record 0 fl = Some (Inr (), fl @ demo_record)"
  using demo_record(2) by (simp add: take_all flip: length_greater_0_conv)

lemma append_unsynced:
  assumes "wal_intact wal" and "loggable c" and "wc_policy (wal_config wal) = Always" and "\<not> os_syncOk os"
    and "append_wal os c wal = Some (r, wal')" and "list_all makes_progress (os_writes os)"
  shows "r = Inl StorageError \<and> wal_history wal' = wal_history wal @ [logged_command c]"
  using assms(5)
proof (cases rule: append_cases)
  case (recorded rec)
  then show ?thesis using assms(3-5)
    by (auto simp: append_wal_def Let_def shouldSync_def syncNow_def split: Option.bind_splits sum.splits)
next
  case (unsynced rec)
  then show ?thesis using append_records(2) [OF assms(1,2) unsynced(3,1,4)] by (simp add: wal_history_def)
next
  case (torn rec k)
  have "writeFully script bs w fl \<noteq> Some (Inl e, fl')" if "list_all makes_progress script" for script bs w fl e fl'
    using that
  proof (induction script arbitrary: w fl)
    case (Cons r script)
    then show ?case by (cases r) auto
  qed auto
  then show ?thesis using assms(3-6) torn(5)
    by (auto simp: append_wal_def Let_def shouldSync_def syncNow_def split: Option.bind_splits sum.splits)
qed

end
