(* ===== verification/Sqlite.thy ===== *)
theory Sqlite
  imports Exchange_Types "HOL-Library.Multiset"
begin

text \<open>
  The SQL of \<^verbatim>\<open>store/sqlite_store.cpp\<close> and what the store relies on of SQLite. The tables are those of
  the schema, the statements those of the source with the values bound to them, and their effects
  and answers are what SQL says about them, constraints and overflow of strict integer columns
  included. SQLite itself is a parameter \<open>run\<close>: it may fail at any statement, and the locale states the
  documented effect of success and of failure. A reference engine, which fails where it is told to,
  satisfies the contract.
\<close>

section \<open>Tables\<close>

text \<open>Integer columns are signed 64-bit. The key of the ledger is chosen by SQLite and never read.\<close>

record fill_row =
  row_seq :: "64 word"
  row_ts :: "64 word"
  row_symbol :: string
  row_aggressorOrder :: "64 word"
  row_restingOrder :: "64 word"
  row_aggressorAccount :: "64 word"
  row_restingAccount :: "64 word"
  row_side :: "64 word"
  row_price :: "64 word"
  row_quantity :: "64 word"

record ledger_row =
  lr_fill :: "64 word"
  lr_account :: "64 word"
  lr_delta :: "64 word"

record tables =
  tb_accounts :: "(64 word \<times> 64 word) list"
  tb_fills :: "fill_row list"
  tb_ledger :: "ledger_row list"

definition no_tables :: tables where
  "no_tables = \<lparr>tb_accounts = [], tb_fills = [], tb_ledger = []\<rparr>"

definition fill_seqs :: "tables \<Rightarrow> 64 word set" where
  "fill_seqs t = row_seq ` set (tb_fills t)"

definition account_ids :: "tables \<Rightarrow> 64 word set" where
  "account_ids t = fst ` set (tb_accounts t)"

section \<open>Statements\<close>

datatype statement =
    Begin | Commit | Rollback
  | Pragmas | CreateTables | CreateIndexes
  | InsertAccount "64 word" "64 word"
  | InsertFill fill_row
  | InsertPosting "64 word" "64 word" "64 word"
  | AdjustBalance "64 word" "64 word"
  | SelectFill "64 word"
  | SelectBalance "64 word"
  | CountFills
  | MaxSequence
  | SelectFillsFor "64 word" "64 word"
  | SelectTape string "64 word"
  | SumLedger
  | SelectBalances

text \<open>\<^verbatim>\<open>ON CONFLICT(account_id) DO NOTHING\<close>.\<close>

definition insert_account :: "64 word \<Rightarrow> 64 word \<Rightarrow> tables \<Rightarrow> tables" where
  "insert_account a b t =
     (if a \<in> account_ids t then t else t\<lparr>tb_accounts := tb_accounts t @ [(a, b)]\<rparr>)"

text \<open>The sequence is the primary key, and the quantity is checked to be positive.\<close>

definition insert_fill :: "fill_row \<Rightarrow> tables \<Rightarrow> tables option" where
  "insert_fill row t =
     (if row_seq row \<in> fill_seqs t \<or> sint (row_quantity row) \<le> 0 then None
      else Some (t\<lparr>tb_fills := tb_fills t @ [row]\<rparr>))"

text \<open>Both references of a posting are foreign keys.\<close>

definition insert_posting :: "64 word \<Rightarrow> 64 word \<Rightarrow> 64 word \<Rightarrow> tables \<Rightarrow> tables option" where
  "insert_posting seq a d t =
     (if seq \<notin> fill_seqs t \<or> a \<notin> account_ids t then None
      else Some (t\<lparr>tb_ledger := tb_ledger t @ [\<lparr>lr_fill = seq, lr_account = a, lr_delta = d\<rparr>]\<rparr>))"

text \<open>A sum that overflows becomes a real number, which a strict integer column refuses.\<close>

definition adjust_balance :: "64 word \<Rightarrow> 64 word \<Rightarrow> tables \<Rightarrow> tables option" where
  "adjust_balance a d t =
     (case map_of (tb_accounts t) a of
        None \<Rightarrow> Some t
      | Some b \<Rightarrow>
          if sint (b + d) = sint b + sint d
          then Some (t\<lparr>tb_accounts := al_adjust a (\<lambda>_. b + d) (tb_accounts t)\<rparr>)
          else None)"

text \<open>What a statement does to the tables; a constraint that is violated refuses it.\<close>

fun change :: "statement \<Rightarrow> tables \<Rightarrow> tables option" where
  "change (InsertAccount a b) t = Some (insert_account a b t)"
| "change (InsertFill row) t = insert_fill row t"
| "change (InsertPosting seq a d) t = insert_posting seq a d t"
| "change (AdjustBalance a d) t = adjust_balance a d t"
| "change st t = Some t"

section \<open>Answers\<close>

text \<open>The columns both statement queries select.\<close>

definition columns :: "fill_row \<Rightarrow> 64 word list" where
  "columns row = [row_aggressorOrder row, row_restingOrder row, row_price row, row_quantity row,
     row_aggressorAccount row, row_restingAccount row, row_side row]"

text \<open>A negative limit is none.\<close>

definition limited :: "64 word \<Rightarrow> 'a list \<Rightarrow> 'a list" where
  "limited limit xs = (if sint limit < 0 then xs else take (unat limit) xs)"

fun max_signed :: "64 word list \<Rightarrow> 64 word" where
  "max_signed [] = 0"
| "max_signed [x] = x"
| "max_signed (x # xs) = (let m = max_signed xs in if sint x < sint m then m else x)"

definition ledger_sum :: "tables \<Rightarrow> int" where
  "ledger_sum t = (\<Sum>r \<leftarrow> tb_ledger t. sint (lr_delta r))"

text \<open>
  Newest first: the selected rows in some order with descending time. SQL leaves open how rows with
  equal times are ordered.
\<close>

definition newest_first :: "(fill_row \<Rightarrow> bool) \<Rightarrow> 64 word \<Rightarrow> tables \<Rightarrow> 64 word list list \<Rightarrow> bool" where
  "newest_first p limit t rs \<longleftrightarrow>
     (\<exists>rows. mset rows = mset (filter p (tb_fills t)) \<and>
        sorted_wrt (\<lambda>r r'. sint (row_ts r') \<le> sint (row_ts r)) rows \<and> rs = map columns (limited limit rows))"

fun answers :: "statement \<Rightarrow> tables \<Rightarrow> 64 word list list \<Rightarrow> bool" where
  "answers (SelectFill seq) t rs \<longleftrightarrow> rs = (if seq \<in> fill_seqs t then [[1]] else [])"
| "answers (SelectBalance a) t rs \<longleftrightarrow> rs = (case map_of (tb_accounts t) a of None \<Rightarrow> [] | Some b \<Rightarrow> [[b]])"
| "answers CountFills t rs \<longleftrightarrow> rs = [[of_nat (length (tb_fills t))]]"
| "answers MaxSequence t rs \<longleftrightarrow> rs = [[max_signed (map row_seq (tb_fills t))]]"
| "answers (SelectFillsFor a limit) t rs \<longleftrightarrow> newest_first (\<lambda>r. row_aggressorAccount r = a) limit t rs"
| "answers (SelectTape symbol limit) t rs \<longleftrightarrow> newest_first (\<lambda>r. row_symbol r = symbol) limit t rs"
| "answers SumLedger t rs \<longleftrightarrow> rs = [[word_of_int (ledger_sum t)]] \<and> sint (word_of_int (ledger_sum t) :: 64 word) = ledger_sum t"
| "answers SelectBalances t rs \<longleftrightarrow> rs = map (\<lambda>(a, b). [a, b]) (sort_key (\<lambda>(a, b). sint a) (tb_accounts t))"
| "answers st t rs \<longleftrightarrow> rs = []"

section \<open>The contract of SQLite\<close>

datatype reply = Rows "64 word list list" | Failed

fun control :: "statement \<Rightarrow> bool" where
  "control Begin = True"
| "control Commit = True"
| "control Rollback = True"
| "control st = False"

text \<open>
  \<open>view\<close> is what the connection sees; \<open>base\<close> is what it saw when the open transaction began. A failed
  statement has no effect, or the failure is one of those after which SQLite has rolled the whole
  transaction back.
\<close>

locale sqlite =
  fixes run :: "statement \<Rightarrow> 'db \<Rightarrow> reply \<times> 'db" and view :: "'db \<Rightarrow> tables" and base :: "'db \<Rightarrow> tables option"
  assumes begin_ok: "run Begin db = (Rows rs, db') \<Longrightarrow> base db = None \<and> base db' = Some (view db) \<and> view db' = view db"
    and begin_fails: "run Begin db = (Failed, db') \<Longrightarrow> base db' = base db \<and> view db' = view db"
    and commit_ok: "run Commit db = (Rows rs, db') \<Longrightarrow> base db \<noteq> None \<and> base db' = None \<and> view db' = view db"
    and rollback: "run Rollback db = (r, db') \<Longrightarrow>
      base db' = None \<and> view db' = (case base db of None \<Rightarrow> view db | Some t \<Rightarrow> t)"
    and statement_ok: "run st db = (Rows rs, db') \<Longrightarrow> \<not> control st \<Longrightarrow>
      change st (view db) = Some (view db') \<and> answers st (view db) rs \<and> base db' = base db"
    and fails: "run st db = (Failed, db') \<Longrightarrow> st \<noteq> Begin \<Longrightarrow> st \<noteq> Rollback \<Longrightarrow>
      base db' = base db \<and> view db' = view db \<or> base db = Some (view db') \<and> base db' = None"

text \<open>An engine that fails only where the transaction state or a constraint makes it.\<close>

locale reliable_sqlite = sqlite +
  assumes begins: "base db = None \<Longrightarrow> fst (run Begin db) \<noteq> Failed"
    and commits: "base db \<noteq> None \<Longrightarrow> fst (run Commit db) \<noteq> Failed"
    and executes: "\<not> control st \<Longrightarrow> st \<noteq> SumLedger \<Longrightarrow> change st (view db) \<noteq> None \<Longrightarrow> fst (run st db) \<noteq> Failed"

section \<open>A reference engine\<close>

record ref_db =
  rd_view :: tables
  rd_base :: "tables option"

fun ref_answer :: "statement \<Rightarrow> tables \<Rightarrow> 64 word list list option" where
  "ref_answer (SelectFill seq) t = Some (if seq \<in> fill_seqs t then [[1]] else [])"
| "ref_answer (SelectBalance a) t = Some (case map_of (tb_accounts t) a of None \<Rightarrow> [] | Some b \<Rightarrow> [[b]])"
| "ref_answer CountFills t = Some [[of_nat (length (tb_fills t))]]"
| "ref_answer MaxSequence t = Some [[max_signed (map row_seq (tb_fills t))]]"
| "ref_answer (SelectFillsFor a limit) t =
     Some (map columns (limited limit (sort_key (\<lambda>r. - sint (row_ts r)) (filter (\<lambda>r. row_aggressorAccount r = a) (tb_fills t)))))"
| "ref_answer (SelectTape symbol limit) t =
     Some (map columns (limited limit (sort_key (\<lambda>r. - sint (row_ts r)) (filter (\<lambda>r. row_symbol r = symbol) (tb_fills t)))))"
| "ref_answer SumLedger t =
     (let w = word_of_int (ledger_sum t) in if sint w = ledger_sum t then Some [[w]] else None)"
| "ref_answer SelectBalances t = Some (map (\<lambda>(a, b). [a, b]) (sort_key (\<lambda>(a, b). sint a) (tb_accounts t)))"
| "ref_answer st t = Some []"

text \<open>\<open>broken\<close> says at which statements the engine fails although nothing in the tables forbids them.\<close>

fun ref_run :: "(statement \<Rightarrow> bool) \<Rightarrow> statement \<Rightarrow> ref_db \<Rightarrow> reply \<times> ref_db" where
  "ref_run broken Begin db =
     (if broken Begin \<or> rd_base db \<noteq> None then (Failed, db) else (Rows [], db\<lparr>rd_base := Some (rd_view db)\<rparr>))"
| "ref_run broken Commit db =
     (if broken Commit \<or> rd_base db = None then (Failed, db) else (Rows [], db\<lparr>rd_base := None\<rparr>))"
| "ref_run broken Rollback db =
     (case rd_base db of None \<Rightarrow> (Failed, db) | Some t \<Rightarrow> (Rows [], \<lparr>rd_view = t, rd_base = None\<rparr>))"
| "ref_run broken st db =
     (if broken st then (Failed, db)
      else case (change st (rd_view db), ref_answer st (rd_view db)) of
             (Some t, Some rs) \<Rightarrow> (Rows rs, db\<lparr>rd_view := t\<rparr>)
           | _ \<Rightarrow> (Failed, db))"

lemma sorted_newest: "sorted_wrt (\<lambda>r r'. sint (row_ts r') \<le> sint (row_ts r)) (sort_key (\<lambda>r. - sint (row_ts r)) xs)"
  using sorted_sort_key [of "\<lambda>r. - sint (row_ts r)" xs] by (simp add: sorted_map)

lemma ref_answer_answers: "ref_answer st t = Some rs \<Longrightarrow> answers st t rs"
  by (cases st)
    (auto simp: newest_first_def Let_def sorted_newest split: if_splits intro!: exI [of _ "sort_key (\<lambda>r. - sint (row_ts r)) _"])

lemma ref_run_statement:
  "\<not> control st \<Longrightarrow> ref_run broken st db =
     (if broken st then (Failed, db)
      else case (change st (rd_view db), ref_answer st (rd_view db)) of
             (Some t, Some rs) \<Rightarrow> (Rows rs, db\<lparr>rd_view := t\<rparr>)
           | _ \<Rightarrow> (Failed, db))"
  by (cases st) simp_all

lemma ref_answer_defined: "st \<noteq> SumLedger \<Longrightarrow> ref_answer st t \<noteq> None"
  by (cases st) simp_all

interpretation ref: sqlite "ref_run broken" rd_view rd_base for broken
proof
  fix st db r db'
  assume f: "ref_run broken st db = (Failed, db')" and "st \<noteq> Begin" "st \<noteq> Rollback"
  then have "st = Commit \<or> \<not> control st" by (cases st) simp_all
  then show "rd_base db' = rd_base db \<and> rd_view db' = rd_view db \<or> rd_base db = Some (rd_view db') \<and> rd_base db' = None"
    using f ref_run_statement [of st broken db] by (auto split: if_splits option.splits)
next
  fix st db rs db'
  assume r: "ref_run broken st db = (Rows rs, db')" and c: "\<not> control st"
  then show "change st (rd_view db) = Some (rd_view db') \<and> answers st (rd_view db) rs \<and> rd_base db' = rd_base db"
    using ref_run_statement [OF c] ref_answer_answers by (auto split: if_splits option.splits)
qed (auto split: if_splits option.splits)

interpretation sound: reliable_sqlite "ref_run (\<lambda>st. False)" rd_view rd_base
proof
  fix st and db :: ref_db
  assume c: "\<not> control st" "st \<noteq> SumLedger" "change st (rd_view db) \<noteq> None"
  then obtain t rs where "change st (rd_view db) = Some t" "ref_answer st (rd_view db) = Some rs"
    using ref_answer_defined by fastforce
  then show "fst (ref_run (\<lambda>st. False) st db) \<noteq> Failed" using ref_run_statement [OF c(1)] by simp
qed auto

end
