(* ===== verification/Sqlite_Store.thy ===== *)
theory Sqlite_Store
  imports Sqlite Matching
begin

text \<open>
  \<^verbatim>\<open>store/sqlite_store.cpp\<close> with the \<^verbatim>\<open>Transaction\<close> and \<^verbatim>\<open>Statement\<close> of \<^verbatim>\<open>store/sqlite.cpp\<close>: the database of
  accounts, fills and ledger. Preparing, binding and stepping a statement are one call of the
  parameter \<open>run\<close>, whose failure is that of any of them. A multiplication or negation that overflows
  is undefined behaviour, the value \<^term>\<open>None\<close>. The properties hold for every engine that keeps the
  contract of the locale \<open>sqlite\<close>, wherever it fails.
\<close>

section \<open>Statements and transactions\<close>

text \<open>\<^verbatim>\<open>Database::exec\<close>, \<^verbatim>\<open>Statement::execute\<close> and \<^verbatim>\<open>Statement::step\<close>: an error code is thrown.\<close>

definition exec :: "(statement \<Rightarrow> 'db \<Rightarrow> reply \<times> 'db) \<Rightarrow> statement \<Rightarrow> 'db \<Rightarrow> 64 word list list result \<times> 'db" where
  "exec run st db = (case run st db of (Rows rs, db') \<Rightarrow> (Inr rs, db') | (Failed, db') \<Rightarrow> (Inl StorageError, db'))"

text \<open>\<^verbatim>\<open>Transaction::commit\<close>: the result, and whether \<^verbatim>\<open>committed_\<close> is set.\<close>

definition commit :: "(statement \<Rightarrow> 'db \<Rightarrow> reply \<times> 'db) \<Rightarrow> 'a \<Rightarrow> 'db \<Rightarrow> 'a result \<times> bool \<times> 'db" where
  "commit run x db = (case exec run Commit db of (Inl e, db') \<Rightarrow> (Inl e, False, db') | (Inr rs, db') \<Rightarrow> (Inr x, True, db'))"

text \<open>The destructor swallows an error of the rollback.\<close>

definition end_transaction :: "(statement \<Rightarrow> 'db \<Rightarrow> reply \<times> 'db) \<Rightarrow> bool \<Rightarrow> 'db \<Rightarrow> 'db" where
  "end_transaction run committed db = (if committed then db else snd (run Rollback db))"

text \<open>A scope with a transaction: begun by the constructor, ended by the destructor.\<close>

definition in_transaction ::
  "(statement \<Rightarrow> 'db \<Rightarrow> reply \<times> 'db) \<Rightarrow> ('db \<Rightarrow> ('a result \<times> bool \<times> 'db) option) \<Rightarrow> 'db \<Rightarrow> ('a result \<times> 'db) option" where
  "in_transaction run body db =
     (case exec run Begin db of
        (Inl e, db1) \<Rightarrow> Some (Inl e, db1)
      | (Inr rs, db1) \<Rightarrow> do {
          (r, committed, db2) \<leftarrow> body db1;
          Some (r, end_transaction run committed db2)
        })"

section \<open>The store\<close>

text \<open>\<open>opened\<close> is whether \<^verbatim>\<open>sqlite3_open_v2\<close> succeeded.\<close>

definition new_Database :: "(statement \<Rightarrow> 'db \<Rightarrow> reply \<times> 'db) \<Rightarrow> bool \<Rightarrow> 'db \<Rightarrow> unit result \<times> 'db" where
  "new_Database run opened db =
     (if \<not> opened then (Inl StorageError, db)
      else case exec run Pragmas db of (Inl e, db1) \<Rightarrow> (Inl e, db1) | (Inr rs, db1) \<Rightarrow> (Inr (), db1))"

definition createSchema :: "(statement \<Rightarrow> 'db \<Rightarrow> reply \<times> 'db) \<Rightarrow> 'db \<Rightarrow> unit result \<times> 'db" where
  "createSchema run db =
     (case exec run CreateTables db of
        (Inl e, db1) \<Rightarrow> (Inl e, db1)
      | (Inr rs, db1) \<Rightarrow>
          (case exec run CreateIndexes db1 of (Inl e, db2) \<Rightarrow> (Inl e, db2) | (Inr rs, db2) \<Rightarrow> (Inr (), db2)))"

definition new_SqliteStore :: "(statement \<Rightarrow> 'db \<Rightarrow> reply \<times> 'db) \<Rightarrow> bool \<Rightarrow> 'db \<Rightarrow> unit result \<times> 'db" where
  "new_SqliteStore run opened db =
     (case new_Database run opened db of (Inl e, db1) \<Rightarrow> (Inl e, db1) | (Inr u, db1) \<Rightarrow> createSchema run db1)"

definition createAccount ::
  "(statement \<Rightarrow> 'db \<Rightarrow> reply \<times> 'db) \<Rightarrow> AccountId \<Rightarrow> 64 word \<Rightarrow> 'db \<Rightarrow> unit result \<times> 'db" where
  "createAccount run account openingBalance db =
     (case exec run (InsertAccount (ucast account) openingBalance) db of
        (Inl e, db1) \<Rightarrow> (Inl e, db1)
      | (Inr rs, db1) \<Rightarrow> (Inr (), db1))"

definition notionalOf :: "Fill \<Rightarrow> 64 word option" where
  "notionalOf f =
     (let n = fl_price f * fl_quantity f
      in if sint n = sint (fl_price f) * sint (fl_quantity f) then Some n else None)"

definition negated :: "64 word \<Rightarrow> 64 word option" where
  "negated n = (if sint (- n) = - sint n then Some (- n) else None)"

record LedgerEntry =
  le_account :: AccountId
  le_delta :: "64 word"

fun side_int :: "Side \<Rightarrow> 64 word" where
  "side_int Buy = 0"
| "side_int Sell = 1"

definition int_side :: "64 word \<Rightarrow> Side" where
  "int_side v = (if (ucast v :: 8 word) = 0 then Buy else Sell)"

definition row_of :: "Sequence \<Rightarrow> 64 word \<Rightarrow> Fill \<Rightarrow> fill_row" where
  "row_of sequence timestamp f =
     \<lparr>row_seq = sequence, row_ts = timestamp, row_symbol = ''EXCH'',
      row_aggressorOrder = fl_aggressorId f, row_restingOrder = fl_restingId f,
      row_aggressorAccount = ucast (fl_aggressorAccount f), row_restingAccount = ucast (fl_restingAccount f),
      row_side = side_int (fl_aggressorSide f), row_price = fl_price f, row_quantity = fl_quantity f\<rparr>"

definition entries_of :: "Fill \<Rightarrow> LedgerEntry list option" where
  "entries_of f = do {
     notional \<leftarrow> notionalOf f;
     minus \<leftarrow> negated notional;
     let aggressorBuys = (fl_aggressorSide f = Buy);
     Some [\<lparr>le_account = fl_aggressorAccount f, le_delta = (if aggressorBuys then minus else notional)\<rparr>,
           \<lparr>le_account = fl_restingAccount f, le_delta = (if aggressorBuys then notional else minus)\<rparr>]
   }"

fun post_entries ::
  "(statement \<Rightarrow> 'db \<Rightarrow> reply \<times> 'db) \<Rightarrow> 64 word \<Rightarrow> LedgerEntry list \<Rightarrow> 'db \<Rightarrow> unit result \<times> 'db" where
  "post_entries run seq [] db = (Inr (), db)"
| "post_entries run seq (entry # rest) db =
     (case exec run (InsertPosting seq (ucast (le_account entry)) (le_delta entry)) db of
        (Inl e, db1) \<Rightarrow> (Inl e, db1)
      | (Inr rs, db1) \<Rightarrow>
          (case exec run (AdjustBalance (ucast (le_account entry)) (le_delta entry)) db1 of
             (Inl e, db2) \<Rightarrow> (Inl e, db2)
           | (Inr rs, db2) \<Rightarrow> post_entries run seq rest db2))"

definition record_body ::
  "(statement \<Rightarrow> 'db \<Rightarrow> reply \<times> 'db) \<Rightarrow> Sequence \<Rightarrow> Fill \<Rightarrow> 64 word \<Rightarrow> 'db \<Rightarrow> (bool result \<times> bool \<times> 'db) option" where
  "record_body run seq f timestamp db =
     (case exec run (SelectFill seq) db of
        (Inl e, db1) \<Rightarrow> Some (Inl e, False, db1)
      | (Inr (row # rows), db1) \<Rightarrow> Some (commit run False db1)
      | (Inr [], db1) \<Rightarrow>
          (case exec run (InsertFill (row_of seq timestamp f)) db1 of
             (Inl e, db2) \<Rightarrow> Some (Inl e, False, db2)
           | (Inr rs, db2) \<Rightarrow> do {
               entries \<leftarrow> entries_of f;
               Some (case post_entries run seq entries db2 of
                       (Inl e, db3) \<Rightarrow> (Inl e, False, db3)
                     | (Inr u, db3) \<Rightarrow> commit run True db3)
             }))"

definition recordFill ::
  "(statement \<Rightarrow> 'db \<Rightarrow> reply \<times> 'db) \<Rightarrow> Sequence \<Rightarrow> Fill \<Rightarrow> 64 word \<Rightarrow> 'db \<Rightarrow> (bool result \<times> 'db) option" where
  "recordFill run sequence f timestamp db = in_transaction run (record_body run sequence f timestamp) db"

section \<open>Queries\<close>

text \<open>A column of a row; the rows of each query have the columns that are read.\<close>

definition columnInt :: "nat \<Rightarrow> 64 word list \<Rightarrow> 64 word" where
  "columnInt i row = (if i < length row then row ! i else 0)"

definition balanceOf ::
  "(statement \<Rightarrow> 'db \<Rightarrow> reply \<times> 'db) \<Rightarrow> AccountId \<Rightarrow> 'db \<Rightarrow> 64 word option result \<times> 'db" where
  "balanceOf run account db =
     (case exec run (SelectBalance (ucast account)) db of
        (Inl e, db1) \<Rightarrow> (Inl e, db1)
      | (Inr [], db1) \<Rightarrow> (Inr None, db1)
      | (Inr (row # rows), db1) \<Rightarrow> (Inr (Some (columnInt 0 row)), db1))"

text \<open>The queries for one number: 0 when there is no row.\<close>

definition scalar :: "(statement \<Rightarrow> 'db \<Rightarrow> reply \<times> 'db) \<Rightarrow> statement \<Rightarrow> 'db \<Rightarrow> 64 word result \<times> 'db" where
  "scalar run st db =
     (case exec run st db of
        (Inl e, db1) \<Rightarrow> (Inl e, db1)
      | (Inr [], db1) \<Rightarrow> (Inr 0, db1)
      | (Inr (row # rows), db1) \<Rightarrow> (Inr (columnInt 0 row), db1))"

definition fillCount :: "(statement \<Rightarrow> 'db \<Rightarrow> reply \<times> 'db) \<Rightarrow> 'db \<Rightarrow> 64 word result \<times> 'db" where
  "fillCount run db = scalar run CountFills db"

definition lastFillSequence :: "(statement \<Rightarrow> 'db \<Rightarrow> reply \<times> 'db) \<Rightarrow> 'db \<Rightarrow> Sequence result \<times> 'db" where
  "lastFillSequence run db = scalar run MaxSequence db"

definition ledgerImbalance :: "(statement \<Rightarrow> 'db \<Rightarrow> reply \<times> 'db) \<Rightarrow> 'db \<Rightarrow> 64 word result \<times> 'db" where
  "ledgerImbalance run db = scalar run SumLedger db"

definition fill_of_row :: "64 word list \<Rightarrow> Fill" where
  "fill_of_row row =
     \<lparr>fl_aggressorId = columnInt 0 row, fl_restingId = columnInt 1 row, fl_price = columnInt 2 row,
      fl_quantity = columnInt 3 row, fl_aggressorAccount = ucast (columnInt 4 row),
      fl_restingAccount = ucast (columnInt 5 row), fl_aggressorSide = int_side (columnInt 6 row)\<rparr>"

definition fillsForAccount ::
  "(statement \<Rightarrow> 'db \<Rightarrow> reply \<times> 'db) \<Rightarrow> AccountId \<Rightarrow> 64 word \<Rightarrow> 'db \<Rightarrow> Fill list result \<times> 'db" where
  "fillsForAccount run account limit db =
     (case exec run (SelectFillsFor (ucast account) limit) db of
        (Inl e, db1) \<Rightarrow> (Inl e, db1)
      | (Inr rs, db1) \<Rightarrow> (Inr (map fill_of_row rs), db1))"

definition recentFills ::
  "(statement \<Rightarrow> 'db \<Rightarrow> reply \<times> 'db) \<Rightarrow> 64 word \<Rightarrow> 'db \<Rightarrow> Fill list result \<times> 'db" where
  "recentFills run limit db =
     (case exec run (SelectTape ''EXCH'' limit) db of
        (Inl e, db1) \<Rightarrow> (Inl e, db1)
      | (Inr rs, db1) \<Rightarrow> (Inr (map fill_of_row rs), db1))"

record AccountBalance =
  ab_account :: AccountId
  ab_balance :: "64 word"

definition allBalances :: "(statement \<Rightarrow> 'db \<Rightarrow> reply \<times> 'db) \<Rightarrow> 'db \<Rightarrow> AccountBalance list result \<times> 'db" where
  "allBalances run db =
     (case exec run SelectBalances db of
        (Inl e, db1) \<Rightarrow> (Inl e, db1)
      | (Inr rs, db1) \<Rightarrow> (Inr (map (\<lambda>row. \<lparr>ab_account = ucast (columnInt 0 row), ab_balance = columnInt 1 row\<rparr>) rs), db1))"

section \<open>What recording a fill does to the tables\<close>

fun posted :: "64 word \<Rightarrow> LedgerEntry list \<Rightarrow> tables \<Rightarrow> tables option" where
  "posted seq [] t = Some t"
| "posted seq (e # es) t = do {
     t1 \<leftarrow> insert_posting seq (ucast (le_account e)) (le_delta e) t;
     t2 \<leftarrow> adjust_balance (ucast (le_account e)) (le_delta e) t1;
     posted seq es t2
   }"

definition recorded :: "Sequence \<Rightarrow> Fill \<Rightarrow> 64 word \<Rightarrow> tables \<Rightarrow> tables option" where
  "recorded seq f timestamp t = do {
     t1 \<leftarrow> insert_fill (row_of seq timestamp f) t;
     es \<leftarrow> entries_of f;
     posted seq es t1
   }"

text \<open>The sum of the postings to one account.\<close>

definition posted_to :: "64 word \<Rightarrow> ledger_row list \<Rightarrow> int" where
  "posted_to a rs = (\<Sum>r \<leftarrow> filter (\<lambda>r. lr_account r = a) rs. sint (lr_delta r))"

lemma posted_to_simps [simp]:
  "posted_to a [] = 0"
  "posted_to a (r # rs) = (if lr_account r = a then sint (lr_delta r) else 0) + posted_to a rs"
  "posted_to a (rs @ rs') = posted_to a rs + posted_to a rs'"
  by (simp_all add: posted_to_def)

text \<open>Postings that explain how the balances changed; accounts are never lost.\<close>

definition explains :: "ledger_row list \<Rightarrow> tables \<Rightarrow> tables \<Rightarrow> bool" where
  "explains rs t t' \<longleftrightarrow> tb_ledger t' = tb_ledger t @ rs \<and> account_ids t \<subseteq> account_ids t' \<and>
     (\<forall>a b. map_of (tb_accounts t) a = Some b \<longrightarrow>
        (\<exists>b'. map_of (tb_accounts t') a = Some b' \<and> sint b' = sint b + posted_to a rs))"

lemma explains_refl [simp]: "explains [] t t"
  by (simp add: explains_def)

lemma explains_trans: "explains rs t t' \<Longrightarrow> explains rs' t' t'' \<Longrightarrow> explains (rs @ rs') t t''"
  unfolding explains_def by (fastforce simp: add.assoc)

lemma insert_account_explains: "explains [] t (insert_account a b t)"
  by (auto simp: explains_def insert_account_def account_ids_def)

lemma al_adjust_key_set: "fst ` set (al_adjust k f xs) = fst ` set xs"
  by (metis al_adjust_keys list.set_map)

lemma account_ids_adjust:
  assumes "adjust_balance a d t = Some t'"
  shows "account_ids t' = account_ids t \<and> tb_fills t' = tb_fills t \<and> tb_ledger t' = tb_ledger t"
proof (cases "map_of (tb_accounts t) a")
  case (Some b)
  then have "t' = t\<lparr>tb_accounts := al_adjust a (\<lambda>_. b + d) (tb_accounts t)\<rparr>"
    using assms by (simp add: adjust_balance_def split: if_splits)
  then show ?thesis by (simp add: account_ids_def al_adjust_key_set)
qed (use assms in \<open>simp add: adjust_balance_def\<close>)

lemma post_one_explains:
  assumes "insert_posting seq a d t = Some t1" and "adjust_balance a d t1 = Some t2"
  shows "explains [\<lparr>lr_fill = seq, lr_account = a, lr_delta = d\<rparr>] t t2" and "a \<in> account_ids t"
    and "account_ids t2 = account_ids t" and "tb_fills t2 = tb_fills t"
proof -
  have t1: "t1 = t\<lparr>tb_ledger := tb_ledger t @ [\<lparr>lr_fill = seq, lr_account = a, lr_delta = d\<rparr>]\<rparr>" and a: "a \<in> account_ids t"
    using assms(1) by (auto simp: insert_posting_def split: if_splits)
  then obtain b where b: "map_of (tb_accounts t) a = Some b"
    unfolding account_ids_def by (metis domIff dom_map_of_conv_image_fst not_Some_eq)
  then show "explains [\<lparr>lr_fill = seq, lr_account = a, lr_delta = d\<rparr>] t t2"
    using assms(2) account_ids_adjust [OF assms(2)] t1
    by (auto simp: explains_def adjust_balance_def map_of_al_adjust account_ids_def split: if_splits)
  show "a \<in> account_ids t" "account_ids t2 = account_ids t" "tb_fills t2 = tb_fills t"
    using a t1 account_ids_adjust [OF assms(2)] by (simp_all add: account_ids_def)
qed

lemma posted_explains:
  "posted seq es t = Some t' \<Longrightarrow>
     explains (map (\<lambda>e. \<lparr>lr_fill = seq, lr_account = ucast (le_account e), lr_delta = le_delta e\<rparr>) es) t t' \<and>
     tb_fills t' = tb_fills t \<and> account_ids t' = account_ids t \<and> (\<forall>e \<in> set es. ucast (le_account e) \<in> account_ids t)"
proof (induction es arbitrary: t)
  case (Cons e es)
  from Cons.prems obtain t1 t2 where t: "insert_posting seq (ucast (le_account e)) (le_delta e) t = Some t1"
    "adjust_balance (ucast (le_account e)) (le_delta e) t1 = Some t2" "posted seq es t2 = Some t'"
    by (auto split: Option.bind_splits)
  show ?case using Cons.IH [OF t(3)] post_one_explains [OF t(1,2)] explains_trans by fastforce
qed simp

text \<open>The buyer pays what the seller receives.\<close>

definition buyer :: "Fill \<Rightarrow> 64 word" where
  "buyer f = ucast (if fl_aggressorSide f = Buy then fl_aggressorAccount f else fl_restingAccount f)"

definition seller :: "Fill \<Rightarrow> 64 word" where
  "seller f = ucast (if fl_aggressorSide f = Buy then fl_restingAccount f else fl_aggressorAccount f)"

definition value_of :: "Fill \<Rightarrow> int" where
  "value_of f = sint (fl_price f) * sint (fl_quantity f)"

definition trade_recorded :: "Sequence \<Rightarrow> Fill \<Rightarrow> 64 word \<Rightarrow> tables \<Rightarrow> tables \<Rightarrow> bool" where
  "trade_recorded seq f timestamp t t' \<longleftrightarrow>
     seq \<notin> fill_seqs t \<and> tb_fills t' = tb_fills t @ [row_of seq timestamp f] \<and>
     {buyer f, seller f} \<subseteq> account_ids t \<and> account_ids t' = account_ids t \<and>
     (\<exists>rs. explains rs t t' \<and> map lr_fill rs = [seq, seq] \<and> (\<Sum>r \<leftarrow> rs. sint (lr_delta r)) = 0 \<and>
        (\<forall>a. posted_to a rs = (if a = seller f then value_of f else 0) - (if a = buyer f then value_of f else 0)))"

lemma entries_of_cases:
  assumes "entries_of f = Some es"
  obtains n where "sint n = value_of f" and "sint (- n) = - value_of f"
    and "es = [\<lparr>le_account = fl_aggressorAccount f, le_delta = (if fl_aggressorSide f = Buy then - n else n)\<rparr>,
           \<lparr>le_account = fl_restingAccount f, le_delta = (if fl_aggressorSide f = Buy then n else - n)\<rparr>]"
  using assms by (auto simp: entries_of_def notionalOf_def negated_def value_of_def Let_def split: if_splits Option.bind_splits)

lemma recorded_trade:
  assumes "recorded seq f timestamp t = Some t'"
  shows "trade_recorded seq f timestamp t t'"
proof -
  obtain t1 es where t1: "insert_fill (row_of seq timestamp f) t = Some t1" and es: "entries_of f = Some es"
    and t': "posted seq es t1 = Some t'"
    using assms by (auto simp: recorded_def split: Option.bind_splits)
  have new: "seq \<notin> fill_seqs t" "t1 = t\<lparr>tb_fills := tb_fills t @ [row_of seq timestamp f]\<rparr>"
    using t1 by (auto simp: insert_fill_def row_of_def split: if_splits)
  obtain n where n: "sint n = value_of f" "sint (- n) = - value_of f"
    "es = [\<lparr>le_account = fl_aggressorAccount f, le_delta = (if fl_aggressorSide f = Buy then - n else n)\<rparr>,
           \<lparr>le_account = fl_restingAccount f, le_delta = (if fl_aggressorSide f = Buy then n else - n)\<rparr>]"
    using entries_of_cases [OF es] .
  let ?rs = "map (\<lambda>e. \<lparr>lr_fill = seq, lr_account = ucast (le_account e), lr_delta = le_delta e\<rparr>) es"
  note p = posted_explains [OF t']
  have ids: "account_ids t1 = account_ids t" "tb_accounts t1 = tb_accounts t" "tb_ledger t1 = tb_ledger t"
    using new(2) by (simp_all add: account_ids_def)
  then have ex: "explains ?rs t t'" using p by (simp add: explains_def)
  have bal: "(\<Sum>r \<leftarrow> ?rs. sint (lr_delta r)) = 0" using n by simp
  have to: "posted_to a ?rs = (if a = seller f then value_of f else 0) - (if a = buyer f then value_of f else 0)" for a
    using n by (auto simp: seller_def buyer_def)
  have seqs: "map lr_fill ?rs = [seq, seq]" using n(3) by simp
  have known: "{buyer f, seller f} \<subseteq> account_ids t" using p n(3) ids by (auto simp: buyer_def seller_def)
  have "\<exists>rs. explains rs t t' \<and> map lr_fill rs = [seq, seq] \<and> (\<Sum>r \<leftarrow> rs. sint (lr_delta r)) = 0 \<and>
      (\<forall>a. posted_to a rs = (if a = seller f then value_of f else 0) - (if a = buyer f then value_of f else 0))"
    by (rule exI [of _ ?rs]) (intro conjI allI ex bal to seqs)
  moreover have "tb_fills t' = tb_fills t @ [row_of seq timestamp f]" "account_ids t' = account_ids t"
    using p new ids by simp_all
  ultimately show ?thesis using new(1) known unfolding trade_recorded_def by simp
qed

text \<open>What the result of \<^verbatim>\<open>recordFill\<close> says about the tables.\<close>

definition fill_outcome :: "Sequence \<Rightarrow> Fill \<Rightarrow> 64 word \<Rightarrow> tables \<Rightarrow> bool result \<Rightarrow> tables \<Rightarrow> bool" where
  "fill_outcome seq f timestamp t r t' \<longleftrightarrow>
     (case r of
        Inl e \<Rightarrow> t' = t
      | Inr new \<Rightarrow> if new then recorded seq f timestamp t = Some t' else seq \<in> fill_seqs t \<and> t' = t)"

section \<open>The store on an engine that keeps the contract\<close>

context sqlite
begin

text \<open>Whatever happened since, rolling back leads to \<open>t\<close>.\<close>

definition returns_to :: "tables \<Rightarrow> 'db \<Rightarrow> bool" where
  "returns_to t db \<longleftrightarrow> base db = Some t \<or> base db = None \<and> view db = t"

lemma rollback_returns: "returns_to t db \<Longrightarrow> base (snd (run Rollback db)) = None \<and> view (snd (run Rollback db)) = t"
  using rollback [OF prod.collapse [symmetric]] by (auto simp: returns_to_def)

lemma exec_ok:
  assumes "exec run st db = (Inr rs, db')" and "\<not> control st"
  shows "change st (view db) = Some (view db')" and "answers st (view db) rs" and "base db' = base db"
  using assms statement_ok [of st db rs db'] by (auto simp: exec_def split: prod.splits reply.splits)

lemma exec_fails:
  assumes "exec run st db = (Inl e, db')" and "st \<noteq> Begin" and "st \<noteq> Rollback"
  shows "base db = Some t \<Longrightarrow> returns_to t db'" and "base db = None \<Longrightarrow> base db' = None \<and> view db' = view db"
  using assms fails [of st db db'] by (auto simp: exec_def returns_to_def split: prod.splits reply.splits)

lemma post_entries_effect:
  assumes "post_entries run seq es db = (r, db')" and "base db = Some t0"
  shows "case r of Inl e \<Rightarrow> returns_to t0 db' | Inr u \<Rightarrow> base db' = Some t0 \<and> posted seq es (view db) = Some (view db')"
  using assms
proof (induction es arbitrary: db)
  case (Cons e es)
  let ?post = "InsertPosting seq (ucast (le_account e)) (le_delta e)"
  let ?adjust = "AdjustBalance (ucast (le_account e)) (le_delta e)"
  obtain r1 db1 where r1: "exec run ?post db = (r1, db1)" by (cases "exec run ?post db")
  obtain r2 db2 where r2: "exec run ?adjust db1 = (r2, db2)" by (cases "exec run ?adjust db1")
  show ?case
  proof (cases r1)
    case (Inl x)
    then show ?thesis using Cons.prems r1 exec_fails(1) [of ?post db x db1 t0] by auto
  next
    case r1': (Inr rs)
    note ok1 = exec_ok [OF r1 [unfolded r1']]
    show ?thesis
    proof (cases r2)
      case (Inl x)
      then show ?thesis using Cons.prems r1 r1' r2 ok1 exec_fails(1) [of ?adjust db1 x db2 t0] by auto
    next
      case r2': (Inr rs2)
      note ok2 = exec_ok [OF r2 [unfolded r2']]
      have "post_entries run seq es db2 = (r, db')" using Cons.prems(1) r1 r1' r2 r2' by simp
      from Cons.IH [OF this] show ?thesis using Cons.prems(2) ok1 ok2 by (auto split: sum.splits)
    qed
  qed
qed auto

lemma commit_effect:
  assumes "commit run x db = (r, c, db')" and "base db = Some t0"
  shows "case r of Inl e \<Rightarrow> \<not> c \<and> returns_to t0 db' | Inr y \<Rightarrow> c \<and> y = x \<and> base db' = None \<and> view db' = view db"
  using assms commit_ok [of db] exec_fails(1) [of Commit db]
  by (auto simp: commit_def exec_def split: prod.splits reply.splits)

lemma record_body_effect:
  assumes "record_body run seq f timestamp db = Some (r, c, db')" and "base db = Some t" and "view db = t"
  shows "if c then base db' = None \<and> (\<exists>new. r = Inr new) \<and> fill_outcome seq f timestamp t r (view db')
     else returns_to t db' \<and> (\<exists>e. r = Inl e)"
proof -
  obtain r1 db1 where r1: "exec run (SelectFill seq) db = (r1, db1)" by (cases "exec run (SelectFill seq) db")
  show ?thesis
  proof (cases r1)
    case (Inl e)
    then show ?thesis using assms r1 exec_fails(1) [of "SelectFill seq" db e db1 t] by (auto simp: record_body_def)
  next
    case r1': (Inr rs)
    note s = exec_ok [OF r1 [unfolded r1'], simplified]
    then have b1: "base db1 = Some t" "view db1 = t" using assms by simp_all
    show ?thesis
    proof (cases "seq \<in> fill_seqs t")
      case True
      then have "commit run False db1 = (r, c, db')" using assms s r1 r1' by (simp add: record_body_def)
      from commit_effect [OF this b1(1)] show ?thesis using b1 True by (auto simp: fill_outcome_def split: sum.splits)
    next
      case False
      let ?ins = "InsertFill (row_of seq timestamp f)"
      obtain r2 db2 where r2: "exec run ?ins db1 = (r2, db2)" by (cases "exec run ?ins db1")
      show ?thesis
      proof (cases r2)
        case (Inl e)
        then show ?thesis using assms s r1 r1' r2 False exec_fails(1) [of ?ins db1 e db2 t] b1 by (auto simp: record_body_def)
      next
        case r2': (Inr rs2)
        note i = exec_ok [OF r2 [unfolded r2'], simplified]
        obtain es where es: "entries_of f = Some es"
          using assms(1) s r1 r1' r2 r2' False assms(3) by (auto simp: record_body_def split: Option.bind_splits)
        obtain r3 db3 where r3: "post_entries run seq es db2 = (r3, db3)" by (cases "post_entries run seq es db2")
        note p = post_entries_effect [OF r3, of t]
        have e: "(case r3 of Inl e \<Rightarrow> (Inl e, False, db3) | Inr u \<Rightarrow> commit run True db3) = (r, c, db')"
          using assms(1,3) s r1 r1' r2 r2' False es r3 by (simp add: record_body_def)
        show ?thesis
        proof (cases r3)
          case (Inl x)
          then show ?thesis using e p i b1 by auto
        next
          case (Inr u)
          then have "base db3 = Some t" "recorded seq f timestamp t = Some (view db3)"
            using p i b1 es by (simp_all add: recorded_def)
          moreover have "commit run True db3 = (r, c, db')" using e Inr by simp
          ultimately show ?thesis
            using commit_effect [of True db3 r c db' t] by (auto simp: fill_outcome_def split: sum.splits)
        qed
      qed
    qed
  qed
qed

lemma recordFill_effect:
  assumes "recordFill run seq f timestamp db = Some (r, db')" and "base db = None"
  shows "base db' = None \<and> fill_outcome seq f timestamp (view db) r (view db')"
proof -
  obtain r1 db1 where b: "run Begin db = (r1, db1)" by (cases "run Begin db")
  show ?thesis
  proof (cases r1)
    case Failed
    then have "r = Inl StorageError" "db' = db1" using assms(1) b by (simp_all add: recordFill_def in_transaction_def exec_def)
    then show ?thesis using begin_fails [OF b [unfolded Failed]] assms(2) by (simp add: fill_outcome_def)
  next
    case (Rows rs)
    note ok = begin_ok [OF b [unfolded Rows]]
    obtain c db2 where body: "record_body run seq f timestamp db1 = Some (r, c, db2)" and d: "db' = end_transaction run c db2"
      using assms(1) b Rows by (auto simp: recordFill_def in_transaction_def exec_def split: Option.bind_splits)
    have "if c then base db2 = None \<and> (\<exists>new. r = Inr new) \<and> fill_outcome seq f timestamp (view db) r (view db2)
       else returns_to (view db) db2 \<and> (\<exists>e. r = Inl e)"
      using ok by (intro record_body_effect [OF body]) simp_all
    then show ?thesis using d rollback_returns [of "view db" db2]
      by (cases c) (auto simp: end_transaction_def fill_outcome_def)
  qed
qed

lemma query_keeps:
  assumes "exec run st db = (r, db')" and "base db = None" and "\<not> control st" and "\<And>t. change st t = Some t"
  shows "base db' = None \<and> view db' = view db"
proof (cases r)
  case (Inl e)
  moreover have "st \<noteq> Begin" "st \<noteq> Rollback" using assms(3) by auto
  ultimately show ?thesis using exec_fails(2) [of st db e db'] assms(1,2) by simp
next
  case (Inr rs)
  then show ?thesis using exec_ok [of st db rs db'] assms by simp
qed

end

end
