(* ===== verification/Recovery.thy ===== *)
theory Recovery
  imports Write_Ahead_Log Sqlite_Store
begin

text \<open>
  \<^verbatim>\<open>store/recovery.hpp\<close> and \<^verbatim>\<open>store/recovery.cpp\<close>: rebuilding the book from the log after a crash.
  The file and the outcome of the system calls are parameters as in the theory of the log; the
  database is asked for its last sequence number, through the engine \<open>sql\<close>, and for nothing else.
\<close>

section \<open>Model\<close>

record RecoveryReport =
  rec_recordsReplayed :: nat
  rec_recordsRejected :: nat
  rec_fillsReplayed :: nat
  rec_fillsPersisted :: nat
  rec_logTruncated :: bool
  rec_validBytes :: nat
  rec_lastSequence :: Sequence

definition new_RecoveryReport :: RecoveryReport where
  "new_RecoveryReport = \<lparr>rec_recordsReplayed = 0, rec_recordsRejected = 0, rec_fillsReplayed = 0,
     rec_fillsPersisted = 0, rec_logTruncated = False, rec_validBytes = 0, rec_lastSequence = 0\<rparr>"

definition replayOne :: "Book \<Rightarrow> WalRecord \<Rightarrow> RecoveryReport \<Rightarrow> (Book \<times> RecoveryReport) option" where
  "replayOne bk record report = do {
     (r, bk') \<leftarrow> applyCommand price_time_plan (wr_command record) bk;
     let report1 =
       (case r of
          Inr outcome \<Rightarrow>
            (if ao_accepted outcome
             then report\<lparr>rec_recordsReplayed := rec_recordsReplayed report + 1\<rparr>
             else report\<lparr>rec_recordsRejected := rec_recordsRejected report + 1\<rparr>)
            \<lparr>rec_fillsReplayed := rec_fillsReplayed report + length (ao_fills outcome)\<rparr>
        | Inl e \<Rightarrow> report\<lparr>rec_recordsRejected := rec_recordsRejected report + 1\<rparr>);
     Some (bk', report1\<lparr>rec_lastSequence := wr_sequence record\<rparr>)
   }"

fun replay_records :: "WalRecord list \<Rightarrow> Book \<Rightarrow> RecoveryReport \<Rightarrow> (Book \<times> RecoveryReport) option" where
  "replay_records [] bk report = Some (bk, report)"
| "replay_records (record # records) bk report = do {
     (bk', report') \<leftarrow> replayOne bk record report;
     replay_records records bk' report'
   }"

text \<open>The log file, its read results and the outcome of \<^verbatim>\<open>truncate\<close>; the result carries the file.\<close>

definition trim :: "open_result \<Rightarrow> bool \<Rightarrow> ReplayResult \<Rightarrow> unit result \<times> open_result" where
  "trim opened truncateOk replayed =
     (case opened of
        Opened bytes \<Rightarrow>
          if rp_truncated replayed
          then (case truncateTo truncateOk (rp_validBytes replayed) bytes of (r, bytes') \<Rightarrow> (r, Opened bytes'))
          else (Inr (), opened)
      | _ \<Rightarrow> (Inr (), opened))"

definition recoverBookOnly ::
  "open_result \<Rightarrow> io_result list \<Rightarrow> bool \<Rightarrow> Book \<Rightarrow> (RecoveryReport result \<times> Book \<times> open_result) option" where
  "recoverBookOnly opened script truncateOk bk = do {
     replayed \<leftarrow> replay opened script;
     case replayed of
       Inl e \<Rightarrow> Some (Inl e, bk, opened)
     | Inr rp \<Rightarrow> do {
         let report = new_RecoveryReport\<lparr>rec_logTruncated := rp_truncated rp, rec_validBytes := rp_validBytes rp\<rparr>;
         (bk', report') \<leftarrow> replay_records (rp_records rp) bk report;
         Some (case trim opened truncateOk rp of
                 (Inl e, opened') \<Rightarrow> (Inl e, bk', opened')
               | (Inr u, opened') \<Rightarrow> (Inr report', bk', opened'))
       }
   }"

fun recover_records ::
  "Sequence \<Rightarrow> WalRecord list \<Rightarrow> Book \<Rightarrow> RecoveryReport \<Rightarrow> (Book \<times> RecoveryReport) option" where
  "recover_records persistedThrough [] bk report = Some (bk, report)"
| "recover_records persistedThrough (record # records) bk report = do {
     (bk', step) \<leftarrow> replayOne bk record new_RecoveryReport;
     let report1 = report\<lparr>rec_recordsReplayed := rec_recordsReplayed report + rec_recordsReplayed step,
                          rec_recordsRejected := rec_recordsRejected report + rec_recordsRejected step,
                          rec_fillsReplayed := rec_fillsReplayed report + rec_fillsReplayed step,
                          rec_lastSequence := wr_sequence record\<rparr>;
     let report2 = (if wr_sequence record > persistedThrough
                    then report1\<lparr>rec_fillsPersisted := rec_fillsPersisted report1 + rec_fillsReplayed step\<rparr>
                    else report1);
     recover_records persistedThrough records bk' report2
   }"

definition recover ::
  "open_result \<Rightarrow> io_result list \<Rightarrow> bool \<Rightarrow> (statement \<Rightarrow> 'db \<Rightarrow> reply \<times> 'db) \<Rightarrow> Book \<Rightarrow> 'db \<Rightarrow>
     (RecoveryReport result \<times> Book \<times> open_result \<times> 'db) option" where
  "recover opened script truncateOk sql bk db = do {
     replayed \<leftarrow> replay opened script;
     case replayed of
       Inl e \<Rightarrow> Some (Inl e, bk, opened, db)
     | Inr rp \<Rightarrow>
         (case lastFillSequence sql db of
            (Inl e, db') \<Rightarrow> Some (Inl e, bk, opened, db')
          | (Inr persistedThrough, db') \<Rightarrow> do {
              let report = new_RecoveryReport\<lparr>rec_logTruncated := rp_truncated rp, rec_validBytes := rp_validBytes rp\<rparr>;
              (bk', report') \<leftarrow> recover_records persistedThrough (rp_records rp) bk report;
              Some (case trim opened truncateOk rp of
                      (Inl e, opened') \<Rightarrow> (Inl e, bk', opened', db')
                    | (Inr u, opened') \<Rightarrow> (Inr report', bk', opened', db'))
            })
   }"

section \<open>Replay is serial execution\<close>


lemma recover_records_book:
  "map_option fst (recover_records n ws bk report) =
     map_option snd (apply_all price_time_plan (map wr_command ws) bk)"
proof (induction ws arbitrary: bk report)
  case (Cons w ws)
  show ?case
  proof (cases "applyCommand price_time_plan (wr_command w) bk")
    case (Some p)
    obtain r bk' where p: "p = (r, bk')" by (cases p)
    then obtain step where "replayOne bk w new_RecoveryReport = Some (bk', step)"
      using Some by (auto simp: replayOne_def Let_def)
    then show ?thesis
      using Some p Cons.IH [of bk'] by (cases "apply_all price_time_plan (map wr_command ws) bk'") (auto simp: Let_def)
  qed (simp add: replayOne_def)
qed simp

lemma replayOne_add:
  assumes "replayOne bk w new_RecoveryReport = Some (bk', st)"
  shows "replayOne bk w report = Some (bk', report
     \<lparr>rec_recordsReplayed := rec_recordsReplayed report + rec_recordsReplayed st,
      rec_recordsRejected := rec_recordsRejected report + rec_recordsRejected st,
      rec_fillsReplayed := rec_fillsReplayed report + rec_fillsReplayed st, rec_lastSequence := wr_sequence w\<rparr>)"
  using assms by (auto simp: replayOne_def Let_def new_RecoveryReport_def split: Option.bind_splits sum.splits)

text \<open>The two recovery loops differ only in the count of fills newer than the database.\<close>

lemma recover_records_replay:
  "recover_records n ws bk report = Some (bk', report') \<Longrightarrow> rec_fillsPersisted report \<le> rec_fillsReplayed report \<Longrightarrow>
     replay_records ws bk (report\<lparr>rec_fillsPersisted := 0\<rparr>) = Some (bk', report'\<lparr>rec_fillsPersisted := 0\<rparr>) \<and>
       rec_fillsPersisted report' \<le> rec_fillsReplayed report'"
proof (induction ws arbitrary: bk report)
  case (Cons w ws)
  obtain bk1 st where one: "replayOne bk w new_RecoveryReport = Some (bk1, st)"
    using Cons.prems(1) by (auto split: Option.bind_splits)
  define r1 where "r1 = report\<lparr>rec_recordsReplayed := rec_recordsReplayed report + rec_recordsReplayed st,
      rec_recordsRejected := rec_recordsRejected report + rec_recordsRejected st,
      rec_fillsReplayed := rec_fillsReplayed report + rec_fillsReplayed st, rec_lastSequence := wr_sequence w\<rparr>"
  define r2 where "r2 = (if wr_sequence w > n then r1\<lparr>rec_fillsPersisted := rec_fillsPersisted r1 + rec_fillsReplayed st\<rparr> else r1)"
  have step: "recover_records n ws bk1 r2 = Some (bk', report')"
    using Cons.prems(1) one by (auto simp: r1_def r2_def Let_def split: if_splits)
  have "rec_fillsPersisted r2 \<le> rec_fillsReplayed r2" using Cons.prems(2) by (simp add: r1_def r2_def)
  moreover have "r2\<lparr>rec_fillsPersisted := 0\<rparr> = r1\<lparr>rec_fillsPersisted := 0\<rparr>" by (simp add: r2_def)
  moreover have "replayOne bk w (report\<lparr>rec_fillsPersisted := 0\<rparr>) = Some (bk1, r1\<lparr>rec_fillsPersisted := 0\<rparr>)"
    using replayOne_add [OF one, of "report\<lparr>rec_fillsPersisted := 0\<rparr>"] by (simp add: r1_def)
  ultimately show ?case using Cons.IH [OF step] by simp
qed simp


section \<open>Properties\<close>






text \<open>
  Recovery with a database and recovery without one rebuild the same book, leave the same file
  and report the same counts; the count of fills beyond the database never exceeds the count of
  fills replayed.
\<close>

lemma recover_same_as_book_only:
  assumes "recover opened script truncateOk sql bk db = Some (Inr report, bk', opened', db')"
  shows "recoverBookOnly opened script truncateOk bk = Some (Inr (report\<lparr>rec_fillsPersisted := 0\<rparr>), bk', opened') \<and>
     rec_fillsPersisted report \<le> rec_fillsReplayed report"
proof -
  obtain rp n where rp: "replay opened script = Some (Inr rp)"
    and recs: "recover_records n (rp_records rp) bk
      (new_RecoveryReport\<lparr>rec_logTruncated := rp_truncated rp, rec_validBytes := rp_validBytes rp\<rparr>) = Some (bk', report)"
    and t: "trim opened truncateOk rp = (Inr (), opened')"
    using assms by (auto simp: recover_def Let_def split: Option.bind_splits sum.splits prod.splits)
  have "rec_fillsPersisted report \<le> rec_fillsReplayed report \<and>
      replay_records (rp_records rp) bk
        (new_RecoveryReport\<lparr>rec_logTruncated := rp_truncated rp, rec_validBytes := rp_validBytes rp\<rparr>) =
      Some (bk', report\<lparr>rec_fillsPersisted := 0\<rparr>)"
    using recover_records_replay [OF recs] by (simp add: new_RecoveryReport_def)
  then show ?thesis using rp t by (simp add: recoverBookOnly_def Let_def)
qed

text \<open>Recovery writes nothing to the database, whatever it reports as persisted.\<close>

lemma recover_leaves_database:
  assumes "sqlite sql view saved" and "saved db = None" and "recover opened script truncateOk sql bk db = Some (r, bk', opened', db')"
  shows "view db' = view db"
proof -
  obtain r1 db1 where q: "exec sql MaxSequence db = (r1, db1)" by (cases "exec sql MaxSequence db")
  then have "snd (lastFillSequence sql db) = db1"
    by (auto simp: lastFillSequence_def scalar_def split: sum.splits list.splits)
  then have "db' = db \<or> db' = db1"
    using assms(3) by (auto simp: recover_def Let_def split: Option.bind_splits sum.splits prod.splits)
  then show ?thesis using sqlite.query_keeps [OF assms(1) q assms(2)] by auto
qed


text \<open>
  C39. A failed sync makes log and book disagree: the engine counts a storage failure and does not
  execute the order, and the log nevertheless holds the command, so that recovery will rest the
  order that the client was told had failed.
\<close>

theorem failed_sync_diverges:
  assumes "wal_intact log" and "wal_history log = []" and "wc_policy (wal_config log) = Always" and "\<not> os_syncOk os"
    and "list_all makes_progress (os_writes os)"
    and "handle append_wal onFill os demo_order (new_Engine capacity (Some log)) = Some eng"
  shows "eng_storageFailures eng = 1 \<and> side_orders (bk_bids (eng_book eng)) = [] \<and>
     (\<exists>log' rs bk. eng_log eng = Some log' \<and> wal_history log' = [demo_order] \<and>
        apply_all price_time_plan (wal_history log') new_Book = Some (rs, bk) \<and>
        map order_id (side_orders (bk_bids bk)) = [1])"
proof -
  have c: "loggable demo_order" "logged_command demo_order = demo_order" by code_simp+
  have bids: "map_option (\<lambda>(rs, bk). map order_id (side_orders (bk_bids bk))) (apply_all price_time_plan [demo_order] new_Book) = Some [1]"
    by code_simp
  have empty: "side_orders (bk_bids new_Book) = []" by code_simp
  have new: "eng_log (new_Engine capacity (Some log)) = Some log" "eng_book (new_Engine capacity (Some log)) = new_Book"
    "eng_storageFailures (new_Engine capacity (Some log)) = 0" by (simp_all add: new_Engine_def)
  have fails: "append_wal os demo_order log = Some (r, log') \<Longrightarrow> r = Inl StorageError \<and> wal_history log' = [demo_order]" for r log'
    using append_unsynced [OF assms(1) c(1) assms(3,4) _ assms(5), of r log'] assms(2) c(2) by simp
  from assms(6) show ?thesis
  proof (cases rule: handle_cases)
    case (executed out bk)
    then show ?thesis using fails new(1) by fastforce
  next
    case (not_logged log2 e log')
    then have "e = StorageError" "wal_history log' = [demo_order]" using fails [of "Inl e" log'] new(1) by auto
    then show ?thesis using not_logged new empty bids by auto
  qed
qed

theorem failed_sync_diverges_witness:
  "\<exists>eng. handle append_wal None \<lparr>os_writes = [Transferred 60], os_syncOk = False, os_now = 0, os_syncedAt = 0\<rparr> demo_order
       (new_Engine 4 (Some (new_log\<lparr>wal_config := \<lparr>wc_policy = Always, wc_batchRecords = 1, wc_batchInterval = 0\<rparr>\<rparr>))) = Some eng \<and>
     eng_storageFailures eng = 1"
proof -
  let ?os = "\<lparr>os_writes = [Transferred 60], os_syncOk = False, os_now = 0, os_syncedAt = 0\<rparr>"
    and ?log = "new_log\<lparr>wal_config := \<lparr>wc_policy = Always, wc_batchRecords = 1, wc_batchInterval = 0\<rparr>\<rparr>"
  have i: "wal_intact ?log" "wal_history ?log = []"
    using new_log_intact by (simp_all add: wal_intact_def wal_records_def wal_history_def new_log_def)
  obtain rec where rec: "encodeRecord 1 demo_order = Some rec" by (simp add: encodeRecord_def Let_def demo_order_def)
  have "length rec \<le> 60" "rec \<noteq> []" using rec by (auto elim!: encodeRecordE)
  then have w: "writeFully [Transferred 60] rec 0 [] = Some (Inr (), rec)" by simp
  have "append_wal ?os demo_order ?log \<noteq> None"
    using rec w by (auto simp del: writeFully.simps simp: append_wal_def Let_def new_log_def shouldSync_def syncNow_def)
  then obtain r log' where "append_wal ?os demo_order ?log = Some (r, log')" by auto
  moreover from this have "r = Inl StorageError" using append_unsynced [OF i(1), of demo_order ?os r log'] by (simp add: demo_order_def order_defs)
  ultimately obtain eng where e: "handle append_wal None ?os demo_order (new_Engine 4 (Some ?log)) = Some eng"
    by (simp add: handle_def engine_apply_def new_Engine_def Let_def)
  then show ?thesis using failed_sync_diverges [OF i _ _ _ e] by auto
qed

end
