(* ===== verification/Protocol.thy ===== *)
theory Protocol
  imports Wire Exchange_Types
begin

text \<open>
  \<^verbatim>\<open>net/protocol.hpp\<close> and \<^verbatim>\<open>net/protocol.cpp\<close>: the messages of the wire protocol and their codec. A
  frame is a length, a version byte, a type byte and a payload of fixed layout. A message type
  arriving from a peer is an arbitrary byte, so decoding takes the byte.
\<close>

unbundle bit_operations_syntax

section \<open>Messages\<close>

definition kProtocolVersion :: byte where
  "kProtocolVersion = 1"

definition kHeaderSize :: nat where
  "kHeaderSize = 6"

definition kMaxFrameBody :: "32 word" where
  "kMaxFrameBody = 4096"

datatype MessageType = MtNewOrder | MtCancel | MtModify | MtAccepted | MtRejected | MtFill

fun message_type_byte :: "MessageType \<Rightarrow> byte" where
  "message_type_byte MtNewOrder = 1"
| "message_type_byte MtCancel = 2"
| "message_type_byte MtModify = 3"
| "message_type_byte MtAccepted = 16"
| "message_type_byte MtRejected = 17"
| "message_type_byte MtFill = 18"

datatype OrderKind = KindLimit | KindMarket | KindIceberg

fun kind_byte :: "OrderKind \<Rightarrow> byte" where
  "kind_byte KindLimit = 0"
| "kind_byte KindMarket = 1"
| "kind_byte KindIceberg = 2"

datatype RejectReason = ReasonUnknown | InvalidOrder | UnknownOrder | ReasonSelfMatchBlocked | Overloaded

fun reason_byte :: "RejectReason \<Rightarrow> byte" where
  "reason_byte ReasonUnknown = 0"
| "reason_byte InvalidOrder = 1"
| "reason_byte UnknownOrder = 2"
| "reason_byte ReasonSelfMatchBlocked = 3"
| "reason_byte Overloaded = 4"

fun wire_side :: "Side \<Rightarrow> byte" where
  "wire_side Buy = 0"
| "wire_side Sell = 1"

datatype ClientMessage =
    NewOrderMessage OrderId AccountId Side OrderKind Price Quantity Quantity
  | CancelMessage OrderId
  | ModifyMessage OrderId Quantity "Price option"

datatype ServerMessage =
    AcceptedMessage OrderId Quantity Quantity
  | RejectedMessage OrderId RejectReason
  | FillMessage OrderId OrderId Price Quantity Side

section \<open>Encoding\<close>

definition beginFrame :: "MessageType \<Rightarrow> byte list" where
  "beginFrame type = w_u32 0 @ w_u8 kProtocolVersion @ w_u8 (message_type_byte type)"

definition finishFrame :: "byte list \<Rightarrow> byte list" where
  "finishFrame frame =
     (let body = length frame - 4; len = of_nat body :: 32 word
      in foldl (\<lambda>fr i. fr[i := ucast (drop_bit (8 * i) len AND 0xFF)]) frame [0..<4])"

fun encode_client :: "ClientMessage \<Rightarrow> byte list" where
  "encode_client (NewOrderMessage orderId account side kind price quantity displayQuantity) =
     finishFrame (beginFrame MtNewOrder @ w_u64 orderId @ w_u32 account @ w_u8 (wire_side side) @
       w_u8 (kind_byte kind) @ w_i64 price @ w_u64 quantity @ w_u64 displayQuantity)"
| "encode_client (CancelMessage orderId) = finishFrame (beginFrame MtCancel @ w_u64 orderId)"
| "encode_client (ModifyMessage orderId quantity price) =
     finishFrame (beginFrame MtModify @ w_u64 orderId @ w_u64 quantity @
       w_u8 (if price \<noteq> None then 1 else 0) @ w_i64 (case price of None \<Rightarrow> 0 | Some p \<Rightarrow> p))"

fun encode_server :: "ServerMessage \<Rightarrow> byte list" where
  "encode_server (AcceptedMessage orderId filledQuantity restingQuantity) =
     finishFrame (beginFrame MtAccepted @ w_u64 orderId @ w_u64 filledQuantity @ w_u64 restingQuantity)"
| "encode_server (RejectedMessage orderId reason) =
     finishFrame (beginFrame MtRejected @ w_u64 orderId @ w_u8 (reason_byte reason))"
| "encode_server (FillMessage orderId counterpartyOrderId price quantity side) =
     finishFrame (beginFrame MtFill @ w_u64 orderId @ w_u64 counterpartyOrderId @ w_i64 price @
       w_u64 quantity @ w_u8 (wire_side side))"

section \<open>Decoding\<close>

definition decodeSide :: "byte \<Rightarrow> protocol_reason + Side" where
  "decodeSide raw = (if raw > 1 then Inl (SideOutOfRange raw) else Inr (if raw = 0 then Buy else Sell))"

definition decodeKind :: "byte \<Rightarrow> protocol_reason + OrderKind" where
  "decodeKind raw =
     (if raw > 2 then Inl (KindOutOfRange raw)
      else Inr (if raw = 0 then KindLimit else if raw = 1 then KindMarket else KindIceberg))"

definition decodeReason :: "byte \<Rightarrow> protocol_reason + RejectReason" where
  "decodeReason raw =
     (if raw > 4 then Inl (ReasonOutOfRange raw)
      else Inr (if raw = 0 then ReasonUnknown else if raw = 1 then InvalidOrder
                else if raw = 2 then UnknownOrder else if raw = 3 then ReasonSelfMatchBlocked else Overloaded))"

definition checked :: "protocol_reason + 'a \<Rightarrow> ('a \<Rightarrow> protocol_reason + 'b) \<Rightarrow> protocol_reason + 'b" where
  "checked m f = (case m of Inl e \<Rightarrow> Inl e | Inr v \<Rightarrow> f v)"

definition decodeClientMessage :: "byte \<Rightarrow> byte list \<Rightarrow> protocol_reason + ClientMessage" where
  "decodeClientMessage type payload =
     (let r0 = new_Reader payload
      in if type = message_type_byte MtNewOrder then
           andThen (r_u64 r0) (\<lambda>orderId r1.
           andThen (r_u32 r1) (\<lambda>account r2.
           andThen (r_u8 r2) (\<lambda>rawSide r3.
           checked (decodeSide rawSide) (\<lambda>side.
           andThen (r_u8 r3) (\<lambda>rawKind r4.
           checked (decodeKind rawKind) (\<lambda>kind.
           andThen (r_i64 r4) (\<lambda>price r5.
           andThen (r_u64 r5) (\<lambda>quantity r6.
           andThen (r_u64 r6) (\<lambda>displayQuantity r7.
           checked (requireFullyConsumed r7) (\<lambda>u.
             Inr (NewOrderMessage orderId account side kind price quantity displayQuantity)))))))))))
         else if type = message_type_byte MtCancel then
           andThen (r_u64 r0) (\<lambda>orderId r1.
           checked (requireFullyConsumed r1) (\<lambda>u. Inr (CancelMessage orderId)))
         else if type = message_type_byte MtModify then
           andThen (r_u64 r0) (\<lambda>orderId r1.
           andThen (r_u64 r1) (\<lambda>quantity r2.
           andThen (r_u8 r2) (\<lambda>hasPrice r3.
           andThen (r_i64 r3) (\<lambda>price r4.
           checked (requireFullyConsumed r4) (\<lambda>u.
             Inr (ModifyMessage orderId quantity (if hasPrice \<noteq> 0 then Some price else None)))))))
         else if type = message_type_byte MtAccepted \<or> type = message_type_byte MtRejected \<or>
                 type = message_type_byte MtFill then Inl ServerMessageInbound
         else Inl (UnknownMessageType type))"

definition decodeServerMessage :: "byte \<Rightarrow> byte list \<Rightarrow> protocol_reason + ServerMessage" where
  "decodeServerMessage type payload =
     (let r0 = new_Reader payload
      in if type = message_type_byte MtAccepted then
           andThen (r_u64 r0) (\<lambda>orderId r1.
           andThen (r_u64 r1) (\<lambda>filledQuantity r2.
           andThen (r_u64 r2) (\<lambda>restingQuantity r3.
           checked (requireFullyConsumed r3) (\<lambda>u. Inr (AcceptedMessage orderId filledQuantity restingQuantity)))))
         else if type = message_type_byte MtRejected then
           andThen (r_u64 r0) (\<lambda>orderId r1.
           andThen (r_u8 r1) (\<lambda>rawReason r2.
           checked (decodeReason rawReason) (\<lambda>reason.
           checked (requireFullyConsumed r2) (\<lambda>u. Inr (RejectedMessage orderId reason)))))
         else if type = message_type_byte MtFill then
           andThen (r_u64 r0) (\<lambda>orderId r1.
           andThen (r_u64 r1) (\<lambda>counterpartyOrderId r2.
           andThen (r_i64 r2) (\<lambda>price r3.
           andThen (r_u64 r3) (\<lambda>quantity r4.
           andThen (r_u8 r4) (\<lambda>rawSide r5.
           checked (decodeSide rawSide) (\<lambda>side.
           checked (requireFullyConsumed r5) (\<lambda>u.
             Inr (FillMessage orderId counterpartyOrderId price quantity side))))))))
         else if type = message_type_byte MtNewOrder \<or> type = message_type_byte MtCancel \<or>
                 type = message_type_byte MtModify then Inl ClientMessageOutbound
         else Inl (UnknownMessageType type))"

section \<open>Round trip\<close>

lemma checked_simps [simp]: "checked (Inl e) f = Inl e" "checked (Inr v) f = f v"
  by (simp_all add: checked_def)

lemma decode_bytes [simp]:
  "decodeSide (wire_side s) = Inr s" "decodeKind (kind_byte k) = Inr k" "decodeReason (reason_byte r) = Inr r"
proof -
  show "decodeSide (wire_side s) = Inr s" by (cases s) (simp_all add: decodeSide_def)
  show "decodeKind (kind_byte k) = Inr k" by (cases k) (simp_all add: decodeKind_def)
  show "decodeReason (reason_byte r) = Inr r" by (cases r) (simp_all add: decodeReason_def)
qed

lemma finishFrame_length [simp]: "length (finishFrame fr) = length fr"
  by (simp add: finishFrame_def Let_def upt_rec)

lemma emit_4: "w_u32 v = map (\<lambda>i. ucast (drop_bit (8 * i) v AND 0xFF)) [0..<4]"
proof -
  have mask: "(0xFF :: 64 word) = mask 8" "(0xFF :: 32 word) = mask 8" by (simp_all add: mask_eq_exp_minus_1)
  have "(ucast (drop_bit (8 * i) (ucast v :: 64 word) AND 0xFF) :: byte) = ucast (drop_bit (8 * i) v AND 0xFF)"
    if "i < 4" for i
    using that unfolding mask
    by (intro bit_word_eqI) (auto simp: bit_ucast_iff bit_and_iff bit_mask_iff bit_drop_bit_eq)
  then show ?thesis by (auto simp: w_u32_def emit_def)
qed

text \<open>A finished frame is its length, the version, the type and the body.\<close>

lemma finishFrame_begin:
  "finishFrame (beginFrame t @ bs) =
     w_u32 (of_nat (2 + length bs)) @ w_u8 kProtocolVersion @ w_u8 (message_type_byte t) @ bs"
proof -
  have four: "w_u32 0 = [0, 0, 0, 0]" by (simp add: w_u32_def emit_def upt_rec)
  have len: "w_u32 v = [ucast (drop_bit 0 v AND 0xFF), ucast (drop_bit 8 v AND 0xFF),
      ucast (drop_bit 16 v AND 0xFF), ucast (drop_bit 24 v AND 0xFF)]" for v
    unfolding emit_4 by (simp add: upt_rec)
  show ?thesis
    by (simp add: finishFrame_def beginFrame_def Let_def four upt_rec len w_u8_def)
qed

fun client_body :: "ClientMessage \<Rightarrow> byte list" where
  "client_body (NewOrderMessage orderId account side kind price quantity displayQuantity) =
     w_u64 orderId @ w_u32 account @ w_u8 (wire_side side) @
       w_u8 (kind_byte kind) @ w_i64 price @ w_u64 quantity @ w_u64 displayQuantity"
| "client_body (CancelMessage orderId) = w_u64 orderId"
| "client_body (ModifyMessage orderId quantity price) =
     w_u64 orderId @ w_u64 quantity @ w_u8 (if price \<noteq> None then 1 else 0) @
       w_i64 (case price of None \<Rightarrow> 0 | Some p \<Rightarrow> p)"

fun client_type :: "ClientMessage \<Rightarrow> MessageType" where
  "client_type (NewOrderMessage _ _ _ _ _ _ _) = MtNewOrder"
| "client_type (CancelMessage _) = MtCancel"
| "client_type (ModifyMessage _ _ _) = MtModify"

fun server_body :: "ServerMessage \<Rightarrow> byte list" where
  "server_body (AcceptedMessage orderId filledQuantity restingQuantity) =
     w_u64 orderId @ w_u64 filledQuantity @ w_u64 restingQuantity"
| "server_body (RejectedMessage orderId reason) = w_u64 orderId @ w_u8 (reason_byte reason)"
| "server_body (FillMessage orderId counterpartyOrderId price quantity side) =
     w_u64 orderId @ w_u64 counterpartyOrderId @ w_i64 price @ w_u64 quantity @ w_u8 (wire_side side)"

fun server_type :: "ServerMessage \<Rightarrow> MessageType" where
  "server_type (AcceptedMessage _ _ _) = MtAccepted"
| "server_type (RejectedMessage _ _) = MtRejected"
| "server_type (FillMessage _ _ _ _ _) = MtFill"

text \<open>The bytes of a frame with a given type and body.\<close>

definition frame_bytes :: "byte \<Rightarrow> byte list \<Rightarrow> byte list" where
  "frame_bytes t bs = w_u32 (of_nat (2 + length bs)) @ w_u8 kProtocolVersion @ w_u8 t @ bs"

lemma encode_client_frame: "encode_client m = frame_bytes (message_type_byte (client_type m)) (client_body m)"
  by (cases m) (simp_all add: finishFrame_begin frame_bytes_def)

lemma encode_server_frame: "encode_server m = frame_bytes (message_type_byte (server_type m)) (server_body m)"
  by (cases m) (simp_all add: finishFrame_begin frame_bytes_def)

lemma body_lengths: "length (client_body m) \<le> 38" "length (server_body n) \<le> 33"
proof -
  show "length (client_body m) \<le> 38" by (cases m) simp_all
  show "length (server_body n) \<le> 33" by (cases n) simp_all
qed

lemma decode_client_body: "decodeClientMessage (message_type_byte (client_type m)) (client_body m) = Inr m"
proof (cases m)
  case (NewOrderMessage oid ac s k p q d)
  show ?thesis
    unfolding decodeClientMessage_def Let_def NewOrderMessage
    apply simp
    apply (rule then_u64 [OF new_Reader_ok(2,1)])
    apply (erule (1) then_rules, simp?)+
    apply (erule (1) then_u64 [OF unread_last])
    by (simp add: requireFullyConsumed_cases)
next
  case (CancelMessage oid)
  show ?thesis
    unfolding decodeClientMessage_def Let_def CancelMessage
    apply simp
    apply (rule then_u64 [OF unread_last, OF new_Reader_ok(2,1)])
    by (simp add: requireFullyConsumed_cases)
next
  case (ModifyMessage oid q p)
  show ?thesis
    unfolding decodeClientMessage_def Let_def ModifyMessage
    apply (simp split del: if_split)
    apply (rule then_u64 [OF new_Reader_ok(2,1)])
    apply (erule (1) then_rules)+
    apply (erule (1) then_i64 [OF unread_last])
    by (cases p) (simp_all add: requireFullyConsumed_cases)
qed

lemma decode_server_body: "decodeServerMessage (message_type_byte (server_type m)) (server_body m) = Inr m"
proof (cases m)
  case (AcceptedMessage oid f r)
  show ?thesis
    unfolding decodeServerMessage_def Let_def AcceptedMessage
    apply simp
    apply (rule then_u64 [OF new_Reader_ok(2,1)])
    apply (erule (1) then_rules)+
    apply (erule (1) then_u64 [OF unread_last])
    by (simp add: requireFullyConsumed_cases)
next
  case (RejectedMessage oid r)
  show ?thesis
    unfolding decodeServerMessage_def Let_def RejectedMessage
    apply simp
    apply (rule then_u64 [OF new_Reader_ok(2,1)])
    apply (erule (1) then_u8 [OF unread_last])
    by (simp add: requireFullyConsumed_cases)
next
  case (FillMessage oid cid p q s)
  show ?thesis
    unfolding decodeServerMessage_def Let_def FillMessage
    apply simp
    apply (rule then_u64 [OF new_Reader_ok(2,1)])
    apply (erule (1) then_rules)+
    apply (erule (1) then_u8 [OF unread_last])
    by (simp add: requireFullyConsumed_cases)
qed

end
