(* ===== verification/Frame_Assembler.thy ===== *)
theory Frame_Assembler
  imports Protocol
begin

text \<open>
  \<^verbatim>\<open>net/frame_assembler.hpp\<close> and \<^verbatim>\<open>net/frame_assembler.cpp\<close>: turning a byte stream back into
  frames. The payload of a frame is a view into the buffer in the code; its callers decode it before
  the buffer changes, and here it is the bytes of the view. The reference is a parser on plain byte
  lists; the assembler with its read position and its amortised compaction refines it, and parsing
  is independent of how the stream was cut into chunks.
\<close>

section \<open>Model\<close>

record Frame =
  fr_version :: byte
  fr_type :: byte
  fr_payload :: "byte list"

record FrameAssembler =
  fa_buffer :: "byte list"
  fa_readPos :: nat
  fa_maxBody :: "32 word"

definition new_FrameAssembler :: "32 word \<Rightarrow> FrameAssembler" where
  "new_FrameAssembler maxBody = \<lparr>fa_buffer = [], fa_readPos = 0, fa_maxBody = maxBody\<rparr>"

definition fa_append :: "byte list \<Rightarrow> FrameAssembler \<Rightarrow> FrameAssembler" where
  "fa_append bytes fa = fa\<lparr>fa_buffer := fa_buffer fa @ bytes\<rparr>"

definition buffered :: "FrameAssembler \<Rightarrow> nat" where
  "buffered fa = length (fa_buffer fa) - fa_readPos fa"

definition compact :: "FrameAssembler \<Rightarrow> FrameAssembler" where
  "compact fa =
     (if fa_readPos fa = 0 then fa
      else if fa_readPos fa * 2 < length (fa_buffer fa) then fa
      else fa\<lparr>fa_buffer := drop (fa_readPos fa) (fa_buffer fa), fa_readPos := 0\<rparr>)"

definition next_frame :: "FrameAssembler \<Rightarrow> (protocol_reason + Frame option) \<times> FrameAssembler" where
  "next_frame fa0 =
     (let fa = compact fa0
      in if buffered fa < kHeaderSize then (Inr None, fa)
         else
           let view = drop (fa_readPos fa) (fa_buffer fa)
           in case r_u32 (new_Reader view) of
                Inl e \<Rightarrow> (Inl e, fa)
              | Inr (len, header1) \<Rightarrow>
                  if len > fa_maxBody fa then (Inl (FrameTooLong len), fa)
                  else if len < 2 then (Inl (FrameTooShort len), fa)
                  else
                    let total = 4 + unat len
                    in if buffered fa < total then (Inr None, fa)
                       else
                         case r_u8 header1 of
                           Inl e \<Rightarrow> (Inl e, fa)
                         | Inr (version, header2) \<Rightarrow>
                             if version \<noteq> kProtocolVersion then (Inl (UnsupportedVersion version), fa)
                             else
                               (case r_u8 header2 of
                                  Inl e \<Rightarrow> (Inl e, fa)
                                | Inr (type, header3) \<Rightarrow>
                                    (Inr (Some \<lparr>fr_version = version, fr_type = type,
                                                fr_payload = take (unat len - 2) (drop kHeaderSize view)\<rparr>),
                                     fa\<lparr>fa_readPos := fa_readPos fa + total\<rparr>)))"

section \<open>Reference parser\<close>

text \<open>\<^term>\<open>None\<close> asks for more bytes.\<close>

definition parse_frame :: "32 word \<Rightarrow> byte list \<Rightarrow> (protocol_reason + Frame \<times> byte list) option" where
  "parse_frame maxBody bs =
     (if length bs < 6 then None
      else
        let len = le_value (take 4 bs) :: 32 word
        in if len > maxBody then Some (Inl (FrameTooLong len))
           else if len < 2 then Some (Inl (FrameTooShort len))
           else if length bs < 4 + unat len then None
           else if bs ! 4 \<noteq> kProtocolVersion then Some (Inl (UnsupportedVersion (bs ! 4)))
           else Some (Inr (\<lparr>fr_version = bs ! 4, fr_type = bs ! 5, fr_payload = take (unat len - 2) (drop 6 bs)\<rparr>,
                           drop (4 + unat len) bs)))"

lemma parse_frame_shorter: "parse_frame maxBody bs = Some (Inr (f, rest)) \<Longrightarrow> length rest < length bs"
  by (auto simp: parse_frame_def Let_def split: if_splits)

text \<open>All complete frames at the front, the error that stops the stream if any, and the bytes left.\<close>

function parse_stream :: "32 word \<Rightarrow> byte list \<Rightarrow> Frame list \<times> protocol_reason option \<times> byte list" where
  "parse_stream maxBody bs =
     (case parse_frame maxBody bs of
        None \<Rightarrow> ([], None, bs)
      | Some (Inl e) \<Rightarrow> ([], Some e, bs)
      | Some (Inr (f, rest)) \<Rightarrow>
          (case parse_stream maxBody rest of (fs, e, left) \<Rightarrow> (f # fs, e, left)))"
  by pat_completeness auto

termination
  by (relation "measure (\<lambda>(maxBody, bs). length bs)") (auto dest!: parse_frame_shorter [OF sym] parse_frame_shorter)

declare parse_stream.simps [simp del]

lemma parse_frame_extend:
  "parse_frame maxBody bs = Some (Inr (f, rest)) \<Longrightarrow> parse_frame maxBody (bs @ xs) = Some (Inr (f, rest @ xs))"
  "parse_frame maxBody bs = Some (Inl e) \<Longrightarrow> parse_frame maxBody (bs @ xs) = Some (Inl e)"
  by (auto simp: parse_frame_def Let_def nth_append split: if_splits)

text \<open>Cutting the stream anywhere does not matter: the second part continues with what the first left.\<close>

lemma parse_stream_append:
  "parse_stream maxBody (as @ bs) =
     (case parse_stream maxBody as of
        (fs, Some e, left) \<Rightarrow> (fs, Some e, left @ bs)
      | (fs, None, left) \<Rightarrow>
          (case parse_stream maxBody (left @ bs) of (gs, e, left') \<Rightarrow> (fs @ gs, e, left')))"
proof (induction maxBody as rule: parse_stream.induct)
  case (1 maxBody as)
  show ?case
  proof (cases "parse_frame maxBody as")
    case None
    then show ?thesis by (simp add: parse_stream.simps [of maxBody as] split: prod.split)
  next
    case (Some r)
    show ?thesis
    proof (cases r)
      case (Inl e)
      then show ?thesis using Some parse_frame_extend(2) [of maxBody as e bs]
        by (simp add: parse_stream.simps [of maxBody as] parse_stream.simps [of maxBody "as @ bs"])
    next
      case (Inr p)
      obtain f rest where p: "p = (f, rest)" by (cases p)
      have ext: "parse_frame maxBody (as @ bs) = Some (Inr (f, rest @ bs))"
        using parse_frame_extend(1) [of maxBody as f rest bs] Some Inr p by simp
      have ih: "parse_stream maxBody (rest @ bs) =
          (case parse_stream maxBody rest of (fs, Some e, left) \<Rightarrow> (fs, Some e, left @ bs)
           | (fs, None, left) \<Rightarrow> (case parse_stream maxBody (left @ bs) of (gs, e, left') \<Rightarrow> (fs @ gs, e, left')))"
        by (rule "1.IH" [OF Some Inr p [symmetric]])
      show ?thesis
        unfolding parse_stream.simps [of maxBody "as @ bs"] parse_stream.simps [of maxBody as]
        using Some Inr p ext ih by (auto split: prod.split option.split)
    qed
  qed
qed

section \<open>The assembler refines the parser\<close>

definition fa_ok :: "FrameAssembler \<Rightarrow> bool" where
  "fa_ok fa \<longleftrightarrow> fa_readPos fa \<le> length (fa_buffer fa)"

definition pending_bytes :: "FrameAssembler \<Rightarrow> byte list" where
  "pending_bytes fa = drop (fa_readPos fa) (fa_buffer fa)"

lemma buffered_pending: "buffered fa = length (pending_bytes fa)"
  by (simp add: buffered_def pending_bytes_def)

lemma advance_pending: "pending_bytes (fa\<lparr>fa_readPos := fa_readPos fa + n\<rparr>) = drop n (pending_bytes fa)"
  by (simp add: pending_bytes_def add.commute)

lemma compact_pending [simp]:
  "fa_ok fa \<Longrightarrow> fa_ok (compact fa)" "pending_bytes (compact fa) = pending_bytes fa" "fa_maxBody (compact fa) = fa_maxBody fa"
  by (auto simp: compact_def fa_ok_def pending_bytes_def)

lemma fa_append_pending [simp]:
  "fa_ok fa \<Longrightarrow> fa_ok (fa_append bs fa)" "fa_ok fa \<Longrightarrow> pending_bytes (fa_append bs fa) = pending_bytes fa @ bs"
  "fa_maxBody (fa_append bs fa) = fa_maxBody fa"
  by (auto simp: fa_append_def fa_ok_def pending_bytes_def)

lemma read_header:
  assumes "6 \<le> length view"
  shows "r_u32 (new_Reader view) = Inr (le_value (take 4 view), \<lparr>rd_in = view, rd_pos = 4\<rparr>)"
    and "r_u8 \<lparr>rd_in = view, rd_pos = 4\<rparr> = Inr (view ! 4, \<lparr>rd_in = view, rd_pos = 5\<rparr>)"
    and "r_u8 \<lparr>rd_in = view, rd_pos = 5\<rparr> = Inr (view ! 5, \<lparr>rd_in = view, rd_pos = 6\<rparr>)"
proof -
  have cast: "(ucast (le_value (take 4 view) :: 64 word) :: 32 word) = le_value (take 4 view)"
    by (rule bit_word_eqI) (auto simp: bit_ucast_iff bit_le_value)
  show "r_u32 (new_Reader view) = Inr (le_value (take 4 view), \<lparr>rd_in = view, rd_pos = 4\<rparr>)"
    using assms cast by (simp add: r_u32_def consume_unread new_Reader_def unread_def)
  show "r_u8 \<lparr>rd_in = view, rd_pos = 4\<rparr> = Inr (view ! 4, \<lparr>rd_in = view, rd_pos = 5\<rparr>)"
    "r_u8 \<lparr>rd_in = view, rd_pos = 5\<rparr> = Inr (view ! 5, \<lparr>rd_in = view, rd_pos = 6\<rparr>)"
    using assms by (simp_all add: r_u8_def rd_remaining_def)
qed

lemma next_frame_parse:
  assumes "fa_ok fa" and "next_frame fa = (r, fa')"
  shows "fa_ok fa' \<and> fa_maxBody fa' = fa_maxBody fa \<and>
     parse_frame (fa_maxBody fa) (pending_bytes fa) =
       (case r of Inl e \<Rightarrow> Some (Inl e) | Inr None \<Rightarrow> None | Inr (Some f) \<Rightarrow> Some (Inr (f, pending_bytes fa'))) \<and>
     ((\<exists>f. r = Inr (Some f)) \<or> pending_bytes fa' = pending_bytes fa)"
proof -
  define c where "c = compact fa"
  have c: "fa_ok c" "pending_bytes c = pending_bytes fa" "fa_maxBody c = fa_maxBody fa" using assms(1) by (simp_all add: c_def)
  define view where "view = pending_bytes fa"
  have v: "drop (fa_readPos c) (fa_buffer c) = view" "buffered c = length view"
    using c(2) by (simp_all add: view_def buffered_pending) (simp add: pending_bytes_def)
  show ?thesis
  proof (cases "length view < 6")
    case True
    then have "r = Inr None" "fa' = c" using assms(2) v(2) by (auto simp: next_frame_def Let_def kHeaderSize_def c_def [symmetric])
    then show ?thesis using c True by (simp add: parse_frame_def view_def)
  next
    case False
    let ?len = "le_value (take 4 view) :: 32 word"
    have rest: "pending_bytes (c\<lparr>fa_readPos := fa_readPos c + (4 + unat ?len)\<rparr>) = drop (4 + unat ?len) view"
      using c(2) by (simp only: advance_pending view_def)
    have ok: "4 + unat ?len \<le> length view \<Longrightarrow> fa_ok (c\<lparr>fa_readPos := fa_readPos c + (4 + unat ?len)\<rparr>)"
      using c(1) v by (auto simp: fa_ok_def buffered_def)
    have res: "(r, fa') =
       (if ?len > fa_maxBody fa then (Inl (FrameTooLong ?len), c)
        else if ?len < 2 then (Inl (FrameTooShort ?len), c)
        else if length view < 4 + unat ?len then (Inr None, c)
        else if view ! 4 \<noteq> kProtocolVersion then (Inl (UnsupportedVersion (view ! 4)), c)
        else (Inr (Some \<lparr>fr_version = view ! 4, fr_type = view ! 5, fr_payload = take (unat ?len - 2) (drop 6 view)\<rparr>),
              c\<lparr>fa_readPos := fa_readPos c + (4 + unat ?len)\<rparr>))"
      unfolding assms(2) [symmetric] next_frame_def Let_def c_def [symmetric] v kHeaderSize_def
      using False read_header [of view] c(3) by simp
    have p: "parse_frame (fa_maxBody fa) view =
       (if ?len > fa_maxBody fa then Some (Inl (FrameTooLong ?len))
        else if ?len < 2 then Some (Inl (FrameTooShort ?len))
        else if length view < 4 + unat ?len then None
        else if view ! 4 \<noteq> kProtocolVersion then Some (Inl (UnsupportedVersion (view ! 4)))
        else Some (Inr (\<lparr>fr_version = view ! 4, fr_type = view ! 5, fr_payload = take (unat ?len - 2) (drop 6 view)\<rparr>,
              drop (4 + unat ?len) view)))"
      using False by (simp add: parse_frame_def Let_def)
    show ?thesis
      unfolding view_def [symmetric] p using res c rest ok by (auto simp: view_def [symmetric] split: if_splits)
  qed
qed

section \<open>Frames of encoded messages\<close>

lemma parse_frame_bytes:
  assumes "2 + length bs \<le> unat maxBody"
  shows "parse_frame maxBody (frame_bytes t bs @ xs) =
     Some (Inr (\<lparr>fr_version = kProtocolVersion, fr_type = t, fr_payload = bs\<rparr>, xs))"
proof -
  have lt: "unat maxBody < 2 ^ 32" using unsigned_less [of maxBody] by simp
  let ?len = "of_nat (2 + length bs) :: 32 word"
  have u: "unat ?len = 2 + length bs" using assms lt by (subst unat_of_nat) simp
  have four: "take 4 (frame_bytes t bs @ xs) = w_u32 ?len" by (simp add: frame_bytes_def)
  have "(le_value (w_u32 ?len) :: 32 word) = ?len"
    unfolding w_u32_def le_value_emit [of 4, simplified] by (rule take_bit_ucast_full) simp_all
  then have len: "(le_value (take 4 (frame_bytes t bs @ xs)) :: 32 word) = ?len" unfolding four .
  have le: "\<not> ?len > maxBody" "\<not> ?len < 2" using u assms by (simp_all add: word_less_nat_alt)
  have total: "length (frame_bytes t bs @ xs) = 6 + length bs + length xs" by (simp add: frame_bytes_def)
  have hdr: "(frame_bytes t bs @ xs) ! 4 = kProtocolVersion" "(frame_bytes t bs @ xs) ! 5 = t"
    "drop 6 (frame_bytes t bs @ xs) = bs @ xs" "drop (4 + (2 + length bs)) (frame_bytes t bs @ xs) = xs"
    by (simp_all add: frame_bytes_def nth_append w_u8_def)
  show ?thesis unfolding parse_frame_def Let_def len u using le total hdr by simp
qed

lemma parse_stream_frames:
  assumes "list_all (\<lambda>(t, bs). 2 + length bs \<le> unat maxBody) ms"
  shows "parse_stream maxBody (concat (map (\<lambda>(t, bs). frame_bytes t bs) ms)) =
     (map (\<lambda>(t, bs). \<lparr>fr_version = kProtocolVersion, fr_type = t, fr_payload = bs\<rparr>) ms, None, [])"
  using assms
proof (induction ms)
  case Nil
  then show ?case by (simp add: parse_stream.simps [of _ "[]"] parse_frame_def)
next
  case (Cons m ms)
  obtain t bs where m: "m = (t, bs)" by (cases m)
  have "parse_frame maxBody (frame_bytes t bs @ concat (map (\<lambda>(t, bs). frame_bytes t bs) ms)) =
      Some (Inr (\<lparr>fr_version = kProtocolVersion, fr_type = t, fr_payload = bs\<rparr>, concat (map (\<lambda>(t, bs). frame_bytes t bs) ms)))"
    using Cons.prems m by (intro parse_frame_bytes) simp
  then show ?case
    using Cons m by (simp add: parse_stream.simps [of maxBody "frame_bytes t bs @ _"])
qed

lemma next_frame_less:
  assumes "next_frame fa = (Inr (Some f), fa')"
  shows "buffered fa' < buffered fa"
proof (cases "fa_ok fa")
  case True
  have "parse_frame (fa_maxBody fa) (pending_bytes fa) = Some (Inr (f, pending_bytes fa'))"
    using next_frame_parse [OF True assms] by simp
  then show ?thesis using parse_frame_shorter by (simp add: buffered_pending)
next
  case False
  then show ?thesis using assms
    by (simp add: next_frame_def compact_def fa_ok_def buffered_def kHeaderSize_def Let_def not_le)
qed

end
