(* ===== verification/Session.thy ===== *)
theory Session
  imports Frame_Assembler
begin

text \<open>
  \<^verbatim>\<open>net/session.hpp\<close> and \<^verbatim>\<open>net/session.cpp\<close>: one client connection. The reading half drains the
  socket and hands every complete frame to the frame handler; the results of \<^verbatim>\<open>recv\<close> are a script,
  and the handler is a parameter acting on the state of the server, which also holds the session's
  closed flag. The writing half is the bounded outbound buffer that the engine thread fills and the
  reactor thread drains.
\<close>

section \<open>Reading\<close>

datatype recv_result =
    Received "byte list"  \<comment> \<open>a positive count, with the bytes\<close>
  | EndOfStream
  | WouldBlock
  | RecvInterrupted
  | RecvFailed

datatype drain_status = Drained | Dropped | Fault

text \<open>
  The inner loop: \<open>handler\<close> returns the exception it throws, if any; \<open>isClosed\<close> reads the flag. A
  protocol error of the framing or of the handler is caught outside the loop.
\<close>

function drain_frames ::
  "(Frame \<Rightarrow> 's \<Rightarrow> protocol_reason option \<times> 's) \<Rightarrow> ('s \<Rightarrow> bool) \<Rightarrow> FrameAssembler \<Rightarrow> 's \<Rightarrow>
     drain_status \<times> FrameAssembler \<times> 's" where
  "drain_frames handler isClosed fa st =
     (case next_frame fa of
        (Inl e, fa') \<Rightarrow> (Fault, fa', st)
      | (Inr None, fa') \<Rightarrow> (Drained, fa', st)
      | (Inr (Some frame), fa') \<Rightarrow>
          (case handler frame st of
             (Some e, st') \<Rightarrow> (Fault, fa', st')
           | (None, st') \<Rightarrow>
               if isClosed st' then (Dropped, fa', st')
               else drain_frames handler isClosed fa' st'))"
  by pat_completeness auto

termination
  by (relation "measure (\<lambda>(handler, isClosed, fa, st). buffered fa)")
     (auto dest!: next_frame_less [OF sym] next_frame_less)

fun readAvailable ::
  "recv_result list \<Rightarrow> (Frame \<Rightarrow> 's \<Rightarrow> protocol_reason option \<times> 's) \<Rightarrow> ('s \<Rightarrow> bool) \<Rightarrow> ('s \<Rightarrow> 's) \<Rightarrow>
     FrameAssembler \<Rightarrow> 's \<Rightarrow> (FrameAssembler \<times> 's) option" where
  "readAvailable [] handler isClosed closeIt fa st = None"
| "readAvailable (r # script) handler isClosed closeIt fa st =
     (case r of
        Received bytes \<Rightarrow>
          (case drain_frames handler isClosed (fa_append bytes fa) st of
             (Drained, fa', st') \<Rightarrow> readAvailable script handler isClosed closeIt fa' st'
           | (Dropped, fa', st') \<Rightarrow> Some (fa', st')
           | (Fault, fa', st') \<Rightarrow> Some (fa', closeIt st'))
      | EndOfStream \<Rightarrow> Some (fa, closeIt st)
      | WouldBlock \<Rightarrow> Some (fa, st)
      | RecvInterrupted \<Rightarrow> readAvailable script handler isClosed closeIt fa st
      | RecvFailed \<Rightarrow> Some (fa, closeIt st))"

section \<open>Writing\<close>

definition kReadChunk :: nat where
  "kReadChunk = 16 * 1024"

text \<open>
  The outbound half. \<open>ss_chunk\<close> is the copy the reactor is sending without the lock. Two ghost
  fields record the bytes accepted by \<^verbatim>\<open>send\<close> and those the socket has taken, and
  \<open>ss_closeCalls\<close> counts the calls of the close handler.
\<close>

record Session =
  ss_outbound :: "byte list"
  ss_maxOutbound :: nat
  ss_overflowed :: nat
  ss_closed :: bool
  ss_chunk :: "byte list option"
  ss_closeCalls :: nat
  ss_accepted :: "byte list"
  ss_wire :: "byte list"

definition new_Session :: "nat \<Rightarrow> Session" where
  "new_Session maxOutbound =
     \<lparr>ss_outbound = [], ss_maxOutbound = maxOutbound, ss_overflowed = 0, ss_closed = False,
      ss_chunk = None, ss_closeCalls = 0, ss_accepted = [], ss_wire = []\<rparr>"

definition session_close :: "Session \<Rightarrow> Session" where
  "session_close s =
     (if ss_closed s then s else s\<lparr>ss_closed := True, ss_closeCalls := ss_closeCalls s + 1\<rparr>)"

text \<open>The critical section of \<^verbatim>\<open>send\<close>, and \<^verbatim>\<open>send\<close> itself, whose test of the flag comes before the lock.\<close>

definition send_section :: "byte list \<Rightarrow> Session \<Rightarrow> bool \<times> Session" where
  "send_section bytes s =
     (if length (ss_outbound s) + length bytes > ss_maxOutbound s
      then (False, s\<lparr>ss_overflowed := ss_overflowed s + length bytes, ss_closed := True\<rparr>)
      else (True, s\<lparr>ss_outbound := ss_outbound s @ bytes, ss_accepted := ss_accepted s @ bytes\<rparr>))"

definition session_send :: "byte list \<Rightarrow> Session \<Rightarrow> bool \<times> Session" where
  "session_send bytes s = (if ss_closed s then (False, s) else send_section bytes s)"

definition wantsWrite :: "Session \<Rightarrow> bool" where
  "wantsWrite s \<longleftrightarrow> ss_outbound s \<noteq> []"

datatype send_result = SentBytes nat | SendWouldBlock | SendInterrupted | SendFailed

text \<open>The two halves of one turn of the flush loop: copy a chunk under the lock, then act on \<^verbatim>\<open>send\<close>.\<close>

definition flush_copy :: "Session \<Rightarrow> Session" where
  "flush_copy s = s\<lparr>ss_chunk := Some (take (min (length (ss_outbound s)) kReadChunk) (ss_outbound s))\<rparr>"

text \<open>The loop goes on when the flag is set.\<close>

definition flush_sent :: "send_result \<Rightarrow> Session \<Rightarrow> bool \<times> Session" where
  "flush_sent r s =
     (let chunk = (case ss_chunk s of None \<Rightarrow> [] | Some c \<Rightarrow> c); s1 = s\<lparr>ss_chunk := None\<rparr>
      in case r of
           SentBytes sent \<Rightarrow>
             if sent > 0
             then (True, s1\<lparr>ss_outbound := drop sent (ss_outbound s1), ss_wire := ss_wire s1 @ take sent chunk\<rparr>)
             else (False, session_close s1)
         | SendWouldBlock \<Rightarrow> (False, s1)
         | SendInterrupted \<Rightarrow> (True, s1)
         | SendFailed \<Rightarrow> (False, session_close s1))"

fun session_flush :: "send_result list \<Rightarrow> Session \<Rightarrow> Session option" where
  "session_flush script s =
     (if ss_outbound s = [] then Some s
      else case script of
             [] \<Rightarrow> None
           | r # rest \<Rightarrow>
               (case flush_sent r (flush_copy s) of
                  (True, s') \<Rightarrow> session_flush rest s'
                | (False, s') \<Rightarrow> Some s'))"

definition onWritable :: "send_result list \<Rightarrow> Session \<Rightarrow> Session option" where
  "onWritable script s = (if ss_closed s then Some s else session_flush script s)"

definition onReadable ::
  "recv_result list \<Rightarrow> (Frame \<Rightarrow> 's \<Rightarrow> protocol_reason option \<times> 's) \<Rightarrow> ('s \<Rightarrow> bool) \<Rightarrow> ('s \<Rightarrow> 's) \<Rightarrow>
     FrameAssembler \<Rightarrow> 's \<Rightarrow> (FrameAssembler \<times> 's) option" where
  "onReadable script handler isClosed closeIt fa st =
     (if isClosed st then Some (fa, st) else readAvailable script handler isClosed closeIt fa st)"

text \<open>
  The engine thread sending while the reactor thread is anywhere in its loop. A sender may enter its
  critical section although the session was closed since it tested the flag. The kernel takes at
  most the bytes it was given.
\<close>

inductive session_step :: "Session \<Rightarrow> Session \<Rightarrow> bool" where
  sends: "send_section bytes s = (b, s') \<Longrightarrow> session_step s s'"
| copies: "\<lbrakk>ss_chunk s = None; ss_outbound s \<noteq> []\<rbrakk> \<Longrightarrow> session_step s (flush_copy s)"
| sent: "\<lbrakk>ss_chunk s = Some chunk; case r of SentBytes n \<Rightarrow> n \<le> length chunk | _ \<Rightarrow> True; flush_sent r s = (b, s')\<rbrakk>
    \<Longrightarrow> session_step s s'"
| closes: "session_step s (session_close s)"

section \<open>The reading loop sees the stream, not the chunks\<close>

fun feed ::
  "(Frame \<Rightarrow> 's \<Rightarrow> protocol_reason option \<times> 's) \<Rightarrow> ('s \<Rightarrow> bool) \<Rightarrow> Frame list \<Rightarrow> protocol_reason option \<Rightarrow> 's \<Rightarrow>
     drain_status \<times> 's" where
  "feed handler isClosed [] err st = (if err = None then Drained else Fault, st)"
| "feed handler isClosed (f # fs) err st =
     (case handler f st of
        (Some e, st') \<Rightarrow> (Fault, st')
      | (None, st') \<Rightarrow> if isClosed st' then (Dropped, st') else feed handler isClosed fs err st')"

lemma feed_append:
  "feed handler isClosed (fs @ gs) err st =
     (case feed handler isClosed fs None st of
        (Drained, st') \<Rightarrow> feed handler isClosed gs err st'
      | (status, st') \<Rightarrow> (status, st'))"
  by (induction fs arbitrary: st) (auto split: prod.split option.split drain_status.split)

declare drain_frames.simps [simp del]

lemma drain_feed:
  assumes "fa_ok fa" and "parse_stream (fa_maxBody fa) (pending_bytes fa) = (fs, err, left)"
    and "drain_frames handler isClosed fa st = (status, fa', st')"
  shows "feed handler isClosed fs err st = (status, st') \<and> fa_ok fa' \<and> fa_maxBody fa' = fa_maxBody fa \<and>
     (status = Drained \<longrightarrow> pending_bytes fa' = left \<and> err = None)"
  using assms
proof (induction "buffered fa" arbitrary: fa fs st rule: less_induct)
  case less
  obtain r fa1 where n: "next_frame fa = (r, fa1)" by (cases "next_frame fa")
  note p = next_frame_parse [OF less.prems(1) n]
  note ps = less.prems(2) [unfolded parse_stream.simps [of _ "pending_bytes fa"]]
  note d = less.prems(3) [unfolded drain_frames.simps [of _ _ fa] n]
  show ?case
  proof (cases r)
    case (Inl e)
    then show ?thesis using p ps d by auto
  next
    case (Inr o')
    show ?thesis
    proof (cases o')
      case None
      then show ?thesis using p ps d Inr by auto
    next
      case (Some f)
      have lt: "buffered fa1 < buffered fa" using next_frame_less n Inr Some by simp
      obtain gs where gs: "parse_stream (fa_maxBody fa1) (pending_bytes fa1) = (gs, err, left)" "fs = f # gs"
        using p ps Inr Some by (auto split: prod.splits)
      show ?thesis
      proof (cases "handler f st")
        case (Pair x st1)
        show ?thesis
        proof (cases "x = None \<and> \<not> isClosed st1")
          case True
          then have dr: "drain_frames handler isClosed fa1 st1 = (status, fa', st')" using d Inr Some Pair by simp
          show ?thesis using less.hyps [OF lt _ gs(1) dr] p gs(2) Pair True by simp
        next
          case False
          then show ?thesis using d Inr Some Pair p gs(2) by (cases x) (auto split: if_splits)
        qed
      qed
    qed
  qed
qed

fun quiet :: "recv_result \<Rightarrow> bool" where
  "quiet (Received bs) = True"
| "quiet RecvInterrupted = True"
| "quiet _ = False"

fun received :: "recv_result list \<Rightarrow> byte list" where
  "received (Received bs # script) = bs @ received script"
| "received (_ # script) = received script"
| "received [] = []"

lemma parse_stream_left:
  "parse_stream maxBody bs = (fs, None, left) \<Longrightarrow> parse_stream maxBody left = ([], None, left)"
proof (induction maxBody bs arbitrary: fs rule: parse_stream.induct)
  case (1 maxBody bs)
  show ?case
  proof (cases "parse_frame maxBody bs")
    case None
    then have "left = bs" "fs = []" using "1.prems" by (simp_all add: parse_stream.simps [of maxBody bs])
    then show ?thesis using "1.prems" by simp
  next
    case (Some r)
    then obtain f rest gs where r: "r = Inr (f, rest)" and "parse_stream maxBody rest = (gs, None, left)"
      using "1.prems" by (auto simp: parse_stream.simps [of maxBody bs] split: sum.splits prod.splits)
    then show ?thesis using "1.IH" [OF Some r refl] by simp
  qed
qed

text \<open>What the loop does is a function of the bytes pending and received, wherever they were cut.\<close>

definition outcome :: "('s \<Rightarrow> 's) \<Rightarrow> drain_status \<times> 's \<Rightarrow> 's" where
  "outcome closeIt = (\<lambda>(status, st). if status = Fault then closeIt st else st)"

lemma readAvailable_feed:
  assumes "list_all quiet script" and "fa_ok fa"
    and "parse_stream (fa_maxBody fa) (pending_bytes fa) = ([], None, pending_bytes fa)"
    and "parse_stream (fa_maxBody fa) (pending_bytes fa @ received script) = (fs, err, left)"
  shows "\<exists>fa'. readAvailable (script @ [WouldBlock]) handler isClosed closeIt fa st =
     Some (fa', outcome closeIt (feed handler isClosed fs err st))"
  using assms
proof (induction script arbitrary: fa fs st)
  case Nil
  then show ?case by (simp add: outcome_def)
next
  case (Cons r script)
  show ?case
  proof (cases r)
    case (Received bs)
    let ?fa = "fa_append bs fa"
    obtain fs1 err1 left1 where p1: "parse_stream (fa_maxBody ?fa) (pending_bytes ?fa) = (fs1, err1, left1)"
      by (cases "parse_stream (fa_maxBody ?fa) (pending_bytes ?fa)")
    obtain status fa1 st1 where d: "drain_frames handler isClosed ?fa st = (status, fa1, st1)"
      by (cases "drain_frames handler isClosed ?fa st")
    have ok: "fa_ok ?fa" using Cons.prems(2) by simp
    note f = drain_feed [OF ok p1 d]
    have split: "(fs, err, left) = (case (fs1, err1, left1) of
        (fs, Some e, left) \<Rightarrow> (fs, Some e, left @ received script)
      | (fs, None, left) \<Rightarrow> (case parse_stream (fa_maxBody fa) (left @ received script) of (gs, e, left') \<Rightarrow> (fs @ gs, e, left')))"
      using Cons.prems(4) Received p1 Cons.prems(2) parse_stream_append [of "fa_maxBody fa" "pending_bytes fa @ bs" "received script"] by simp
    show ?thesis
    proof (cases "status = Drained")
      case True
      then have none: "err1 = None" "pending_bytes fa1 = left1" using f by auto
      obtain gs where gs: "parse_stream (fa_maxBody fa) (left1 @ received script) = (gs, err, left)" "fs = fs1 @ gs"
        using split none by (auto split: prod.splits)
      have p1': "parse_stream (fa_maxBody fa) (pending_bytes ?fa) = (fs1, None, left1)" using p1 none(1) by simp
      have "parse_stream (fa_maxBody fa1) (pending_bytes fa1) = ([], None, pending_bytes fa1)"
        using parse_stream_left [OF p1'] f none by simp
      then have "\<exists>fa'. readAvailable (script @ [WouldBlock]) handler isClosed closeIt fa1 st1 =
          Some (fa', outcome closeIt (feed handler isClosed gs err st1))"
        using Cons.IH [of fa1 gs st1] Cons.prems(1) f gs none by simp
      moreover have "feed handler isClosed fs err st = feed handler isClosed gs err st1"
        using f gs(2) none True by (simp add: feed_append)
      ultimately show ?thesis using Received d True by simp
    next
      case False
      have "feed handler isClosed fs err st = (status, st1)"
      proof (cases err1)
        case None
        then obtain gs where "fs = fs1 @ gs" using split by (auto split: prod.splits)
        then show ?thesis using f None False by (cases status) (auto simp: feed_append)
      next
        case (Some e)
        then show ?thesis using split f by simp
      qed
      then show ?thesis using Received d False by (cases status) (auto simp: outcome_def)
    qed
  next
    case RecvInterrupted
    then show ?thesis using Cons by simp
  qed (use Cons.prems(1) in simp_all)
qed

section \<open>The outbound buffer\<close>

definition session_inv :: "Session \<Rightarrow> bool" where
  "session_inv s \<longleftrightarrow> ss_accepted s = ss_wire s @ ss_outbound s \<and> length (ss_outbound s) \<le> ss_maxOutbound s \<and>
     (\<forall>chunk. ss_chunk s = Some chunk \<longrightarrow> (\<exists>rest. ss_outbound s = chunk @ rest)) \<and>
     ss_closeCalls s \<le> (if ss_closed s then 1 else 0)"

lemma session_close_inv: "session_inv s \<Longrightarrow> session_inv (session_close s)"
  by (auto simp: session_inv_def session_close_def)

lemma session_close_max [simp]: "ss_maxOutbound (session_close s) = ss_maxOutbound s"
  by (simp add: session_close_def)

lemma session_step_inv: "session_step s s' \<Longrightarrow> session_inv s \<Longrightarrow> session_inv s' \<and> ss_maxOutbound s' = ss_maxOutbound s"
proof (induction rule: session_step.induct)
  case (sends bytes s b s')
  then show ?case by (auto simp: session_inv_def send_section_def split: if_splits)
next
  case (copies s)
  have "take n xs @ drop n xs = xs" for n and xs :: "byte list" by simp
  then show ?case using copies by (auto simp: session_inv_def flush_copy_def simp del: append_take_drop_id) metis
next
  case (sent s chunk r b s')
  obtain rest where out: "ss_outbound s = chunk @ rest" using sent(1,4) by (auto simp: session_inv_def)
  have idle: "session_inv (s\<lparr>ss_chunk := None\<rparr>)" using sent(4) by (auto simp: session_inv_def)
  show ?case
  proof (cases r)
    case (SentBytes m)
    show ?thesis
    proof (cases "m > 0")
      case True
      then have "s' = s\<lparr>ss_chunk := None, ss_outbound := drop m (ss_outbound s), ss_wire := ss_wire s @ take m chunk\<rparr>"
        using sent SentBytes by (simp add: flush_sent_def Let_def)
      moreover have "take m chunk @ drop m (chunk @ rest) = chunk @ rest" using sent(2) SentBytes by simp
      ultimately show ?thesis using sent(4) out sent(2) SentBytes by (auto simp: session_inv_def)
    next
      case False
      then have "s' = session_close (s\<lparr>ss_chunk := None\<rparr>)" using sent SentBytes by (auto simp: flush_sent_def Let_def)
      then show ?thesis using session_close_inv [OF idle] by simp
    qed
  qed (use sent(3) idle session_close_inv [OF idle] in \<open>auto simp: flush_sent_def Let_def\<close>)
next
  case (closes s)
  then show ?case using session_close_inv by simp
qed

section \<open>Properties\<close>

text \<open>A handler that decodes every frame and collects the messages.\<close>

definition collect :: "Frame \<Rightarrow> ClientMessage list \<Rightarrow> protocol_reason option \<times> ClientMessage list" where
  "collect f ms =
     (case decodeClientMessage (fr_type f) (fr_payload f) of Inl e \<Rightarrow> (Some e, ms) | Inr m \<Rightarrow> (None, ms @ [m]))"

definition client_frame :: "ClientMessage \<Rightarrow> Frame" where
  "client_frame m = \<lparr>fr_version = kProtocolVersion, fr_type = message_type_byte (client_type m), fr_payload = client_body m\<rparr>"

lemma feed_collect: "feed collect (\<lambda>_. False) (map client_frame ms) None acc = (Drained, acc @ ms)"
  by (induction ms arbitrary: acc) (simp_all add: collect_def client_frame_def decode_client_body)

lemma parse_client_messages:
  "parse_stream kMaxFrameBody (concat (map encode_client ms)) = (map client_frame ms, None, [])"
proof -
  let ?ps = "map (\<lambda>m. (message_type_byte (client_type m), client_body m)) ms"
  have small: "2 + length (client_body m) \<le> unat kMaxFrameBody" for m
    using body_lengths(1) [of m] by (simp add: kMaxFrameBody_def)
  then have "list_all (\<lambda>(t, bs). 2 + length bs \<le> unat kMaxFrameBody) ?ps" by (simp add: list_all_iff)
  moreover have "encode_client = (\<lambda>m. frame_bytes (message_type_byte (client_type m)) (client_body m))"
    by (rule ext) (rule encode_client_frame)
  moreover have "client_frame = (\<lambda>m. \<lparr>fr_version = kProtocolVersion, fr_type = message_type_byte (client_type m), fr_payload = client_body m\<rparr>)"
    by (rule ext) (rule client_frame_def)
  ultimately show ?thesis using parse_stream_frames [of kMaxFrameBody ?ps] by (simp add: comp_def)
qed

text \<open>
  C13. Messages survive the network: however the bytes of a sequence of encoded client messages are
  cut into reads, and however often the reads are interrupted, the session hands exactly those
  messages, in order, to the frame handler.
\<close>

theorem messages_survive_chunking:
  assumes "list_all quiet script" and "received script = concat (map encode_client ms)"
  shows "\<exists>fa. readAvailable (script @ [WouldBlock]) collect (\<lambda>_. False) closeIt (new_FrameAssembler kMaxFrameBody) [] =
     Some (fa, ms)"
proof -
  let ?fa = "new_FrameAssembler kMaxFrameBody"
  have fa: "fa_ok ?fa" "pending_bytes ?fa = []" "fa_maxBody ?fa = kMaxFrameBody"
    by (simp_all add: new_FrameAssembler_def fa_ok_def pending_bytes_def)
  have empty: "parse_stream kMaxFrameBody [] = ([], None, [])" using parse_client_messages [of "[]"] by simp
  have "parse_stream (fa_maxBody ?fa) (pending_bytes ?fa @ received script) = (map client_frame ms, None, [])"
    using fa assms(2) parse_client_messages by simp
  then show ?thesis
    using readAvailable_feed [OF assms(1) fa(1), of "map client_frame ms" None "[]" collect "\<lambda>_. False" closeIt "[]"] fa empty
      feed_collect [of ms "[]"] by (simp add: outcome_def)
qed

theorem messages_survive_chunking_witness:
  "received [Received (take 9 (encode_client (CancelMessage 5))), RecvInterrupted, Received (drop 9 (encode_client (CancelMessage 5)))] =
     concat (map encode_client [CancelMessage 5]) \<and>
   (\<exists>fa. readAvailable ([Received (take 9 (encode_client (CancelMessage 5))), RecvInterrupted,
        Received (drop 9 (encode_client (CancelMessage 5)))] @ [WouldBlock]) collect (\<lambda>_. False) id
        (new_FrameAssembler kMaxFrameBody) [] = Some (fa, [CancelMessage 5]))"
proof -
  let ?s = "[Received (take 9 (encode_client (CancelMessage 5))), RecvInterrupted, Received (drop 9 (encode_client (CancelMessage 5)))]"
  have q: "list_all quiet ?s" and r: "received ?s = concat (map encode_client [CancelMessage 5])" by simp_all
  show ?thesis using messages_survive_chunking [OF q r, of id] r by blast
qed

text \<open>
  For any frame handler, two runs that receive the same bytes leave the server in the same
  state, whatever the chunks: frames dispatched, protocol faults and closing included.
\<close>

lemma chunking_irrelevant:
  assumes "list_all quiet s1" and "list_all quiet s2" and "received s1 = received s2"
  shows "map_option snd (readAvailable (s1 @ [WouldBlock]) handler isClosed closeIt (new_FrameAssembler maxBody) st) =
     map_option snd (readAvailable (s2 @ [WouldBlock]) handler isClosed closeIt (new_FrameAssembler maxBody) st) \<and>
     readAvailable (s1 @ [WouldBlock]) handler isClosed closeIt (new_FrameAssembler maxBody) st \<noteq> None"
proof -
  let ?fa = "new_FrameAssembler maxBody"
  have fa: "fa_ok ?fa" "pending_bytes ?fa = []" "fa_maxBody ?fa = maxBody"
    by (simp_all add: new_FrameAssembler_def fa_ok_def pending_bytes_def)
  have empty: "parse_stream maxBody [] = ([], None, [])" by (simp add: parse_stream.simps [of _ "[]"] parse_frame_def)
  obtain fs err left where p: "parse_stream maxBody (received s1) = (fs, err, left)"
    by (cases "parse_stream maxBody (received s1)")
  show ?thesis
    using readAvailable_feed [OF assms(1) fa(1), of fs err left handler isClosed closeIt st]
      readAvailable_feed [OF assms(2) fa(1), of fs err left handler isClosed closeIt st] fa empty p assms(3) by auto
qed

text \<open>
  C14. The outbound buffer is bounded and loses nothing: while the engine sends and the reactor
  flushes in any interleaving, what the socket has taken followed by what is buffered is exactly
  what was accepted, the buffer never exceeds its bound, and the close handler runs at most once.
\<close>

theorem outbound_bounded_lossless:
  assumes "session_step\<^sup>*\<^sup>* (new_Session maxOutbound) s"
  shows "ss_accepted s = ss_wire s @ ss_outbound s \<and> length (ss_outbound s) \<le> maxOutbound \<and> ss_closeCalls s \<le> 1"
proof -
  have "session_inv s \<and> ss_maxOutbound s = maxOutbound"
    using assms
  proof (induction rule: rtranclp_induct)
    case base
    then show ?case by (simp add: session_inv_def new_Session_def)
  next
    case (step y z)
    then show ?case using session_step_inv by metis
  qed
  then show ?thesis by (auto simp: session_inv_def split: if_splits)
qed

theorem outbound_bounded_lossless_witness:
  "\<exists>s. session_step\<^sup>*\<^sup>* (new_Session 4) s \<and> ss_accepted s = [1, 2, 3] \<and> length (ss_outbound s) \<le> 4"
proof -
  have "session_step (new_Session 4) (snd (session_send [1, 2, 3] (new_Session 4)))"
    by (rule sends [of "[1, 2, 3]" _ True]) (simp add: session_send_def send_section_def new_Session_def)
  then have r: "session_step\<^sup>*\<^sup>* (new_Session 4) (snd (session_send [1, 2, 3] (new_Session 4)))" by simp
  have "ss_accepted (snd (session_send [1, 2, 3] (new_Session 4))) = [1, 2, 3]" by (simp add: session_send_def send_section_def new_Session_def)
  then show ?thesis using outbound_bounded_lossless [OF r] r by blast
qed

text \<open>
  A session that overflows is closed without its close handler ever running: \<^verbatim>\<open>send\<close> stores the
  flag itself, so every later \<^verbatim>\<open>close\<close> returns at its first test.
\<close>

lemma overflow_never_notified:
  assumes "\<not> ss_closed s" and "session_send bytes s = (False, s1)" and "session_step\<^sup>*\<^sup>* s1 s2"
  shows "ss_closed s2 \<and> ss_closeCalls s2 = ss_closeCalls s"
proof -
  have s1: "ss_closed s1 \<and> ss_closeCalls s1 = ss_closeCalls s"
    using assms(1,2) by (auto simp: session_send_def send_section_def split: if_splits)
  from assms(3) show ?thesis
  proof (induction rule: rtranclp_induct)
    case base
    then show ?case by (rule s1)
  next
    case (step y z)
    from step(2,3) show ?case
      by (cases rule: session_step.cases)
         (auto simp: send_section_def flush_copy_def flush_sent_def session_close_def Let_def split: if_splits send_result.splits)
  qed
qed

end
