(* ===== verification/Thread_Pool.thy ===== *)
theory Thread_Pool
  imports Thread_Safe_Queue "HOL-Library.Multiset"
begin

text \<open>
  \<^verbatim>\<open>concurrent/thread_pool.hpp\<close> and \<^verbatim>\<open>concurrent/thread_pool.cpp\<close>: a number of workers over one bounded
  queue. A turn of a worker is one critical section of \<^verbatim>\<open>pop\<close> or the end of the task it runs. What a
  task does is not part of the pool: \<open>throws\<close> says whether it ends with an exception. The lemmas
  show that the pool runs every accepted task exactly once and that stopping it drains the queue.
\<close>

section \<open>Model\<close>

datatype 'task worker = Waiting | Running 'task | Exited

text \<open>Three ghost lists: the tasks in the order accepted, started and finished.\<close>

record 'task ThreadPool =
  tp_queue :: "'task ThreadSafeQueue"
  tp_workers :: "'task worker list"
  tp_completed :: nat
  tp_failed :: nat
  tp_stopping :: bool
  tp_accepted :: "'task list"
  tp_started :: "'task list"
  tp_finished :: "'task list"

definition new_ThreadPool :: "nat \<Rightarrow> nat \<Rightarrow> 'task ThreadPool" where
  "new_ThreadPool threads capacity =
     \<lparr>tp_queue = new_ThreadSafeQueue capacity,
      tp_workers = replicate (if threads = 0 then 1 else threads) Waiting,
      tp_completed = 0, tp_failed = 0, tp_stopping = False,
      tp_accepted = [], tp_started = [], tp_finished = []\<rparr>"

text \<open>A submission that blocks has the result \<^term>\<open>None\<close>.\<close>

definition pool_submit :: "'task \<Rightarrow> 'task ThreadPool \<Rightarrow> bool option \<times> 'task ThreadPool" where
  "pool_submit task tp =
     (case push task (tp_queue tp) of
        (PushNotify, q) \<Rightarrow> (Some True, tp\<lparr>tp_queue := q, tp_accepted := tp_accepted tp @ [task]\<rparr>)
      | (PushDone b, q) \<Rightarrow> (Some b, tp)
      | (s, q) \<Rightarrow> (None, tp))"

definition pool_trySubmit :: "'task \<Rightarrow> 'task ThreadPool \<Rightarrow> bool \<times> 'task ThreadPool" where
  "pool_trySubmit task tp =
     (case tryPush task (tp_queue tp) of
        (PushNotify, q) \<Rightarrow> (True, tp\<lparr>tp_queue := q, tp_accepted := tp_accepted tp @ [task]\<rparr>)
      | (s, q) \<Rightarrow> (False, tp))"

definition pool_stop :: "'task ThreadPool \<Rightarrow> 'task ThreadPool" where
  "pool_stop tp =
     (if tp_stopping tp then tp
      else tp\<lparr>tp_stopping := True, tp_queue := snd (close (tp_queue tp))\<rparr>)"

text \<open>One turn of worker \<open>i\<close>; a worker that finds the queue open and empty stays blocked.\<close>

definition worker_turn :: "('task \<Rightarrow> bool) \<Rightarrow> nat \<Rightarrow> 'task ThreadPool \<Rightarrow> 'task ThreadPool" where
  "worker_turn throws i tp =
     (if i < length (tp_workers tp)
      then case tp_workers tp ! i of
             Exited \<Rightarrow> tp
           | Waiting \<Rightarrow>
               (case pop (tp_queue tp) of
                  (PopNotify task, q) \<Rightarrow>
                    tp\<lparr>tp_queue := q, tp_workers := (tp_workers tp)[i := Running task],
                       tp_started := tp_started tp @ [task]\<rparr>
                | (PopDone None, q) \<Rightarrow> tp\<lparr>tp_workers := (tp_workers tp)[i := Exited]\<rparr>
                | (s, q) \<Rightarrow> tp)
           | Running task \<Rightarrow>
               (let tp1 = tp\<lparr>tp_workers := (tp_workers tp)[i := Waiting], tp_finished := tp_finished tp @ [task]\<rparr>
                in if throws task then tp1\<lparr>tp_failed := tp_failed tp + 1\<rparr>
                   else tp1\<lparr>tp_completed := tp_completed tp + 1\<rparr>)
      else tp)"

definition joined :: "'task ThreadPool \<Rightarrow> bool" where
  "joined tp \<longleftrightarrow> list_all (\<lambda>w. case w of Exited \<Rightarrow> True | _ \<Rightarrow> False) (tp_workers tp)"

inductive pool_step :: "('task \<Rightarrow> bool) \<Rightarrow> 'task ThreadPool \<Rightarrow> 'task ThreadPool \<Rightarrow> bool" for throws where
  submits: "pool_submit task tp = (r, tp') \<Longrightarrow> pool_step throws tp tp'"
| trySubmits: "pool_trySubmit task tp = (b, tp') \<Longrightarrow> pool_step throws tp tp'"
| turns: "pool_step throws tp (worker_turn throws i tp)"
| stops: "pool_step throws tp (pool_stop tp)"

section \<open>Every task once\<close>

definition running :: "'task worker list \<Rightarrow> 'task multiset" where
  "running ws = mset (concat (map (\<lambda>w. case w of Running t \<Rightarrow> [t] | _ \<Rightarrow> []) ws))"

definition pool_inv :: "('task \<Rightarrow> bool) \<Rightarrow> 'task ThreadPool \<Rightarrow> bool" where
  "pool_inv throws tp \<longleftrightarrow> tp_accepted tp = tp_started tp @ q_items (tp_queue tp) \<and>
     mset (tp_started tp) = mset (tp_finished tp) + running (tp_workers tp) \<and>
     tp_failed tp = length (filter throws (tp_finished tp)) \<and>
     tp_completed tp + tp_failed tp = length (tp_finished tp) \<and>
     length (q_items (tp_queue tp)) \<le> q_capacity (tp_queue tp) \<and>
     (Exited \<in> set (tp_workers tp) \<longrightarrow> q_closed (tp_queue tp) \<and> q_items (tp_queue tp) = []) \<and>
     tp_stopping tp = q_closed (tp_queue tp)"

lemma running_update:
  "i < length ws \<Longrightarrow> running (ws[i := w]) + running [ws ! i] = running ws + running [w]"
proof (induction ws arbitrary: i)
  case (Cons v ws)
  then show ?case by (cases i) (auto simp: running_def ac_simps)
qed simp

lemma running_single [simp]:
  "running [Waiting] = {#}" "running [Exited] = {#}" "running [Running t] = {#t#}"
  by (simp_all add: running_def)

lemma exited_update: "Exited \<in> set (ws[i := w]) \<Longrightarrow> w \<noteq> Exited \<Longrightarrow> Exited \<in> set ws"
  using set_update_subset_insert [of ws i w] by auto

lemma worker_turn_cases:
  obtains (blocked) "worker_turn throws i tp = tp"
      "i \<ge> length (tp_workers tp) \<or> tp_workers tp ! i = Exited \<or>
       tp_workers tp ! i = Waiting \<and> \<not> q_closed (tp_queue tp) \<and> q_items (tp_queue tp) = []"
  | (started) task rest where "i < length (tp_workers tp)" "tp_workers tp ! i = Waiting" "q_items (tp_queue tp) = task # rest"
      "worker_turn throws i tp = tp\<lparr>tp_queue := (tp_queue tp)\<lparr>q_items := rest\<rparr>, tp_workers := (tp_workers tp)[i := Running task],
         tp_started := tp_started tp @ [task]\<rparr>"
  | (finished) task where "i < length (tp_workers tp)" "tp_workers tp ! i = Running task"
      "worker_turn throws i tp = tp\<lparr>tp_workers := (tp_workers tp)[i := Waiting], tp_finished := tp_finished tp @ [task],
         tp_failed := tp_failed tp + (if throws task then 1 else 0), tp_completed := tp_completed tp + (if throws task then 0 else 1)\<rparr>"
  | (exited) "i < length (tp_workers tp)" "tp_workers tp ! i = Waiting" "q_closed (tp_queue tp)" "q_items (tp_queue tp) = []"
      "worker_turn throws i tp = tp\<lparr>tp_workers := (tp_workers tp)[i := Exited]\<rparr>"
proof (cases "i < length (tp_workers tp)")
  case True
  show thesis
  proof (cases "tp_workers tp ! i")
    case Waiting
    then show thesis
      using True by (cases "q_items (tp_queue tp)"; cases "q_closed (tp_queue tp)")
        (auto simp: worker_turn_def pop_def intro: blocked started exited)
  next
    case (Running t)
    then show thesis using True by (intro finished [of t]) (auto simp: worker_turn_def Let_def)
  next
    case Exited
    then show thesis using True by (intro blocked) (auto simp: worker_turn_def)
  qed
qed (auto simp: worker_turn_def intro: blocked)

lemma worker_turn_inv:
  assumes "pool_inv throws tp"
  shows "pool_inv throws (worker_turn throws i tp)"
proof (cases rule: worker_turn_cases [of throws i tp])
  case blocked
  then show ?thesis using assms by simp
next
  case (started task rest)
  then show ?thesis
    using assms running_update [of i "tp_workers tp" "Running task"] exited_update [of "tp_workers tp" i "Running task"]
    by (auto simp: pool_inv_def)
next
  case (finished task)
  then show ?thesis
    using assms running_update [of i "tp_workers tp" Waiting] exited_update [of "tp_workers tp" i Waiting]
    by (auto simp: pool_inv_def)
next
  case exited
  then show ?thesis using assms running_update [of i "tp_workers tp" Exited] by (auto simp: pool_inv_def)
qed

lemma pool_step_inv: "pool_step throws tp tp' \<Longrightarrow> pool_inv throws tp \<Longrightarrow> pool_inv throws tp'"
proof (induction rule: pool_step.induct)
  case (submits task tp r tp')
  then show ?case by (auto simp: pool_submit_def push_def pool_inv_def split: if_splits)
next
  case (trySubmits task tp b tp')
  then show ?case by (auto simp: pool_trySubmit_def tryPush_def pool_inv_def split: if_splits)
next
  case (turns tp i)
  then show ?case by (rule worker_turn_inv)
next
  case (stops tp)
  then show ?case by (auto simp: pool_stop_def close_def pool_inv_def)
qed

lemma new_ThreadPool_inv: "pool_inv throws (new_ThreadPool threads capacity)"
  by (simp add: pool_inv_def new_ThreadPool_def new_ThreadSafeQueue_def running_def)

lemma joined_running: "joined tp \<Longrightarrow> running (tp_workers tp) = {#}"
  by (auto simp: joined_def running_def list_all_iff split: worker.splits)

section \<open>Stopping\<close>

fun weight :: "'task worker \<Rightarrow> nat" where
  "weight Waiting = 1"
| "weight (Running t) = 2"
| "weight Exited = 0"

definition pool_work :: "'task ThreadPool \<Rightarrow> nat" where
  "pool_work tp = 2 * length (q_items (tp_queue tp)) + sum_list (map weight (tp_workers tp))"

lemma weight_update:
  "i < length ws \<Longrightarrow> sum_list (map weight (ws[i := w])) + weight (ws ! i) = sum_list (map weight ws) + weight w"
proof (induction ws arbitrary: i)
  case (Cons v ws)
  then show ?case by (cases i) auto
qed simp

lemma weight_bound: "sum_list (map weight ws) \<le> 2 * length ws"
proof (induction ws)
  case (Cons w ws)
  then show ?case by (cases w) simp_all
qed simp

lemma worker_turn_frame [simp]:
  "length (tp_workers (worker_turn throws i tp)) = length (tp_workers tp)"
  "q_closed (tp_queue (worker_turn throws i tp)) = q_closed (tp_queue tp)"
  "tp_accepted (worker_turn throws i tp) = tp_accepted tp"
  by (cases rule: worker_turn_cases [of throws i tp]; simp)+

lemma worker_turn_work:
  assumes "q_closed (tp_queue tp)"
  shows "pool_work (worker_turn throws i tp) =
     pool_work tp - (if i < length (tp_workers tp) \<and> tp_workers tp ! i \<noteq> Exited then 1 else 0)"
proof (cases rule: worker_turn_cases [of throws i tp])
  case blocked
  then show ?thesis using assms by auto
next
  case (started task rest)
  then show ?thesis using weight_update [of i "tp_workers tp" "Running task"] by (simp add: pool_work_def)
next
  case (finished task)
  then show ?thesis using weight_update [of i "tp_workers tp" Waiting] by (simp add: pool_work_def)
next
  case exited
  then show ?thesis using weight_update [of i "tp_workers tp" Exited] by (simp add: pool_work_def)
qed

lemma joined_work: "joined tp \<longleftrightarrow> (\<forall>i < length (tp_workers tp). tp_workers tp ! i = Exited)"
  by (auto simp: joined_def list_all_length split: worker.splits) (metis worker.exhaust)+

lemma turns_work_le:
  "q_closed (tp_queue tp) \<Longrightarrow> pool_work (fold (worker_turn throws) r tp) \<le> pool_work tp"
proof (induction r arbitrary: tp)
  case (Cons j r)
  then show ?case using Cons.IH [of "worker_turn throws j tp"] worker_turn_work [of tp throws j] by auto
qed simp

lemma turns_work_less:
  assumes "q_closed (tp_queue tp)" and "i \<in> set r" and "i < length (tp_workers tp)" and "tp_workers tp ! i \<noteq> Exited"
  shows "pool_work (fold (worker_turn throws) r tp) < pool_work tp"
  using assms
proof (induction r arbitrary: tp)
  case (Cons j r)
  show ?case
  proof (cases "j < length (tp_workers tp) \<and> tp_workers tp ! j \<noteq> Exited")
    case True
    have "weight (tp_workers tp ! j) \<le> sum_list (map weight (tp_workers tp))"
      using True by (intro member_le_sum_list) auto
    moreover have "0 < weight (tp_workers tp ! j)" using True by (cases "tp_workers tp ! j") auto
    ultimately have "0 < pool_work tp" by (simp add: pool_work_def)
    then show ?thesis
      using True turns_work_le [of "worker_turn throws j tp" throws r] worker_turn_work [of tp throws j] Cons.prems(1) by auto
  next
    case False
    then have "worker_turn throws j tp = tp" by (auto simp: worker_turn_def)
    moreover have "i \<noteq> j" using False Cons.prems by auto
    ultimately show ?thesis using Cons by auto
  qed
qed simp

lemma turns_frame:
  "length (tp_workers (fold (worker_turn throws) r tp)) = length (tp_workers tp)"
  "q_closed (tp_queue (fold (worker_turn throws) r tp)) = q_closed (tp_queue tp)"
  "tp_accepted (fold (worker_turn throws) r tp) = tp_accepted tp"
  by (induction r arbitrary: tp) simp_all

lemma turns_inv: "pool_inv throws tp \<Longrightarrow> pool_inv throws (fold (worker_turn throws) r tp)"
  by (induction r arbitrary: tp) (simp_all add: worker_turn_inv)

lemma joined_turns: "joined tp \<Longrightarrow> fold (worker_turn throws) r tp = tp"
proof (induction r arbitrary: tp)
  case (Cons j r)
  have "worker_turn throws j tp = tp" using Cons.prems by (auto simp: joined_work worker_turn_def)
  then show ?case using Cons by simp
qed simp

text \<open>A round is any sequence of turns in which every worker has one.\<close>

lemma rounds_join:
  assumes "q_closed (tp_queue tp)" and "list_all (\<lambda>r. list_all (\<lambda>i. i \<in> set r) [0..<length (tp_workers tp)]) rounds"
    and "pool_work tp \<le> length rounds"
  shows "joined (fold (worker_turn throws) (concat rounds) tp)"
  using assms
proof (induction rounds arbitrary: tp)
  case Nil
  then show ?case by (auto simp: pool_work_def joined_work dest!: nth_mem) (metis weight.elims zero_neq_numeral zero_neq_one)
next
  case (Cons r rounds)
  show ?case
  proof (cases "joined tp")
    case True
    then show ?thesis using joined_turns by metis
  next
    case False
    then obtain i where "i < length (tp_workers tp)" "tp_workers tp ! i \<noteq> Exited" by (auto simp: joined_work)
    moreover from this have "i \<in> set r" using Cons.prems(2) by (auto simp: list_all_iff)
    ultimately have "pool_work (fold (worker_turn throws) r tp) < pool_work tp"
      using turns_work_less Cons.prems(1) by metis
    then show ?thesis using Cons by (simp add: turns_frame)
  qed
qed

lemma pool_reachable:
  assumes "(pool_step throws)\<^sup>*\<^sup>* (new_ThreadPool threads capacity) tp"
  shows "pool_inv throws tp \<and> length (tp_workers tp) = max 1 threads"
  using assms
proof (induction rule: rtranclp_induct)
  case base
  then show ?case by (simp add: new_ThreadPool_inv) (simp add: new_ThreadPool_def)
next
  case (step y z)
  have "length (tp_workers z) = length (tp_workers y)"
    using step(2) by (cases rule: pool_step.cases)
      (auto simp: pool_submit_def push_def pool_trySubmit_def tryPush_def pool_stop_def close_def split: if_splits)
  then show ?case using step pool_step_inv by metis
qed

section \<open>Properties\<close>

text \<open>
  Every accepted task is started once, in the order of acceptance, and counted once when it
  ends: what was accepted is what was started followed by what is queued, what was started is what
  finished together with what runs, a task that throws is counted as failed and costs no worker,
  and once all workers have exited every accepted task has finished.
\<close>

lemma pool_runs_every_task:
  assumes "(pool_step throws)\<^sup>*\<^sup>* (new_ThreadPool threads capacity) tp"
  shows "tp_accepted tp = tp_started tp @ q_items (tp_queue tp) \<and>
     mset (tp_started tp) = mset (tp_finished tp) + running (tp_workers tp) \<and>
     tp_failed tp = length (filter throws (tp_finished tp)) \<and>
     tp_completed tp + tp_failed tp = length (tp_finished tp) \<and>
     (joined tp \<longrightarrow> mset (tp_finished tp) = mset (tp_accepted tp)) \<and>
     length (tp_workers tp) = max 1 threads"
proof -
  have "pool_inv throws tp \<and> length (tp_workers tp) = max 1 threads" by (rule pool_reachable [OF assms])
  moreover have "q_items (tp_queue tp) = []" if "joined tp" "pool_inv throws tp" "length (tp_workers tp) = max 1 threads"
  proof -
    have "0 < length (tp_workers tp)" using that(3) by simp
    then have "Exited \<in> set (tp_workers tp)" using that(1) by (metis joined_work nth_mem)
    then show ?thesis using that(2) by (simp add: pool_inv_def)
  qed
  ultimately show ?thesis using joined_running [of tp] by (auto simp: pool_inv_def)
qed

text \<open>
  Stopping the pool drains it: after \<^verbatim>\<open>stop\<close> nothing more is accepted, and under any schedule
  that keeps giving every worker a turn, all workers exit after a bounded number of rounds, with
  every accepted task finished.
\<close>

lemma pool_stop_drains:
  assumes "(pool_step throws)\<^sup>*\<^sup>* (new_ThreadPool threads capacity) tp"
    and "list_all (\<lambda>r. list_all (\<lambda>i. i \<in> set r) [0..<length (tp_workers tp)]) rounds"
    and "2 * length (q_items (tp_queue tp)) + 2 * length (tp_workers tp) \<le> length rounds"
  shows "joined (fold (worker_turn throws) (concat rounds) (pool_stop tp)) \<and>
     mset (tp_finished (fold (worker_turn throws) (concat rounds) (pool_stop tp))) = mset (tp_accepted tp) \<and>
     fst (pool_submit task (pool_stop tp)) = Some False \<and> fst (pool_trySubmit task (pool_stop tp)) = False"
proof -
  let ?tp = "pool_stop tp" and ?last = "fold (worker_turn throws) (concat rounds) (pool_stop tp)"
  have "pool_inv throws tp" using pool_reachable [OF assms(1)] by simp
  then have inv: "pool_inv throws ?tp" by (rule pool_step_inv [OF stops])
  have closed: "q_closed (tp_queue ?tp)" using \<open>pool_inv throws tp\<close> by (simp add: pool_stop_def close_def pool_inv_def)
  have same: "tp_workers ?tp = tp_workers tp" "q_items (tp_queue ?tp) = q_items (tp_queue tp)" "tp_accepted ?tp = tp_accepted tp"
    by (simp_all add: pool_stop_def close_def)
  have "sum_list (map weight (tp_workers tp)) \<le> 2 * length (tp_workers tp)" by (rule weight_bound)
  then have "pool_work ?tp \<le> length rounds" using assms(3) same by (simp add: pool_work_def)
  then have j: "joined ?last" using rounds_join [OF closed] assms(2) same by simp
  have "tp_workers tp \<noteq> []" using pool_reachable [OF assms(1)] by auto
  then have "tp_workers ?last \<noteq> []" using same by (metis length_0_conv turns_frame(1))
  then have "Exited \<in> set (tp_workers ?last)" using j by (metis joined_work length_greater_0_conv nth_mem)
  then have "mset (tp_finished ?last) = mset (tp_accepted tp)"
    using turns_inv [OF inv, of "concat rounds"] joined_running [OF j] same by (simp add: pool_inv_def turns_frame)
  then show ?thesis using j closed by (simp add: pool_submit_def push_def pool_trySubmit_def tryPush_def)
qed

end
