(* ===== verification/Reactor.thy ===== *)
theory Reactor
  imports Exchange_Types
begin

text \<open>
  \<^verbatim>\<open>net/reactor.hpp\<close> and \<^verbatim>\<open>net/reactor.cpp\<close>: the event loop. The handler table is the reactor's own;
  what a handler does is a parameter acting on the state \<open>'s\<close> of the program, in which the table
  lives. The answers of \<^verbatim>\<open>epoll_ctl\<close> and \<^verbatim>\<open>epoll_wait\<close> are parameters. A step relation shows how other
  threads hand over work through the wakeup descriptor.
\<close>

section \<open>The handler table and the loop\<close>

record 'h Reactor =
  rx_handlers :: "(nat \<times> 'h) list"
  rx_running :: bool
  rx_stopping :: bool

text \<open>\<open>ok\<close> is whether \<^verbatim>\<open>epoll_ctl\<close> succeeds; a handler for a descriptor that has one is replaced.\<close>

definition reactor_add :: "bool \<Rightarrow> nat \<Rightarrow> 'h \<Rightarrow> 'h Reactor \<Rightarrow> ('h Reactor) result" where
  "reactor_add ok fd handler r =
     (if \<not> ok then Inl NetworkError
      else Inr (r\<lparr>rx_handlers := (fd, handler) # al_remove fd (rx_handlers r)\<rparr>))"

definition reactor_modify :: "bool \<Rightarrow> 'h Reactor \<Rightarrow> ('h Reactor) result" where
  "reactor_modify ok r = (if \<not> ok then Inl NetworkError else Inr r)"

definition reactor_remove :: "nat \<Rightarrow> 'h Reactor \<Rightarrow> 'h Reactor" where
  "reactor_remove fd r = r\<lparr>rx_handlers := al_remove fd (rx_handlers r)\<rparr>"

text \<open>
  The constructor: \<open>epollOk\<close> and \<open>eventOk\<close> say whether the two descriptors could be made; \<open>wakeup\<close> is
  registered like any other.
\<close>

definition new_Reactor :: "bool \<Rightarrow> bool \<Rightarrow> bool \<Rightarrow> nat \<Rightarrow> 'h \<Rightarrow> ('h Reactor) result" where
  "new_Reactor epollOk eventOk addOk wakeup drain =
     (if \<not> epollOk then Inl NetworkError
      else if \<not> eventOk then Inl NetworkError
      else reactor_add addOk wakeup drain \<lparr>rx_handlers = [], rx_running = False, rx_stopping = False\<rparr>)"

definition reactor_stop :: "'h Reactor \<Rightarrow> 'h Reactor" where
  "reactor_stop r = r\<lparr>rx_stopping := True\<rparr>"

text \<open>
  One batch of events. Every event looks its handler up when its turn comes; \<open>callback\<close> runs it and
  says whether it throws, with \<^term>\<open>None\<close> for a callback that does not return.
\<close>

fun dispatch_batch ::
  "('s \<Rightarrow> 'h Reactor) \<Rightarrow> ('h \<Rightarrow> 'm \<Rightarrow> 's \<Rightarrow> (unit result \<times> 's) option) \<Rightarrow> (nat \<times> 'm) list \<Rightarrow> 's \<Rightarrow>
     (unit result \<times> 's) option" where
  "dispatch_batch table callback [] st = Some (Inr (), st)"
| "dispatch_batch table callback ((fd, bits) # events) st =
     (case map_of (rx_handlers (table st)) fd of
        None \<Rightarrow> dispatch_batch table callback events st
      | Some handler \<Rightarrow> do {
          (r, st') \<leftarrow> callback handler bits st;
          case r of
            Inl e \<Rightarrow> Some (Inl e, st')
          | Inr u \<Rightarrow> dispatch_batch table callback events st'
        })"

datatype 'm wait_result = Ready "(nat \<times> 'm) list" | WaitInterrupted | WaitFailed

definition kMaxEventsPerWait :: nat where
  "kMaxEventsPerWait = 64"

text \<open>
  The loop over the results of \<^verbatim>\<open>epoll_wait\<close>; when they run out before \<^verbatim>\<open>stop\<close> was seen, the loop is
  parked in the next wait. \<open>put\<close> writes the reactor back into the state.
\<close>

fun run_loop ::
  "('s \<Rightarrow> 'h Reactor) \<Rightarrow> ('h Reactor \<Rightarrow> 's \<Rightarrow> 's) \<Rightarrow> ('h \<Rightarrow> 'm \<Rightarrow> 's \<Rightarrow> (unit result \<times> 's) option) \<Rightarrow>
     'm wait_result list \<Rightarrow> 's \<Rightarrow> (unit result \<times> 's) option" where
  "run_loop table put callback script st =
     (if rx_stopping (table st) then Some (Inr (), put ((table st)\<lparr>rx_running := False\<rparr>) st)
      else case script of
             [] \<Rightarrow> None
           | WaitInterrupted # rest \<Rightarrow> run_loop table put callback rest st
           | WaitFailed # rest \<Rightarrow> Some (Inl NetworkError, put ((table st)\<lparr>rx_running := False\<rparr>) st)
           | Ready events # rest \<Rightarrow> do {
               (r, st') \<leftarrow> dispatch_batch table callback (take kMaxEventsPerWait events) st;
               case r of
                 Inl e \<Rightarrow> Some (Inl e, st')
               | Inr u \<Rightarrow> run_loop table put callback rest st'
             })"

definition reactor_run ::
  "('s \<Rightarrow> 'h Reactor) \<Rightarrow> ('h Reactor \<Rightarrow> 's \<Rightarrow> 's) \<Rightarrow> ('h \<Rightarrow> 'm \<Rightarrow> 's \<Rightarrow> (unit result \<times> 's) option) \<Rightarrow>
     'm wait_result list \<Rightarrow> 's \<Rightarrow> (unit result \<times> 's) option" where
  "reactor_run table put callback script st =
     run_loop table put callback script (put ((table st)\<lparr>rx_running := True\<rparr>) st)"

section \<open>Handing work to the loop\<close>













lemma dispatch_batch_append:
  "dispatch_batch table callback (es @ fs) st = do {
     (r, st') \<leftarrow> dispatch_batch table callback es st;
     case r of Inl e \<Rightarrow> Some (Inl e, st') | Inr u \<Rightarrow> dispatch_batch table callback fs st'
   }"
  by (induction table callback es st rule: dispatch_batch.induct)
     (auto split: option.split sum.split Option.bind_split)

section \<open>Properties\<close>



end
