(* ===== verification/Server.thy ===== *)
theory Server
  imports Session Engine Thread_Pool Reactor
begin

text \<open>
  \<^verbatim>\<open>net/server.hpp\<close> and \<^verbatim>\<open>net/server.cpp\<close>: reactor, sessions, worker pool and engine tied together.
  Session objects live in a table under a number of their own; the reactor's session map, the
  subscriber list, the account map and the tasks refer to them by it. A weak reference can be locked
  while the session map or a task holds the session. An event on the reactor thread, a turn of a
  worker and a command on the engine thread are the steps of the server; the interleavings inside
  the queues, the outbound buffers and the wakeup are the subject of the theories of those parts.
  What the kernel answers (accepted descriptors, results of \<^verbatim>\<open>recv\<close> and \<^verbatim>\<open>send\<close>, events) is given with
  each event. The server never sets a command log on its engine.
\<close>

section \<open>Orders from the wire\<close>

definition buildOrder ::
  "OrderId \<Rightarrow> AccountId \<Rightarrow> Side \<Rightarrow> OrderKind \<Rightarrow> Price \<Rightarrow> Quantity \<Rightarrow> Quantity \<Rightarrow> order result" where
  "buildOrder orderId account side kind price quantity displayQuantity =
     (if quantity = 0 then Inl (InvalidOrderError QuantityNotPositive)
      else case kind of
             KindLimit \<Rightarrow> Inr (new_LimitOrder orderId side account quantity price)
           | KindMarket \<Rightarrow> Inr (new_MarketOrder orderId side account quantity)
           | KindIceberg \<Rightarrow>
               if displayQuantity = 0 then Inl (InvalidOrderError IcebergWithoutDisplay)
               else Inr (new_IcebergOrder orderId side account quantity price displayQuantity))"

section \<open>State\<close>

type_synonym sid = nat
type_synonym fd = nat
type_synonym task = "sid \<times> ClientMessage"

record ServerConfig =
  cf_workerThreads :: nat
  cf_commandQueueCapacity :: nat
  cf_workerQueueCapacity :: nat
  cf_maxOutboundBytes :: nat

record Connection =
  cn_fd :: fd
  cn_session :: Session
  cn_assembler :: FrameAssembler

datatype handler = WakeHandler | ListenHandler | ClientHandler fd

record Server =
  sv_config :: ServerConfig
  sv_engine :: "unit Engine"
  sv_workers :: "task ThreadPool"
  sv_reactor :: "handler Reactor"
  sv_listener :: "fd option"
  sv_port :: "16 word"
  sv_connections :: "(sid \<times> Connection) list"  \<comment> \<open>every session object made so far\<close>
  sv_sessions :: "(fd \<times> sid) list"
  sv_subscribers :: "sid list"
  sv_byAccount :: "(AccountId \<times> sid) list"
  sv_needFlush :: "fd list"
  sv_needClose :: "fd list"
  sv_wake :: bool                              \<comment> \<open>the wakeup descriptor has been written to\<close>
  sv_accepted :: nat
  sv_droppedSlow :: nat
  sv_started :: bool
  sv_stopping :: bool

definition new_Server :: "ServerConfig \<Rightarrow> fd \<Rightarrow> Server" where
  "new_Server config wakeup =
     \<lparr>sv_config = config,
      sv_engine = new_Engine (cf_commandQueueCapacity config) None,
      sv_workers = new_ThreadPool (cf_workerThreads config) (cf_workerQueueCapacity config),
      sv_reactor = \<lparr>rx_handlers = [(wakeup, WakeHandler)], rx_running = False, rx_stopping = False\<rparr>,
      sv_listener = None, sv_port = 0, sv_connections = [], sv_sessions = [], sv_subscribers = [],
      sv_byAccount = [], sv_needFlush = [], sv_needClose = [], sv_wake = False, sv_accepted = 0,
      sv_droppedSlow = 0, sv_started = False, sv_stopping = False\<rparr>"

text \<open>
  Starting: \<open>listened\<close> and \<open>port\<close> are the results of \<^verbatim>\<open>listenOn\<close> and \<^verbatim>\<open>boundPort\<close>, \<open>addOk\<close> that of
  registering the listener.
\<close>

definition server_start :: "fd result \<Rightarrow> 16 word result \<Rightarrow> bool \<Rightarrow> Server \<Rightarrow> unit result \<times> Server" where
  "server_start listened port addOk sv =
     (if sv_started sv then (Inr (), sv)
      else
        let sv1 = sv\<lparr>sv_started := True\<rparr>
        in case listened of
             Inl e \<Rightarrow> (Inl e, sv1)
           | Inr listener \<Rightarrow>
               let sv2 = sv1\<lparr>sv_listener := Some listener\<rparr>
               in case port of
                    Inl e \<Rightarrow> (Inl e, sv2)
                  | Inr p \<Rightarrow>
                      let sv3 = sv2\<lparr>sv_port := p,
                                    sv_engine := (sv_engine sv2)\<lparr>eng_started := True, eng_running := True\<rparr>\<rparr>
                      in case reactor_add addOk listener ListenHandler (sv_reactor sv3) of
                           Inl e \<Rightarrow> (Inl e, sv3)
                         | Inr r \<Rightarrow> (Inr (), sv3\<lparr>sv_reactor := r\<lparr>rx_running := True\<rparr>\<rparr>))"

definition set_session :: "sid \<Rightarrow> Session \<Rightarrow> Server \<Rightarrow> Server" where
  "set_session i s sv = sv\<lparr>sv_connections := al_adjust i (\<lambda>c. c\<lparr>cn_session := s\<rparr>) (sv_connections sv)\<rparr>"

definition tasks_held :: "task ThreadPool \<Rightarrow> sid list" where
  "tasks_held tp = map fst (q_items (tp_queue tp) @
     concat (map (\<lambda>w. case w of Running t \<Rightarrow> [t] | _ \<Rightarrow> []) (tp_workers tp)))"

definition alive :: "Server \<Rightarrow> sid \<Rightarrow> bool" where
  "alive sv i \<longleftrightarrow> i \<in> set (map snd (sv_sessions sv)) \<or> i \<in> set (tasks_held (sv_workers sv))"

section \<open>Sending and closing\<close>

text \<open>\<^verbatim>\<open>Session::close\<close> with the close handler that \<^verbatim>\<open>acceptReady\<close> installs.\<close>

definition close_session :: "sid \<Rightarrow> Server \<Rightarrow> Server" where
  "close_session i sv =
     (case map_of (sv_connections sv) i of
        None \<Rightarrow> sv
      | Some c \<Rightarrow>
          if ss_closed (cn_session c) then sv
          else (set_session i (session_close (cn_session c)) sv)
                 \<lparr>sv_needClose := sv_needClose sv @ [cn_fd c], sv_wake := True\<rparr>)"

definition deliver :: "sid \<Rightarrow> byte list \<Rightarrow> Server \<Rightarrow> Server" where
  "deliver i bytes sv =
     (case map_of (sv_connections sv) i of
        None \<Rightarrow> sv
      | Some c \<Rightarrow>
          (case session_send bytes (cn_session c) of
             (False, s') \<Rightarrow>
               close_session i ((set_session i s' sv)\<lparr>sv_droppedSlow := sv_droppedSlow sv + 1\<rparr>)
           | (True, s') \<Rightarrow>
               (set_session i s' sv)\<lparr>sv_needFlush := sv_needFlush sv @ [cn_fd c], sv_wake := True\<rparr>))"

definition onFrame :: "sid \<Rightarrow> Frame \<Rightarrow> Server \<Rightarrow> protocol_reason option \<times> Server" where
  "onFrame i frame sv =
     (case decodeClientMessage (fr_type frame) (fr_payload frame) of
        Inl e \<Rightarrow> (Some e, sv)
      | Inr message \<Rightarrow>
          (case pool_trySubmit (i, message) (sv_workers sv) of
             (True, tp) \<Rightarrow> (None, sv\<lparr>sv_workers := tp\<rparr>)
           | (False, tp) \<Rightarrow> (None, deliver i (encode_server (RejectedMessage 0 Overloaded)) sv)))"

section \<open>Workers\<close>

text \<open>A submission to the engine; \<^term>\<open>None\<close> means that the worker is blocked on the full queue.\<close>

definition submit_or_reject :: "sid \<Rightarrow> OrderId \<Rightarrow> Command \<Rightarrow> Server \<Rightarrow> Server option" where
  "submit_or_reject i orderId command sv =
     (case engine_submit command (sv_engine sv) of
        (None, e) \<Rightarrow> None
      | (Some True, e) \<Rightarrow> Some (sv\<lparr>sv_engine := e\<rparr>)
      | (Some False, e) \<Rightarrow>
          Some (deliver i (encode_server (RejectedMessage orderId Overloaded)) (sv\<lparr>sv_engine := e\<rparr>)))"

fun dispatch :: "sid \<Rightarrow> ClientMessage \<Rightarrow> Server \<Rightarrow> Server option" where
  "dispatch i (NewOrderMessage orderId account side kind price quantity displayQuantity) sv =
     (let sv1 = sv\<lparr>sv_byAccount := (account, i) # al_remove account (sv_byAccount sv)\<rparr>
      in case buildOrder orderId account side kind price quantity displayQuantity of
           Inl (InvalidOrderError e) \<Rightarrow> Some (deliver i (encode_server (RejectedMessage 0 InvalidOrder)) sv1)
         | Inl e \<Rightarrow> Some (deliver i (encode_server (RejectedMessage 0 ReasonUnknown)) sv1)
         | Inr built \<Rightarrow> submit_or_reject i orderId (SubmitCommand (Some built)) sv1)"
| "dispatch i (CancelMessage orderId) sv = submit_or_reject i orderId (CancelCommand orderId) sv"
| "dispatch i (ModifyMessage orderId quantity price) sv =
     submit_or_reject i orderId (ModifyCommand orderId quantity price) sv"

text \<open>
  A turn of a thread moves the server, is blocked, or reaches undefined behaviour. A running worker
  executes its task, which holds the session until it ends; \<^verbatim>\<open>dispatch\<close> lets no exception out.
\<close>

datatype turn_result = Moved Server | Blocked | Undefined

definition server_worker_turn :: "nat \<Rightarrow> Server \<Rightarrow> turn_result" where
  "server_worker_turn w sv =
     (if w < length (tp_workers (sv_workers sv))
      then case tp_workers (sv_workers sv) ! w of
             Running t \<Rightarrow>
               (case dispatch (fst t) (snd t) sv of
                  None \<Rightarrow> Blocked
                | Some sv' \<Rightarrow> Moved (sv'\<lparr>sv_workers := worker_turn (\<lambda>t. False) w (sv_workers sv')\<rparr>))
           | Waiting \<Rightarrow>
               if q_closed (tp_queue (sv_workers sv)) \<or> q_items (tp_queue (sv_workers sv)) \<noteq> []
               then Moved (sv\<lparr>sv_workers := worker_turn (\<lambda>t. False) w (sv_workers sv)\<rparr>)
               else Blocked
           | Exited \<Rightarrow> Blocked
      else Blocked)"

section \<open>The engine thread\<close>

definition notify :: "AccountId \<Rightarrow> byte list \<Rightarrow> Server \<Rightarrow> Server" where
  "notify account bytes sv =
     (case map_of (sv_byAccount sv) account of
        None \<Rightarrow> sv
      | Some i \<Rightarrow> if alive sv i then deliver i bytes sv else sv)"

definition toAggressor :: "Fill \<Rightarrow> ServerMessage" where
  "toAggressor f = FillMessage (fl_aggressorId f) (fl_restingId f) (fl_price f) (fl_quantity f) (fl_aggressorSide f)"

definition toResting :: "Fill \<Rightarrow> ServerMessage" where
  "toResting f =
     FillMessage (fl_restingId f) (fl_aggressorId f) (fl_price f) (fl_quantity f) (opposite (fl_aggressorSide f))"

definition publishFill :: "Fill \<Rightarrow> Server \<Rightarrow> Server" where
  "publishFill f sv =
     notify (fl_restingAccount f) (encode_server (toResting f))
       (notify (fl_aggressorAccount f) (encode_server (toAggressor f)) sv)"

text \<open>
  The engine handles one command. Its fill handler is \<^verbatim>\<open>publishFill\<close>, which touches nothing of the
  engine, so the fills of the command are published right after the engine's own bookkeeping.
\<close>

definition engine_turn :: "Server \<Rightarrow> turn_result" where
  "engine_turn sv =
     (if \<not> eng_started (sv_engine sv) then Blocked
      else case q_items (eng_queue (sv_engine sv)) of
        [] \<Rightarrow> Blocked
      | command # rest \<Rightarrow>
          (let e = (sv_engine sv)\<lparr>eng_queue := (eng_queue (sv_engine sv))\<lparr>q_items := rest\<rparr>\<rparr>
           in case handle (\<lambda>(env :: unit) c l. None) (Some (\<lambda>f. None)) () command e of
                None \<Rightarrow> Undefined
              | Some e' \<Rightarrow>
                  Moved (fold publishFill (drop (length (eng_delivered e)) (eng_delivered e'))
                    (sv\<lparr>sv_engine := e'\<rparr>))))"

section \<open>The reactor thread\<close>

text \<open>
  A result of \<^verbatim>\<open>accept4\<close>; with a descriptor come the outcomes of setting it up and of registering it.
\<close>

datatype accept_result = AcceptedFd fd bool bool | AcceptWouldBlock | AcceptRetry | AcceptFailed

definition install_client :: "fd \<Rightarrow> handler Reactor \<Rightarrow> Server \<Rightarrow> Server" where
  "install_client fd r sv =
     (let i = length (sv_connections sv);
          c = \<lparr>cn_fd = fd, cn_session = new_Session (cf_maxOutboundBytes (sv_config sv)),
               cn_assembler = new_FrameAssembler kMaxFrameBody\<rparr>
      in sv\<lparr>sv_reactor := r,
            sv_connections := sv_connections sv @ [(i, c)],
            sv_sessions := (if fd \<in> set (map fst (sv_sessions sv)) then sv_sessions sv else (fd, i) # sv_sessions sv),
            sv_subscribers := sv_subscribers sv @ [i],
            sv_accepted := sv_accepted sv + 1\<rparr>)"

text \<open>An exception of the set-up leaves \<^verbatim>\<open>acceptReady\<close>, and the descriptor is closed with its owner.\<close>

fun acceptReady :: "accept_result list \<Rightarrow> Server \<Rightarrow> (unit result \<times> Server) option" where
  "acceptReady [] sv = None"
| "acceptReady (AcceptWouldBlock # script) sv = Some (Inr (), sv)"
| "acceptReady (AcceptRetry # script) sv = acceptReady script sv"
| "acceptReady (AcceptFailed # script) sv = Some (Inr (), sv)"
| "acceptReady (AcceptedFd fd setupOk addOk # script) sv =
     (if \<not> setupOk then Some (Inl NetworkError, sv)
      else case reactor_add addOk fd (ClientHandler fd) (sv_reactor sv) of
             Inl e \<Rightarrow> Some (Inl e, sv)
           | Inr r \<Rightarrow> acceptReady script (install_client fd r sv))"

definition session_closed :: "sid \<Rightarrow> Server \<Rightarrow> bool" where
  "session_closed i sv \<longleftrightarrow>
     (case map_of (sv_connections sv) i of None \<Rightarrow> True | Some c \<Rightarrow> ss_closed (cn_session c))"

definition write_session :: "send_result list \<Rightarrow> sid \<Rightarrow> Server \<Rightarrow> Server option" where
  "write_session script i sv =
     (case map_of (sv_connections sv) i of
        None \<Rightarrow> Some sv
      | Some c \<Rightarrow> do {
          s' \<leftarrow> onWritable script (cn_session c);
          let sv' = set_session i s' sv;
          Some (if ss_closeCalls s' > ss_closeCalls (cn_session c)
                then sv'\<lparr>sv_needClose := sv_needClose sv' @ [cn_fd c], sv_wake := True\<rparr>
                else sv')
        })"

definition read_session :: "recv_result list \<Rightarrow> sid \<Rightarrow> Server \<Rightarrow> Server option" where
  "read_session script i sv =
     (case map_of (sv_connections sv) i of
        None \<Rightarrow> Some sv
      | Some c \<Rightarrow> do {
          (fa, sv') \<leftarrow> onReadable script (onFrame i) (session_closed i) (close_session i) (cn_assembler c) sv;
          Some (sv'\<lparr>sv_connections := al_adjust i (\<lambda>c. c\<lparr>cn_assembler := fa\<rparr>) (sv_connections sv')\<rparr>)
        })"

text \<open>An event: its flags, and what the kernel answers while it is handled.\<close>

record Event =
  ev_hup :: bool     \<comment> \<open>\<^verbatim>\<open>EPOLLHUP\<close> or \<^verbatim>\<open>EPOLLERR\<close>\<close>
  ev_out :: bool
  ev_in :: bool      \<comment> \<open>\<^verbatim>\<open>EPOLLIN\<close> or \<^verbatim>\<open>EPOLLRDHUP\<close>\<close>
  ev_accepts :: "accept_result list"
  ev_recvs :: "recv_result list"
  ev_sends :: "fd \<Rightarrow> send_result list"

definition on_event :: "Event \<Rightarrow> fd \<Rightarrow> Server \<Rightarrow> Server option" where
  "on_event ev fd sv =
     (case map_of (sv_sessions sv) fd of
        None \<Rightarrow> Some sv
      | Some i \<Rightarrow>
          if ev_hup ev then Some (close_session i sv)
          else do {
            sv1 \<leftarrow> (if ev_out ev then write_session (ev_sends ev fd) i sv else Some sv);
            if ev_in ev then read_session (ev_recvs ev) i sv1 else Some sv1
          })"

fun flush_all :: "(fd \<Rightarrow> send_result list) \<Rightarrow> fd list \<Rightarrow> Server \<Rightarrow> Server option" where
  "flush_all sends [] sv = Some sv"
| "flush_all sends (fd # fds) sv = do {
     sv' \<leftarrow> (case map_of (sv_sessions sv) fd of None \<Rightarrow> Some sv | Some i \<Rightarrow> write_session (sends fd) i sv);
     flush_all sends fds sv'
   }"

definition retire :: "fd \<Rightarrow> Server \<Rightarrow> Server" where
  "retire fd sv = sv\<lparr>sv_reactor := reactor_remove fd (sv_reactor sv), sv_sessions := al_remove fd (sv_sessions sv)\<rparr>"

definition servicePending :: "(fd \<Rightarrow> send_result list) \<Rightarrow> Server \<Rightarrow> Server option" where
  "servicePending sends sv = do {
     sv1 \<leftarrow> flush_all sends (sv_needFlush sv) (sv\<lparr>sv_needFlush := [], sv_needClose := []\<rparr>);
     Some (fold retire (sv_needClose sv) sv1)
   }"

fun callback :: "handler \<Rightarrow> Event \<Rightarrow> Server \<Rightarrow> (unit result \<times> Server) option" where
  "callback WakeHandler ev sv = do {
     sv' \<leftarrow> servicePending (ev_sends ev) (sv\<lparr>sv_wake := False\<rparr>);
     Some (Inr (), sv')
   }"
| "callback ListenHandler ev sv = acceptReady (ev_accepts ev) sv"
| "callback (ClientHandler fd) ev sv = do {
     sv' \<leftarrow> on_event ev fd sv;
     Some (Inr (), sv')
   }"

text \<open>One event of a batch, as the reactor's loop handles it.\<close>

definition reactor_turn :: "fd \<Rightarrow> Event \<Rightarrow> Server \<Rightarrow> (unit result \<times> Server) option" where
  "reactor_turn fd ev sv = dispatch_batch sv_reactor callback [(fd, ev)] sv"

definition sessionCount :: "Server \<Rightarrow> nat" where
  "sessionCount sv = length (filter (alive sv) (sv_subscribers sv))"

section \<open>Stopping\<close>

text \<open>
  Joining the workers waits while they and the engine take turns, in the order of a schedule.
\<close>

datatype turn = WorkerTurn nat | EngineTurn

fun take_turn :: "turn \<Rightarrow> Server \<Rightarrow> turn_result" where
  "take_turn (WorkerTurn w) sv = server_worker_turn w sv"
| "take_turn EngineTurn sv = engine_turn sv"

datatype stop_result = Done Server | Stuck Server | StopUndefined

fun join_workers :: "turn list \<Rightarrow> Server \<Rightarrow> stop_result" where
  "join_workers schedule sv =
     (if joined (sv_workers sv) then Done sv
      else case schedule of
             [] \<Rightarrow> Stuck sv
           | t # rest \<Rightarrow>
               (case take_turn t sv of
                  Moved sv' \<Rightarrow> join_workers rest sv'
                | Blocked \<Rightarrow> join_workers rest sv
                | Undefined \<Rightarrow> StopUndefined))"

text \<open>\<^verbatim>\<open>Engine::stop\<close>: the queue is closed and the thread, if there is one, executes what is left.\<close>

fun drain_engine :: "nat \<Rightarrow> Server \<Rightarrow> stop_result" where
  "drain_engine 0 sv = Done sv"
| "drain_engine (Suc n) sv =
     (case engine_turn sv of
        Moved sv' \<Rightarrow> drain_engine n sv'
      | Blocked \<Rightarrow> Done sv
      | Undefined \<Rightarrow> StopUndefined)"

definition stop_engine :: "Server \<Rightarrow> stop_result" where
  "stop_engine sv =
     (if eng_stopping (sv_engine sv) then Done sv
      else
        let e = (sv_engine sv)\<lparr>eng_stopping := True, eng_queue := snd (close (eng_queue (sv_engine sv)))\<rparr>
        in case drain_engine (length (q_items (eng_queue e))) (sv\<lparr>sv_engine := e\<rparr>) of
             Done sv' \<Rightarrow> Done (sv'\<lparr>sv_engine := (sv_engine sv')\<lparr>eng_running := False\<rparr>\<rparr>)
           | r \<Rightarrow> r)"

definition server_stop :: "turn list \<Rightarrow> Server \<Rightarrow> stop_result" where
  "server_stop schedule sv =
     (if sv_stopping sv then Done sv
      else
        let sv1 = sv\<lparr>sv_stopping := True,
                     sv_reactor := (reactor_stop (sv_reactor sv))\<lparr>rx_running := False\<rparr>,
                     sv_workers := pool_stop (sv_workers sv)\<rparr>
        in case join_workers schedule sv1 of
             Done sv2 \<Rightarrow>
               (case stop_engine sv2 of
                  Done sv3 \<Rightarrow>
                    Done (sv3\<lparr>sv_sessions := [], sv_subscribers := [], sv_byAccount := [], sv_listener := None\<rparr>)
                | r \<Rightarrow> r)
           | r \<Rightarrow> r)"

end
