(* ===== verification/Server_Steps.thy ===== *)
theory Server_Steps
  imports Server
begin

text \<open>
  What the steps of the server keep. The session table, the session map and the descriptors to
  retire stay consistent, with the sessions that nobody will retire; the engine and the pool move
  only by their own operations; and while the server stops some thread can always move, so that the
  work left decreases.
\<close>

section \<open>What every step keeps\<close>

text \<open>
  The session table (with the number of its entries), the session map and the descriptors to retire,
  while the descriptors \<open>T\<close> are about to be retired: a session is filed under its own descriptor, an
  open session is filed and not due for retirement, and what is due is filed.
\<close>

definition inv_with :: "fd set \<Rightarrow> nat \<Rightarrow> (sid \<rightharpoonup> Connection) \<Rightarrow> (fd \<rightharpoonup> sid) \<Rightarrow> fd set \<Rightarrow> bool" where
  "inv_with T n conns sess nc \<longleftrightarrow> dom conns \<subseteq> {..<n} \<and>
     (\<forall>i c. conns i = Some c \<longrightarrow> \<not> ss_closed (cn_session c) \<longrightarrow>
        sess (cn_fd c) = Some i \<and> cn_fd c \<notin> T \<and> cn_fd c \<notin> nc) \<and>
     (\<forall>fd i. sess fd = Some i \<longrightarrow> (\<exists>c. conns i = Some c \<and> cn_fd c = fd)) \<and>
     nc \<subseteq> dom sess \<and> nc \<inter> T = {}"

text \<open>Closed sessions that are filed and that nobody is going to retire.\<close>

definition leaks :: "fd set \<Rightarrow> (sid \<rightharpoonup> Connection) \<Rightarrow> (fd \<rightharpoonup> sid) \<Rightarrow> fd set \<Rightarrow> (sid \<times> fd) set" where
  "leaks T conns sess nc = {(i, fd). sess fd = Some i \<and> fd \<notin> T \<and> fd \<notin> nc \<and>
     (\<exists>c. conns i = Some c \<and> ss_closed (cn_session c))}"

definition server_inv :: "fd set \<Rightarrow> Server \<Rightarrow> bool" where
  "server_inv T sv \<longleftrightarrow> inv_with T (length (sv_connections sv)) (map_of (sv_connections sv)) (map_of (sv_sessions sv)) (set (sv_needClose sv))"

definition server_leaks :: "fd set \<Rightarrow> Server \<Rightarrow> (sid \<times> fd) set" where
  "server_leaks T sv = leaks T (map_of (sv_connections sv)) (map_of (sv_sessions sv)) (set (sv_needClose sv))"

definition keeps :: "fd set \<Rightarrow> Server \<Rightarrow> Server \<Rightarrow> bool" where
  "keeps T sv sv' \<longleftrightarrow> (server_inv T sv \<longrightarrow> server_inv T sv' \<and> server_leaks T sv \<subseteq> server_leaks T sv')"

lemmas keeps_defs = keeps_def server_inv_def server_leaks_def

lemma keeps_refl [simp]: "keeps T sv sv"
  by (simp add: keeps_def)

lemma keeps_trans: "keeps T sv sv' \<Longrightarrow> keeps T sv' sv'' \<Longrightarrow> keeps T sv sv''"
  by (auto simp: keeps_def)

lemma keeps_other:
  assumes "sv_connections sv' = sv_connections sv" and "sv_sessions sv' = sv_sessions sv" and "sv_needClose sv' = sv_needClose sv"
  shows "keeps T sv sv'"
  using assms by (simp add: keeps_defs)

lemma map_of_adjust_upd: "map_of xs i = Some c \<Longrightarrow> map_of (al_adjust i f xs) = (map_of xs)(i \<mapsto> f c)"
  by (rule ext) (simp add: map_of_al_adjust)

lemma length_adjust [simp]: "length (al_adjust i f xs) = length xs"
  by (simp add: al_adjust_def)

lemma inv_set_session:
  assumes "inv_with T n conns sess nc" and "conns i = Some c"
    and "cn_fd c' = cn_fd c" "ss_closed (cn_session c) \<longrightarrow> ss_closed (cn_session c')"
  shows "inv_with T n (conns(i \<mapsto> c')) sess nc \<and> leaks T conns sess nc \<subseteq> leaks T (conns(i \<mapsto> c')) sess nc"
  using assms by (fastforce simp: inv_with_def leaks_def)

lemma inv_push_close:
  assumes inv: "inv_with T n conns sess nc" and c: "conns i = Some c"
    and c': "cn_fd c' = cn_fd c" "\<not> ss_closed (cn_session c)" "ss_closed (cn_session c')"
  shows "inv_with T n (conns(i \<mapsto> c')) sess (insert (cn_fd c) nc) \<and>
     leaks T conns sess nc \<subseteq> leaks T (conns(i \<mapsto> c')) sess (insert (cn_fd c) nc)"
proof -
  have filed: "sess (cn_fd c) = Some i" "cn_fd c \<notin> T" "cn_fd c \<notin> nc" using inv c c' by (auto simp: inv_with_def)
  have "inv_with T n (conns(i \<mapsto> c')) sess nc" using inv_set_session [OF inv c c'(1)] c' by simp
  then have "inv_with T n (conns(i \<mapsto> c')) sess (insert (cn_fd c) nc)"
    using filed c'(3) by (auto simp: inv_with_def split: if_splits)
  moreover have "leaks T conns sess nc \<subseteq> leaks T (conns(i \<mapsto> c')) sess (insert (cn_fd c) nc)"
    using filed c c' by (auto simp: leaks_def)
  ultimately show ?thesis by simp
qed

lemma keeps_set_session:
  assumes "map_of (sv_connections sv) i = Some c" and "ss_closed (cn_session c) \<longrightarrow> ss_closed s"
    and "sv_connections sv' = sv_connections (set_session i s sv)" and "sv_sessions sv' = sv_sessions sv"
    and "sv_needClose sv' = sv_needClose sv"
  shows "keeps T sv sv'"
  using assms inv_set_session [of T _ _ _ _ i c "c\<lparr>cn_session := s\<rparr>"]
  by (simp add: keeps_defs set_session_def map_of_adjust_upd)

lemma keeps_push_close:
  assumes "map_of (sv_connections sv) i = Some c" and "\<not> ss_closed (cn_session c)" and "ss_closed s"
    and "sv_connections sv' = sv_connections (set_session i s sv)" and "sv_sessions sv' = sv_sessions sv"
    and "sv_needClose sv' = sv_needClose sv @ [cn_fd c]"
  shows "keeps T sv sv'"
  using assms inv_push_close [of T _ _ _ _ i c "c\<lparr>cn_session := s\<rparr>"]
  by (simp add: keeps_defs set_session_def map_of_adjust_upd)

lemma keeps_close_session: "keeps T sv (close_session i sv)"
proof (cases "map_of (sv_connections sv) i")
  case (Some c)
  then show ?thesis
    by (auto simp: close_session_def session_close_def set_session_def
        intro!: keeps_push_close [OF Some, of "session_close (cn_session c)"])
qed (simp add: close_session_def)

lemma session_send_closed: "session_send bytes s = (b, s') \<Longrightarrow> ss_closed s \<Longrightarrow> ss_closed s'"
  by (auto simp: session_send_def split: if_splits)

lemma keeps_deliver: "keeps T sv (deliver i bytes sv)"
proof (cases "map_of (sv_connections sv) i")
  case (Some c)
  obtain b s where s: "session_send bytes (cn_session c) = (b, s)" by fastforce
  show ?thesis
  proof (cases b)
    case True
    then show ?thesis using Some s session_send_closed [OF s]
      by (auto simp: deliver_def set_session_def intro!: keeps_set_session [OF Some, of s])
  next
    case False
    let ?sv = "(set_session i s sv)\<lparr>sv_droppedSlow := sv_droppedSlow sv + 1\<rparr>"
    have "keeps T sv ?sv" using session_send_closed [OF s] by (auto simp: set_session_def intro!: keeps_set_session [OF Some, of s])
    then show ?thesis using Some s False keeps_close_session by (auto simp: deliver_def intro: keeps_trans)
  qed
qed (simp add: deliver_def)

lemma keeps_onFrame: "keeps T sv (snd (onFrame i frame sv))"
  by (auto simp: onFrame_def keeps_deliver intro: keeps_other split: sum.split prod.split bool.split)

lemma keeps_submit_or_reject: "submit_or_reject i oid c sv = Some sv' \<Longrightarrow> keeps T sv sv'"
  by (auto simp: submit_or_reject_def intro: keeps_other keeps_trans [OF keeps_other keeps_deliver]
      split: prod.splits option.splits bool.splits)

lemma keeps_dispatch: "dispatch i m sv = Some sv' \<Longrightarrow> keeps T sv sv'"
proof (cases m)
  case (NewOrderMessage x1 x2 x3 x4 x5 x6 x7)
  let ?sv = "sv\<lparr>sv_byAccount := (x2, i) # al_remove x2 (sv_byAccount sv)\<rparr>"
  assume "dispatch i m sv = Some sv'"
  then have "keeps T ?sv sv'" using NewOrderMessage
    by (auto simp: Let_def keeps_deliver intro: keeps_submit_or_reject split: sum.splits exchange_error.splits)
  moreover have "keeps T sv ?sv" by (rule keeps_other) simp_all
  ultimately show ?thesis by (rule keeps_trans [rotated])
qed (auto intro: keeps_submit_or_reject)

lemma keeps_notify: "keeps T sv (notify account bytes sv)"
  by (simp add: notify_def keeps_deliver split: option.split)

lemma keeps_publish: "keeps T sv (fold publishFill fs sv)"
proof (induction fs arbitrary: sv)
  case (Cons f fs)
  have "keeps T sv (publishFill f sv)" by (auto simp: publishFill_def intro: keeps_trans keeps_notify)
  then show ?case using Cons.IH [of "publishFill f sv"] by (auto intro: keeps_trans)
qed simp

lemma keeps_worker_turn: "server_worker_turn w sv = Moved sv' \<Longrightarrow> keeps T sv sv'"
  by (auto simp: server_worker_turn_def intro: keeps_trans [OF keeps_dispatch keeps_other] keeps_other
      split: if_splits worker.splits option.splits)

lemma keeps_engine_turn: "engine_turn sv = Moved sv' \<Longrightarrow> keeps T sv sv'"
  by (auto simp: engine_turn_def Let_def intro: keeps_trans [OF keeps_other keeps_publish] split: if_splits list.splits option.splits)

subsection \<open>The reactor thread\<close>

lemma drain_frames_preserves:
  assumes h: "\<And>f st e st'. handler f st = (e, st') \<Longrightarrow> R st st'" and refl: "\<And>st. R st st"
    and trans: "\<And>st st' st''. R st st' \<Longrightarrow> R st' st'' \<Longrightarrow> R st st''"
  shows "drain_frames handler isClosed fa st = (status, fa', st') \<Longrightarrow> R st st'"
proof (induction "buffered fa" arbitrary: fa st rule: less_induct)
  case less
  note d = less.prems [unfolded drain_frames.simps [of _ _ fa]]
  show ?case
  proof (cases "\<exists>f fa1 st1. next_frame fa = (Inr (Some f), fa1) \<and> handler f st = (None, st1) \<and> \<not> isClosed st1")
    case True
    then obtain f fa1 st1 where n: "next_frame fa = (Inr (Some f), fa1)" and f: "handler f st = (None, st1)" "\<not> isClosed st1" by blast
    have "R st1 st'" using less.hyps [OF next_frame_less [OF n], of st1] d n f by simp
    then show ?thesis using trans [OF h [OF f(1)]] by simp
  next
    case False
    then show ?thesis using d h refl by (auto split: prod.splits sum.splits option.splits if_splits)
  qed
qed

lemma readAvailable_preserves:
  assumes h: "\<And>f st e st'. handler f st = (e, st') \<Longrightarrow> R st st'" and refl: "\<And>st. R st st"
    and trans: "\<And>st st' st''. R st st' \<Longrightarrow> R st' st'' \<Longrightarrow> R st st''" and c: "\<And>st. R st (closeIt st)"
  shows "readAvailable script handler isClosed closeIt fa st = Some (fa', st') \<Longrightarrow> R st st'"
proof (induction script arbitrary: fa st)
  case (Cons r script)
  show ?case
  proof (cases r)
    case (Received bs)
    obtain status fa1 st1 where d: "drain_frames handler isClosed (fa_append bs fa) st = (status, fa1, st1)"
      by (cases "drain_frames handler isClosed (fa_append bs fa) st")
    have "R st st1" by (rule drain_frames_preserves [of handler R, OF _ _ _ d]) (blast intro: h refl trans)+
    then show ?thesis using Cons.prems Received d c [of st1] Cons.IH [of fa1 st1] trans
      by (cases status) auto
  qed (use Cons.prems Cons.IH c refl in auto)
qed simp

lemma flush_sent_closes:
  "flush_sent r s = (b, s') \<Longrightarrow> \<not> ss_closed s \<Longrightarrow>
     (ss_closed s' \<longleftrightarrow> ss_closeCalls s < ss_closeCalls s') \<and> (b \<longrightarrow> \<not> ss_closed s' \<and> ss_closeCalls s' = ss_closeCalls s)"
  by (auto simp: flush_sent_def session_close_def Let_def split: send_result.splits if_splits)

lemma onWritable_closes:
  assumes "onWritable script s = Some s'"
  shows "(ss_closed s \<longrightarrow> s' = s) \<and> (\<not> ss_closed s \<longrightarrow> (ss_closed s' \<longleftrightarrow> ss_closeCalls s < ss_closeCalls s'))"
proof (cases "ss_closed s")
  case False
  then have "session_flush script s = Some s'" using assms by (simp add: onWritable_def)
  then have "ss_closed s' \<longleftrightarrow> ss_closeCalls s < ss_closeCalls s'" using False
  proof (induction script s rule: session_flush.induct)
    case (1 script s)
    show ?case
    proof (cases "ss_outbound s = []")
      case True
      then show ?thesis using "1.prems" by simp
    next
      case False
      then obtain r rest where script: "script = r # rest" using "1.prems"(1) by (cases script) auto
      obtain b s1 where f: "flush_sent r (flush_copy s) = (b, s1)" by fastforce
      have c: "\<not> ss_closed (flush_copy s)" "ss_closeCalls (flush_copy s) = ss_closeCalls s"
        using "1.prems"(2) by (simp_all add: flush_copy_def)
      show ?thesis
        using "1.IH" [OF False script f [symmetric]] flush_sent_closes [OF f c(1)] c(2) "1.prems" False script f by (cases b) auto
    qed
  qed
  then show ?thesis using False by simp
qed (use assms in \<open>simp add: onWritable_def\<close>)

lemma keeps_write_session:
  assumes "write_session script i sv = Some sv'"
  shows "keeps T sv sv' \<and> sv_sessions sv' = sv_sessions sv"
proof (cases "map_of (sv_connections sv) i")
  case (Some c)
  then obtain s where s: "onWritable script (cn_session c) = Some s"
    and sv': "sv' = (if ss_closeCalls s > ss_closeCalls (cn_session c)
       then (set_session i s sv)\<lparr>sv_needClose := sv_needClose sv @ [cn_fd c], sv_wake := True\<rparr> else set_session i s sv)"
    using assms by (auto simp: write_session_def set_session_def Let_def split: Option.bind_splits)
  note w = onWritable_closes [OF s]
  show ?thesis
  proof (cases "ss_closeCalls s > ss_closeCalls (cn_session c)")
    case True
    then have "\<not> ss_closed (cn_session c)" "ss_closed s" using w by auto
    then show ?thesis using True sv' by (auto simp: set_session_def intro!: keeps_push_close [OF Some, of s])
  next
    case False
    then show ?thesis using w sv' by (auto simp: set_session_def intro!: keeps_set_session [OF Some, of s])
  qed
qed (use assms in \<open>simp add: write_session_def\<close>)

lemma keeps_assembler:
  "keeps T sv (sv\<lparr>sv_connections := al_adjust i (\<lambda>c. c\<lparr>cn_assembler := fa\<rparr>) (sv_connections sv)\<rparr>)"
proof (cases "map_of (sv_connections sv) i")
  case None
  then show ?thesis by (intro keeps_other) (simp_all add: map_of_eq_None_iff)
next
  case (Some c)
  then show ?thesis
    using inv_set_session [of T _ _ _ _ i c "c\<lparr>cn_assembler := fa\<rparr>"] by (simp add: keeps_defs map_of_adjust_upd)
qed

lemma keeps_read_session:
  assumes "read_session script i sv = Some sv'"
  shows "keeps T sv sv'"
proof (cases "map_of (sv_connections sv) i")
  case (Some c)
  then obtain fa sv1 where r: "onReadable script (onFrame i) (session_closed i) (close_session i) (cn_assembler c) sv = Some (fa, sv1)"
    and sv': "sv' = sv1\<lparr>sv_connections := al_adjust i (\<lambda>c. c\<lparr>cn_assembler := fa\<rparr>) (sv_connections sv1)\<rparr>"
    using assms by (auto simp: read_session_def split: Option.bind_splits)
  have h: "keeps T st st'" if "onFrame i f st = (e, st')" for f st e st'
    using keeps_onFrame [of T st i f] that by simp
  have "keeps T sv sv1"
    using r readAvailable_preserves [of "onFrame i" "keeps T", OF h keeps_refl keeps_trans keeps_close_session]
    by (auto simp: onReadable_def split: if_splits)
  then show ?thesis using keeps_assembler sv' keeps_trans by metis
qed (use assms in \<open>simp add: read_session_def\<close>)

lemma keeps_on_event: "on_event ev fd sv = Some sv' \<Longrightarrow> keeps T sv sv'"
  by (auto simp: on_event_def keeps_close_session intro: keeps_read_session keeps_trans dest: keeps_write_session [of _ _ _ _ T]
      split: option.splits if_splits Option.bind_splits)

lemma keeps_flush_all: "flush_all sends fds sv = Some sv' \<Longrightarrow> keeps T sv sv'"
proof (induction fds arbitrary: sv)
  case (Cons fd fds)
  then obtain sv1 where "(case map_of (sv_sessions sv) fd of None \<Rightarrow> Some sv | Some i \<Rightarrow> write_session (sends fd) i sv) = Some sv1"
    and 2: "flush_all sends fds sv1 = Some sv'" by (auto split: Option.bind_splits)
  then have "keeps T sv sv1" by (auto dest: keeps_write_session [of _ _ _ _ T] split: option.splits)
  then show ?case using Cons.IH [OF 2] by (rule keeps_trans)
qed simp

lemma fold_retire:
  "map_of (sv_sessions (fold retire fds sv)) = (\<lambda>fd. if fd \<in> set fds then None else map_of (sv_sessions sv) fd)"
  "sv_connections (fold retire fds sv) = sv_connections sv" "sv_needClose (fold retire fds sv) = sv_needClose sv"
  by (induction fds arbitrary: sv) (auto simp: retire_def map_of_al_remove)

lemma keeps_servicePending:
  assumes "servicePending sends sv = Some sv'"
  shows "keeps {} sv sv'"
proof -
  let ?T = "set (sv_needClose sv)" and ?sv0 = "sv\<lparr>sv_needFlush := [], sv_needClose := []\<rparr>"
  obtain sv1 where f: "flush_all sends (sv_needFlush sv) ?sv0 = Some sv1" and sv': "sv' = fold retire (sv_needClose sv) sv1"
    using assms by (auto simp: servicePending_def split: Option.bind_splits)
  have "server_inv ?T ?sv0 \<and> server_leaks {} sv \<subseteq> server_leaks ?T ?sv0" if "server_inv {} sv"
    using that by (auto simp: server_inv_def server_leaks_def inv_with_def leaks_def)
  moreover have "server_inv {} sv' \<and> server_leaks ?T sv1 \<subseteq> server_leaks {} sv'" if "server_inv ?T sv1"
    using that unfolding sv' server_inv_def server_leaks_def fold_retire
    by (auto simp: inv_with_def leaks_def split: if_splits)
  ultimately show ?thesis using keeps_flush_all [OF f, of ?T] by (fastforce simp: keeps_def)
qed

text \<open>The descriptors that \<^verbatim>\<open>accept4\<close> returns are not in use by a session that is filed.\<close>

fun accepted_fds :: "accept_result list \<Rightarrow> fd list" where
  "accepted_fds (AcceptedFd fd setupOk addOk # script) = fd # accepted_fds script"
| "accepted_fds (_ # script) = accepted_fds script"
| "accepted_fds [] = []"

definition fresh_descriptors :: "fd list \<Rightarrow> Server \<Rightarrow> bool" where
  "fresh_descriptors fds sv \<longleftrightarrow> distinct fds \<and> list_all (\<lambda>fd. fd \<notin> set (map fst (sv_sessions sv))) fds"

lemma inv_install:
  assumes "inv_with {} n conns sess nc" and "sess fd = None" and "cn_fd c = fd" and "\<not> ss_closed (cn_session c)"
  shows "inv_with {} (Suc n) (conns(n \<mapsto> c)) (sess(fd \<mapsto> n)) nc \<and> leaks {} conns sess nc \<subseteq> leaks {} (conns(n \<mapsto> c)) (sess(fd \<mapsto> n)) nc"
proof -
  have n: "conns n = None" using assms(1) by (auto simp: inv_with_def)
  have "fd \<notin> nc" using assms(1,2) by (auto simp: inv_with_def)
  moreover have "i \<noteq> n \<and> fd' \<noteq> fd" if filed: "sess fd' = Some i" for fd' i
  proof -
    obtain c' where "conns i = Some c'" using assms(1) filed unfolding inv_with_def by blast
    then show ?thesis using n assms(2) filed by auto
  qed
  ultimately have "inv_with {} (Suc n) (conns(n \<mapsto> c)) (sess(fd \<mapsto> n)) nc"
    using assms n by (auto simp: inv_with_def less_Suc_eq)
  moreover have "leaks {} conns sess nc \<subseteq> leaks {} (conns(n \<mapsto> c)) (sess(fd \<mapsto> n)) nc"
    using assms(2) n by (auto simp: leaks_def)
  ultimately show ?thesis by simp
qed

lemma keeps_install_client:
  assumes "fd \<notin> set (map fst (sv_sessions sv))"
  shows "keeps {} sv (install_client fd r sv)"
proof -
  let ?n = "length (sv_connections sv)" and ?sv = "install_client fd r sv"
  define c where "c = \<lparr>cn_fd = fd, cn_session = new_Session (cf_maxOutboundBytes (sv_config sv)),
     cn_assembler = new_FrameAssembler kMaxFrameBody\<rparr>"
  have s: "map_of (sv_sessions sv) fd = None" using assms by (simp add: map_of_eq_None_iff)
  have "length (sv_connections ?sv) = Suc ?n" "map_of (sv_sessions ?sv) = (map_of (sv_sessions sv))(fd \<mapsto> ?n)"
    "sv_needClose ?sv = sv_needClose sv"
    using assms by (simp_all add: install_client_def Let_def)
  moreover have "map_of (sv_connections ?sv) = (map_of (sv_connections sv))(?n \<mapsto> c)"
    if "server_inv {} sv"
    using that by (auto simp: install_client_def Let_def c_def server_inv_def inv_with_def map_add_def fun_eq_iff split: option.split)
  ultimately show ?thesis
    using s inv_install [of ?n "map_of (sv_connections sv)" "map_of (sv_sessions sv)" "set (sv_needClose sv)" fd c] by (simp add: keeps_defs c_def new_Session_def)
qed

lemma keeps_acceptReady:
  "acceptReady script sv = Some (r, sv') \<Longrightarrow> fresh_descriptors (accepted_fds script) sv \<Longrightarrow> keeps {} sv sv'"
proof (induction script sv rule: acceptReady.induct)
  case (5 fd setupOk addOk script sv)
  show ?case
  proof (cases "setupOk \<and> addOk")
    case True
    define r1 where "r1 = (sv_reactor sv)\<lparr>rx_handlers := (fd, ClientHandler fd) # al_remove fd (rx_handlers (sv_reactor sv))\<rparr>"
    have add: "reactor_add addOk fd (ClientHandler fd) (sv_reactor sv) = Inr r1" using True by (simp add: reactor_add_def r1_def)
    have fd: "fd \<notin> set (map fst (sv_sessions sv))" using "5.prems"(2) by (simp add: fresh_descriptors_def)
    have "fresh_descriptors (accepted_fds script) (install_client fd r1 sv)"
      using "5.prems"(2) by (auto simp: fresh_descriptors_def install_client_def Let_def list_all_iff)
    then have "keeps {} (install_client fd r1 sv) sv'" using "5.IH" [OF _ add] "5.prems"(1) True add by simp
    then show ?thesis using keeps_install_client [OF fd] keeps_trans by blast
  qed (use "5.prems" in \<open>auto simp: reactor_add_def split: if_splits\<close>)
qed auto

section \<open>Steps\<close>

inductive server_step :: "Server \<Rightarrow> Server \<Rightarrow> bool" where
  reacts: "\<lbrakk>reactor_turn fd ev sv = Some (r, sv'); fresh_descriptors (accepted_fds (ev_accepts ev)) sv\<rbrakk> \<Longrightarrow> server_step sv sv'"
| works: "server_worker_turn w sv = Moved sv' \<Longrightarrow> server_step sv sv'"
| executes: "engine_turn sv = Moved sv' \<Longrightarrow> server_step sv sv'"

lemma keeps_reactor_turn:
  assumes "reactor_turn fd ev sv = Some (r, sv')" and "fresh_descriptors (accepted_fds (ev_accepts ev)) sv"
  shows "keeps {} sv sv'"
proof (cases "map_of (rx_handlers (sv_reactor sv)) fd")
  case None
  then show ?thesis using assms(1) by (simp add: reactor_turn_def)
next
  case (Some h)
  then have c: "callback h ev sv = Some (r, sv')"
    using assms(1) by (auto simp: reactor_turn_def split: Option.bind_splits sum.splits)
  show ?thesis
  proof (cases h)
    case WakeHandler
    then obtain sv1 where s: "servicePending (ev_sends ev) (sv\<lparr>sv_wake := False\<rparr>) = Some sv1" "sv' = sv1"
      using c by (auto split: Option.bind_splits)
    have "keeps {} sv (sv\<lparr>sv_wake := False\<rparr>)" by (rule keeps_other) simp_all
    then show ?thesis using keeps_servicePending [OF s(1)] s(2) keeps_trans by blast
  next
    case ListenHandler
    then show ?thesis using c keeps_acceptReady assms(2) by simp
  next
    case (ClientHandler fd')
    then show ?thesis using c keeps_on_event by (auto split: Option.bind_splits)
  qed
qed

lemma keeps_step: "server_step sv sv' \<Longrightarrow> keeps {} sv sv'"
  by (cases rule: server_step.cases) (auto intro: keeps_reactor_turn keeps_worker_turn keeps_engine_turn)

lemma keeps_steps: "server_step\<^sup>*\<^sup>* sv sv' \<Longrightarrow> keeps {} sv sv'"
  by (induction rule: rtranclp_induct) (auto intro: keeps_trans keeps_step)

definition started :: "ServerConfig \<Rightarrow> fd \<Rightarrow> fd \<Rightarrow> Server" where
  "started config wakeup listener = snd (server_start (Inr listener) (Inr 7000) True (new_Server config wakeup))"

lemma started_inv: "server_inv {} (started config wakeup listener)"
  by (simp add: started_def server_inv_def inv_with_def server_start_def new_Server_def reactor_add_def Let_def)

lemma server_reachable_inv: "server_step\<^sup>*\<^sup>* (started config wakeup listener) sv \<Longrightarrow> server_inv {} sv"
  using keeps_steps started_inv by (auto simp: keeps_def)

section \<open>Engine and pool within the server\<close>

text \<open>What the reactor does leaves the engine alone and moves the pool only by its own operations.\<close>

definition calm :: "Server \<Rightarrow> Server \<Rightarrow> bool" where
  "calm sv sv' \<longleftrightarrow> sv_engine sv' = sv_engine sv \<and> (pool_step (\<lambda>t. False))\<^sup>*\<^sup>* (sv_workers sv) (sv_workers sv')"

lemma calm_refl [simp]: "calm sv sv"
  by (simp add: calm_def)

lemma calm_trans: "calm sv sv' \<Longrightarrow> calm sv' sv'' \<Longrightarrow> calm sv sv''"
  by (auto simp: calm_def)

lemma calm_other: "sv_engine sv' = sv_engine sv \<Longrightarrow> sv_workers sv' = sv_workers sv \<Longrightarrow> calm sv sv'"
  by (simp add: calm_def)

lemma set_session_frame [simp]:
  "sv_engine (set_session i s sv) = sv_engine sv" "sv_workers (set_session i s sv) = sv_workers sv"
  "sv_byAccount (set_session i s sv) = sv_byAccount sv" "sv_sessions (set_session i s sv) = sv_sessions sv"
  "sv_needFlush (set_session i s sv) = sv_needFlush sv"
  by (simp_all add: set_session_def)

lemma close_session_frame [simp]:
  "sv_engine (close_session i sv) = sv_engine sv" "sv_workers (close_session i sv) = sv_workers sv"
  "sv_byAccount (close_session i sv) = sv_byAccount sv" "sv_sessions (close_session i sv) = sv_sessions sv"
  by (simp_all add: close_session_def split: option.split)

lemma deliver_frame [simp]:
  "sv_engine (deliver i bytes sv) = sv_engine sv" "sv_workers (deliver i bytes sv) = sv_workers sv"
  "sv_byAccount (deliver i bytes sv) = sv_byAccount sv" "sv_sessions (deliver i bytes sv) = sv_sessions sv"
  by (simp_all add: deliver_def split: option.split prod.split bool.split)

lemma publish_frame [simp]:
  "sv_engine (fold publishFill fs sv) = sv_engine sv" "sv_workers (fold publishFill fs sv) = sv_workers sv"
proof (induction fs arbitrary: sv)
  case (Cons f fs)
  { case 1 show ?case using Cons.IH by (simp add: publishFill_def notify_def split: option.split) }
  { case 2 show ?case using Cons.IH by (simp add: publishFill_def notify_def split: option.split) }
qed simp_all

lemma calm_onFrame: "calm sv (snd (onFrame i frame sv))"
proof -
  have "pool_step (\<lambda>t. False) (sv_workers sv) tp" if "pool_trySubmit (i, m) (sv_workers sv) = (b, tp)" for m b tp
    using that by (rule trySubmits)
  then show ?thesis by (auto simp: onFrame_def calm_def split: sum.split prod.split bool.split)
qed

lemma calm_read_session:
  assumes "read_session script i sv = Some sv'"
  shows "calm sv sv'"
proof (cases "map_of (sv_connections sv) i")
  case (Some c)
  then obtain fa sv1 where r: "onReadable script (onFrame i) (session_closed i) (close_session i) (cn_assembler c) sv = Some (fa, sv1)"
    and sv': "sv' = sv1\<lparr>sv_connections := al_adjust i (\<lambda>c. c\<lparr>cn_assembler := fa\<rparr>) (sv_connections sv1)\<rparr>"
    using assms by (auto simp: read_session_def split: Option.bind_splits)
  have h: "calm st st'" if "onFrame i f st = (e, st')" for f st e st'
    using calm_onFrame [of st i f] that by simp
  have cl: "calm st (close_session i st)" for st by (simp add: calm_def)
  have "calm sv sv1"
    using r readAvailable_preserves [of "onFrame i" calm, OF h calm_refl calm_trans cl]
    by (auto simp: onReadable_def split: if_splits)
  then show ?thesis using sv' by (simp add: calm_def)
qed (use assms in \<open>simp add: read_session_def\<close>)

lemma calm_write_session: "write_session script i sv = Some sv' \<Longrightarrow> calm sv sv'"
  by (auto simp: write_session_def Let_def intro!: calm_other split: option.splits Option.bind_splits)

lemma calm_flush_all: "flush_all sends fds sv = Some sv' \<Longrightarrow> calm sv sv'"
proof (induction fds arbitrary: sv)
  case (Cons fd fds)
  then obtain sv1 where "(case map_of (sv_sessions sv) fd of None \<Rightarrow> Some sv | Some i \<Rightarrow> write_session (sends fd) i sv) = Some sv1"
    and 2: "flush_all sends fds sv1 = Some sv'" by (auto split: Option.bind_splits)
  then have "calm sv sv1" by (auto dest: calm_write_session split: option.splits)
  then show ?case using Cons.IH [OF 2] by (rule calm_trans)
qed simp

lemma calm_retire: "calm sv (fold retire fds sv)"
proof (induction fds arbitrary: sv)
  case (Cons fd fds)
  have "calm sv (retire fd sv)" by (simp add: calm_def retire_def)
  then show ?case using Cons.IH [of "retire fd sv"] calm_trans by simp
qed simp

lemma calm_acceptReady: "acceptReady script sv = Some (r, sv') \<Longrightarrow> calm sv sv'"
proof (induction script sv rule: acceptReady.induct)
  case (5 fd setupOk addOk script sv)
  have "calm sv (install_client fd r sv)" for r by (simp add: calm_def install_client_def Let_def)
  then show ?case using 5 by (auto intro: calm_trans split: if_splits sum.splits)
qed auto

lemma calm_reactor_turn:
  assumes "reactor_turn fd ev sv = Some (r, sv')"
  shows "calm sv sv'"
proof (cases "map_of (rx_handlers (sv_reactor sv)) fd")
  case (Some h)
  then have c: "callback h ev sv = Some (r, sv')"
    using assms by (auto simp: reactor_turn_def split: Option.bind_splits sum.splits)
  show ?thesis
  proof (cases h)
    case WakeHandler
    let ?sv0 = "sv\<lparr>sv_wake := False, sv_needFlush := [], sv_needClose := []\<rparr>"
    obtain sv1 where "flush_all (ev_sends ev) (sv_needFlush sv) ?sv0 = Some sv1" "sv' = fold retire (sv_needClose sv) sv1"
      using c WakeHandler by (auto simp: servicePending_def split: Option.bind_splits)
    moreover have "calm sv ?sv0" by (simp add: calm_def)
    ultimately show ?thesis using calm_flush_all calm_retire calm_trans by metis
  next
    case ListenHandler
    then show ?thesis using c calm_acceptReady by simp
  next
    case (ClientHandler fd')
    then have "on_event ev fd' sv = Some sv'" using c by (auto split: Option.bind_splits)
    then show ?thesis
      by (auto simp: on_event_def intro: calm_other calm_read_session calm_trans [OF calm_write_session] calm_write_session
          split: option.splits if_splits Option.bind_splits)
  qed
qed (use assms in \<open>simp add: reactor_turn_def\<close>)

lemma submit_or_reject_frame:
  assumes "submit_or_reject i oid c sv = Some sv'"
  shows "sv_workers sv' = sv_workers sv \<and> eng_started (sv_engine sv') = eng_started (sv_engine sv) \<and> eng_stopping (sv_engine sv') = eng_stopping (sv_engine sv) \<and>
     q_capacity (eng_queue (sv_engine sv')) = q_capacity (eng_queue (sv_engine sv)) \<and>
     length (q_items (eng_queue (sv_engine sv'))) \<le> Suc (length (q_items (eng_queue (sv_engine sv))))"
  using assms by (auto simp: submit_or_reject_def engine_submit_def push_def split: if_splits)

lemma dispatch_frame:
  "dispatch i m sv = Some sv' \<Longrightarrow> sv_workers sv' = sv_workers sv \<and> eng_started (sv_engine sv') = eng_started (sv_engine sv) \<and> eng_stopping (sv_engine sv') = eng_stopping (sv_engine sv) \<and>
     q_capacity (eng_queue (sv_engine sv')) = q_capacity (eng_queue (sv_engine sv)) \<and>
     length (q_items (eng_queue (sv_engine sv'))) \<le> Suc (length (q_items (eng_queue (sv_engine sv))))"
  by (cases m) (auto simp: Let_def dest: submit_or_reject_frame split: sum.splits exchange_error.splits)

lemma dispatch_blocked:
  "dispatch i m sv = None \<Longrightarrow> q_capacity (eng_queue (sv_engine sv)) \<le> length (q_items (eng_queue (sv_engine sv)))"
  by (cases m) (auto simp: Let_def submit_or_reject_def engine_submit_def push_def split: sum.splits exchange_error.splits if_splits)

subsection \<open>Reachable servers\<close>

definition ready :: "Server \<Rightarrow> bool" where
  "ready sv \<longleftrightarrow> eng_started (sv_engine sv) \<and> \<not> eng_stopping (sv_engine sv) \<and> 0 < q_capacity (eng_queue (sv_engine sv)) \<and>
     pool_inv (\<lambda>t. False) (sv_workers sv) \<and> 0 < length (tp_workers (sv_workers sv))"

lemma pool_steps_inv:
  "(pool_step throws)\<^sup>*\<^sup>* tp tp' \<Longrightarrow> pool_inv throws tp \<Longrightarrow> pool_inv throws tp' \<and> length (tp_workers tp') = length (tp_workers tp)"
proof (induction rule: rtranclp_induct)
  case (step y z)
  have "length (tp_workers z) = length (tp_workers y)"
    using step(2) by (cases rule: pool_step.cases)
      (auto simp: pool_submit_def push_def pool_trySubmit_def tryPush_def pool_stop_def close_def split: if_splits)
  then show ?case using step pool_step_inv by metis
qed simp

lemma worker_turn_moves:
  assumes "server_worker_turn w sv = Moved sv'"
  shows "sv_workers sv' = worker_turn (\<lambda>t. False) w (sv_workers sv) \<and> w < length (tp_workers (sv_workers sv)) \<and>
     tp_workers (sv_workers sv) ! w \<noteq> Exited \<and> eng_started (sv_engine sv') = eng_started (sv_engine sv) \<and> eng_stopping (sv_engine sv') = eng_stopping (sv_engine sv) \<and>
     q_capacity (eng_queue (sv_engine sv')) = q_capacity (eng_queue (sv_engine sv)) \<and>
     length (q_items (eng_queue (sv_engine sv'))) \<le> Suc (length (q_items (eng_queue (sv_engine sv))))"
  using assms dispatch_frame [of _ _ sv]
  by (auto simp: server_worker_turn_def split: if_splits worker.splits option.splits)

lemma handle_stopping:
  assumes "handle appendTo onFill env c eng = Some eng'"
  shows "eng_stopping eng' = eng_stopping eng"
proof -
  have r: "eng_stopping (snd (report_fills onFill fs e)) = eng_stopping e" for fs and e :: "'a Engine"
  proof (induction fs arbitrary: e)
    case (Cons f fs)
    then show ?case by (cases onFill) (auto simp: Let_def split: option.split)
  qed simp
  have m: "eng_stopping e' = eng_stopping e" if mutated: "mutate onFill c e = Some (r, e')" for e e' :: "'a Engine" and r
  proof -
    obtain out bk where a: "applyCommand price_time_plan c (eng_book e) = Some (out, bk)"
      using mutated by (auto simp: mutate_def split: Option.bind_splits)
    show ?thesis
    proof (cases out)
      case (Inr outcome)
      then show ?thesis
        using mutated a r [of "ao_fills outcome" "e\<lparr>eng_book := bk\<rparr>"]
        by (cases "report_fills onFill (ao_fills outcome) (e\<lparr>eng_book := bk\<rparr>)")
           (auto simp: mutate_def Let_def split: sum.splits if_splits)
    qed (use mutated a in \<open>auto simp: mutate_def Let_def\<close>)
  qed
  show ?thesis using assms
    by (auto simp: handle_def engine_apply_def Let_def dest!: m split: Option.bind_splits option.splits sum.splits exchange_error.splits)
qed

lemma engine_turn_moves:
  assumes "engine_turn sv = Moved sv'"
  shows "sv_workers sv' = sv_workers sv \<and> eng_started (sv_engine sv') = eng_started (sv_engine sv) \<and> eng_stopping (sv_engine sv') = eng_stopping (sv_engine sv) \<and>
     q_capacity (eng_queue (sv_engine sv')) = q_capacity (eng_queue (sv_engine sv)) \<and>
     Suc (length (q_items (eng_queue (sv_engine sv')))) = length (q_items (eng_queue (sv_engine sv)))"
  using assms by (auto simp: engine_turn_def Let_def dest: handle_queue handle_started handle_stopping split: if_splits list.splits option.splits)

lemma ready_step:
  assumes "server_step sv sv'" and "ready sv"
  shows "ready sv'"
  using assms(1)
proof cases
  case (reacts fd ev r)
  then have c: "sv_engine sv' = sv_engine sv" "(pool_step (\<lambda>t. False))\<^sup>*\<^sup>* (sv_workers sv) (sv_workers sv')"
    using calm_reactor_turn by (auto simp: calm_def)
  show ?thesis using assms(2) c(1) pool_steps_inv [OF c(2)] by (simp add: ready_def del: length_greater_0_conv)
next
  case (works w)
  note m = worker_turn_moves [OF works]
  then show ?thesis using assms(2) worker_turn_inv by (auto simp: ready_def)
next
  case executes
  then show ?thesis using assms(2) engine_turn_moves by (auto simp: ready_def)
qed

lemma started_ready: "ready (started config wakeup listener)"
  by (simp add: ready_def started_def server_start_def new_Server_def reactor_add_def Let_def new_ThreadPool_inv)
     (simp add: new_Engine_def new_ThreadSafeQueue_def new_ThreadPool_def)

lemma reachable_ready: "server_step\<^sup>*\<^sup>* (started config wakeup listener) sv \<Longrightarrow> ready sv"
  by (induction rule: rtranclp_induct) (auto intro: started_ready ready_step)

subsection \<open>Shutdown makes progress\<close>

definition server_work :: "Server \<Rightarrow> nat" where
  "server_work sv = 2 * pool_work (sv_workers sv) + length (q_items (eng_queue (sv_engine sv)))"

definition closing :: "Server \<Rightarrow> bool" where
  "closing sv \<longleftrightarrow> ready sv \<and> q_closed (tp_queue (sv_workers sv))"

lemma active_work: "w < length (tp_workers tp) \<Longrightarrow> tp_workers tp ! w \<noteq> Exited \<Longrightarrow> 0 < pool_work tp"
proof -
  assume w: "w < length (tp_workers tp)" "tp_workers tp ! w \<noteq> Exited"
  have "weight (tp_workers tp ! w) \<le> sum_list (map weight (tp_workers tp))" using w by (intro member_le_sum_list) auto
  moreover have "0 < weight (tp_workers tp ! w)" using w by (cases "tp_workers tp ! w") auto
  ultimately show ?thesis by (simp add: pool_work_def)
qed

lemma turn_progress:
  assumes "take_turn t sv = Moved sv'" and "closing sv"
  shows "closing sv' \<and> server_work sv' < server_work sv \<and>
     length (tp_workers (sv_workers sv')) = length (tp_workers (sv_workers sv)) \<and> tp_accepted (sv_workers sv') = tp_accepted (sv_workers sv)"
proof (cases t)
  case (WorkerTurn w)
  then have t: "server_worker_turn w sv = Moved sv'" using assms(1) by simp
  note m = worker_turn_moves [OF t]
  have "ready sv'" using ready_step works [OF t] assms(2) by (auto simp: closing_def)
  moreover have "server_work sv' < server_work sv"
    using m assms(2) worker_turn_work [of "sv_workers sv" "\<lambda>t. False" w] active_work [of w "sv_workers sv"]
    by (auto simp: closing_def server_work_def)
  ultimately show ?thesis using m assms(2) by (simp add: closing_def)
next
  case EngineTurn
  then have t: "engine_turn sv = Moved sv'" using assms(1) by simp
  have "ready sv'" using ready_step executes [OF t] assms(2) by (auto simp: closing_def)
  then show ?thesis using engine_turn_moves [OF t] assms(2) by (auto simp: closing_def server_work_def)
qed

text \<open>While some worker has not exited, some thread can move.\<close>

lemma someone_moves:
  assumes "closing sv" and "\<not> joined (sv_workers sv)"
  shows "take_turn EngineTurn sv \<noteq> Blocked \<or>
     (\<exists>w < length (tp_workers (sv_workers sv)). take_turn (WorkerTurn w) sv \<noteq> Blocked)"
proof (cases "q_items (eng_queue (sv_engine sv))")
  case (Cons c cs)
  then show ?thesis using assms(1) by (auto simp: engine_turn_def closing_def ready_def Let_def split: option.split)
next
  case Nil
  obtain w where w: "w < length (tp_workers (sv_workers sv))" "tp_workers (sv_workers sv) ! w \<noteq> Exited"
    using assms(2) by (auto simp: joined_work)
  have "dispatch i m sv \<noteq> None" for i m
    using dispatch_blocked [of i m sv] Nil assms(1) by (auto simp: closing_def ready_def)
  then have "server_worker_turn w sv \<noteq> Blocked"
    using w assms(1) by (cases "tp_workers (sv_workers sv) ! w") (auto simp: server_worker_turn_def closing_def split: option.splits)
  then show ?thesis using w(1) by auto
qed

declare join_workers.simps [simp del]

lemma join_round_le:
  assumes "closing sv"
  shows "(\<exists>sv'. join_workers (r @ rest) sv = Done sv' \<and> joined (sv_workers sv') \<and> closing sv' \<and> tp_accepted (sv_workers sv') = tp_accepted (sv_workers sv)) \<or>
     join_workers (r @ rest) sv = StopUndefined \<or>
     (\<exists>sv'. join_workers (r @ rest) sv = join_workers rest sv' \<and> closing sv' \<and> server_work sv' \<le> server_work sv \<and>
        length (tp_workers (sv_workers sv')) = length (tp_workers (sv_workers sv)) \<and>
        tp_accepted (sv_workers sv') = tp_accepted (sv_workers sv))"
  using assms
proof (induction r arbitrary: sv)
  case (Cons t r)
  show ?case
  proof (cases "joined (sv_workers sv)")
    case True
    then show ?thesis using Cons.prems by (auto simp: join_workers.simps [of "t # r @ rest"])
  next
    case False
    show ?thesis
    proof (cases "take_turn t sv")
      case (Moved sv1)
      note p = turn_progress [OF Moved Cons.prems]
      show ?thesis using Cons.IH [of sv1] p Moved False by (auto simp: join_workers.simps [of "t # r @ rest"] intro: less_imp_le le_trans)
    next
      case Blocked
      then show ?thesis using Cons.IH [OF Cons.prems] False by (simp add: join_workers.simps [of "t # r @ rest"])
    next
      case Undefined
      then show ?thesis using False by (simp add: join_workers.simps [of "t # r @ rest"])
    qed
  qed
qed auto

lemma join_round_less:
  assumes "closing sv" and "\<not> joined (sv_workers sv)" and "t0 \<in> set r" and "take_turn t0 sv \<noteq> Blocked"
  shows "(\<exists>sv'. join_workers (r @ rest) sv = Done sv' \<and> joined (sv_workers sv') \<and> closing sv' \<and> tp_accepted (sv_workers sv') = tp_accepted (sv_workers sv)) \<or>
     join_workers (r @ rest) sv = StopUndefined \<or>
     (\<exists>sv'. join_workers (r @ rest) sv = join_workers rest sv' \<and> closing sv' \<and> server_work sv' < server_work sv \<and>
        length (tp_workers (sv_workers sv')) = length (tp_workers (sv_workers sv)) \<and>
        tp_accepted (sv_workers sv') = tp_accepted (sv_workers sv))"
  using assms
proof (induction r)
  case (Cons t r)
  show ?case
  proof (cases "take_turn t sv")
    case (Moved sv1)
    note p = turn_progress [OF Moved Cons.prems(1)]
    show ?thesis
      using join_round_le [of sv1 r rest] p Moved Cons.prems(2)
      by (auto simp: join_workers.simps [of "t # r @ rest"] intro: le_less_trans)
  next
    case Blocked
    then have "t0 \<in> set r" using Cons.prems(3,4) by auto
    then show ?thesis using Cons Blocked by (simp add: join_workers.simps [of "t # r @ rest"])
  next
    case Undefined
    then show ?thesis using Cons.prems(2) by (simp add: join_workers.simps [of "t # r @ rest"])
  qed
qed simp

text \<open>A round gives every worker and the engine a turn, in any order.\<close>

definition fair :: "nat \<Rightarrow> turn list \<Rightarrow> bool" where
  "fair n r \<longleftrightarrow> EngineTurn \<in> set r \<and> list_all (\<lambda>w. WorkerTurn w \<in> set r) [0..<n]"

lemma join_rounds:
  assumes "closing sv" and "list_all (fair (length (tp_workers (sv_workers sv)))) rounds" and "server_work sv \<le> length rounds"
  shows "(\<exists>sv'. join_workers (concat rounds) sv = Done sv' \<and> joined (sv_workers sv') \<and> closing sv' \<and>
       tp_accepted (sv_workers sv') = tp_accepted (sv_workers sv)) \<or>
     join_workers (concat rounds) sv = StopUndefined"
  using assms
proof (induction rounds arbitrary: sv)
  case Nil
  then have "pool_work (sv_workers sv) = 0" by (simp add: server_work_def)
  then have "joined (sv_workers sv)" using active_work [of _ "sv_workers sv"] by (auto simp: joined_work)
  then show ?case using Nil.prems(1) by (simp add: join_workers.simps)
next
  case (Cons r rounds)
  show ?case
  proof (cases "joined (sv_workers sv)")
    case True
    then show ?thesis using Cons.prems(1) by (simp add: join_workers.simps)
  next
    case False
    have "fair (length (tp_workers (sv_workers sv))) r" using Cons.prems(2) by simp
    then have "EngineTurn \<in> set r" "\<And>w. w < length (tp_workers (sv_workers sv)) \<Longrightarrow> WorkerTurn w \<in> set r"
      by (simp_all add: fair_def list_all_iff)
    then obtain t0 where t0: "t0 \<in> set r" "take_turn t0 sv \<noteq> Blocked"
      using someone_moves [OF Cons.prems(1) False] by blast
    show ?thesis
      using join_round_less [OF Cons.prems(1) False t0, of "concat rounds"] Cons.IH Cons.prems(2,3) by fastforce
  qed
qed

subsection \<open>Servers without icebergs\<close>

fun plain_message :: "ClientMessage \<Rightarrow> bool" where
  "plain_message (NewOrderMessage orderId account side kind price quantity displayQuantity) \<longleftrightarrow> kind \<noteq> KindIceberg"
| "plain_message _ \<longleftrightarrow> True"

definition plain_server :: "Server \<Rightarrow> bool" where
  "plain_server sv \<longleftrightarrow> eng_log (sv_engine sv) = None \<and> book_ok (eng_book (sv_engine sv)) \<and> plain_book (eng_book (sv_engine sv)) \<and>
     list_all plain_command (q_items (eng_queue (sv_engine sv))) \<and>
     list_all (\<lambda>t. plain_message (snd t)) (q_items (tp_queue (sv_workers sv))) \<and>
     list_all (\<lambda>w. case w of Running t \<Rightarrow> plain_message (snd t) | _ \<Rightarrow> True) (tp_workers (sv_workers sv))"

lemma submit_or_reject_engine:
  "submit_or_reject i oid c sv = Some sv' \<Longrightarrow> eng_log (sv_engine sv') = eng_log (sv_engine sv) \<and>
     eng_book (sv_engine sv') = eng_book (sv_engine sv) \<and>
     q_items (eng_queue (sv_engine sv')) \<in> {q_items (eng_queue (sv_engine sv)), q_items (eng_queue (sv_engine sv)) @ [c]}"
  by (auto simp: submit_or_reject_def engine_submit_def push_def split: if_splits)

lemma dispatch_plain:
  assumes "dispatch i m sv = Some sv'" and "plain_message m" and "list_all plain_command (q_items (eng_queue (sv_engine sv)))"
  shows "eng_log (sv_engine sv') = eng_log (sv_engine sv) \<and> eng_book (sv_engine sv') = eng_book (sv_engine sv) \<and>
     list_all plain_command (q_items (eng_queue (sv_engine sv')))"
proof (cases m)
  case (NewOrderMessage oid account side kind price quantity display)
  have "\<not> is_iceberg built" if "buildOrder oid account side kind price quantity display = Inr built" for built
    using assms(2) NewOrderMessage that
    by (cases kind) (auto simp: buildOrder_def new_LimitOrder_def new_MarketOrder_def split: if_splits)
  then show ?thesis
    using assms NewOrderMessage by (auto simp: Let_def dest!: submit_or_reject_engine split: sum.splits exchange_error.splits)
qed (use assms in \<open>auto dest!: submit_or_reject_engine\<close>)

lemma list_all_update: "list_all P xs \<Longrightarrow> P x \<Longrightarrow> list_all P (xs[i := x])"
  using set_update_subset_insert [of xs i x] by (auto simp: list_all_iff)

lemma plain_worker_turn:
  assumes "server_worker_turn w sv = Moved sv'" and "plain_server sv"
  shows "plain_server sv'"
proof -
  note m = worker_turn_moves [OF assms(1)]
  have e: "eng_log (sv_engine sv') = None \<and> eng_book (sv_engine sv') = eng_book (sv_engine sv) \<and> list_all plain_command (q_items (eng_queue (sv_engine sv')))"
  proof (cases "tp_workers (sv_workers sv) ! w")
    case (Running t)
    then obtain sv1 where d: "dispatch (fst t) (snd t) sv = Some sv1" and sv1: "sv_engine sv' = sv_engine sv1"
      using assms(1) m by (auto simp: server_worker_turn_def split: option.splits)
    have "Running t \<in> set (tp_workers (sv_workers sv))" using Running m nth_mem by metis
    then have "plain_message (snd t)" using assms(2) by (fastforce simp: plain_server_def list_all_iff)
    then show ?thesis using dispatch_plain [OF d] assms(2) sv1 by (auto simp: plain_server_def)
  qed (use assms m in \<open>auto simp: server_worker_turn_def plain_server_def split: if_splits\<close>)
  show ?thesis
  proof (cases rule: worker_turn_cases [of "\<lambda>t. False" w "sv_workers sv"])
    case blocked
    then show ?thesis using e m assms(2) by (simp add: plain_server_def)
  next
    case (started task rest)
    then show ?thesis using e m assms(2) by (auto simp: plain_server_def intro!: list_all_update)
  next
    case (finished task)
    then show ?thesis using e m assms(2) by (auto simp: plain_server_def intro!: list_all_update)
  next
    case exited
    then show ?thesis using e m assms(2) by (auto simp: plain_server_def intro!: list_all_update)
  qed
qed

lemma plain_engine_turn:
  assumes "plain_server sv"
  shows "engine_turn sv \<noteq> Undefined \<and> (\<forall>sv'. engine_turn sv = Moved sv' \<longrightarrow> plain_server sv')"
proof (cases "q_items (eng_queue (sv_engine sv))")
  case (Cons c rest)
  let ?e = "(sv_engine sv)\<lparr>eng_queue := (eng_queue (sv_engine sv))\<lparr>q_items := rest\<rparr>\<rparr>"
  obtain r bk where a: "applyCommand price_time_plan c (eng_book ?e) = Some (r, bk)" and bk: "book_ok bk" "plain_book bk"
    using applyCommand_plain [of "eng_book (sv_engine sv)" c] assms Cons by (auto simp: plain_server_def)
  have l: "eng_log ?e = None" using assms by (simp add: plain_server_def)
  obtain e' where h: "handle (\<lambda>(env :: unit) c l. None) (Some (\<lambda>f. None)) () c ?e = Some e'"
    using handle_total [OF a l, where appendTo = "\<lambda>(env :: unit) c l. None" and onFill = "Some (\<lambda>f. None)" and env = "()"] by blast
  have "eng_book e' = bk \<and> eng_log e' = None"
    using h a l by (cases rule: handle_cases [OF h]) auto
  then show ?thesis
    using h handle_queue [OF h] bk assms Cons by (auto simp: engine_turn_def Let_def plain_server_def)
qed (simp add: engine_turn_def)

lemma plain_join:
  "plain_server sv \<Longrightarrow> join_workers schedule sv \<noteq> StopUndefined \<and> (\<forall>sv'. join_workers schedule sv = Done sv' \<longrightarrow> plain_server sv')"
proof (induction schedule arbitrary: sv)
  case Nil
  then show ?case by (simp add: join_workers.simps)
next
  case (Cons t schedule)
  have "take_turn t sv \<noteq> Undefined" "\<And>sv'. take_turn t sv = Moved sv' \<Longrightarrow> plain_server sv'"
    using plain_engine_turn [OF Cons.prems] plain_worker_turn [OF _ Cons.prems]
    by (cases t; auto simp: server_worker_turn_def split: worker.splits option.splits if_splits)+
  then show ?case
    using Cons.prems Cons.IH by (cases "take_turn t sv") (auto simp: join_workers.simps [of "t # schedule"] split: if_splits)
qed

lemma plain_drain:
  "plain_server sv \<Longrightarrow> eng_started (sv_engine sv) \<Longrightarrow> n = length (q_items (eng_queue (sv_engine sv))) \<Longrightarrow>
     \<exists>sv'. drain_engine n sv = Done sv' \<and> q_items (eng_queue (sv_engine sv')) = [] \<and> sv_workers sv' = sv_workers sv"
proof (induction n arbitrary: sv)
  case (Suc n)
  then obtain c rest where q: "q_items (eng_queue (sv_engine sv)) = c # rest" by (cases "q_items (eng_queue (sv_engine sv))") auto
  have "engine_turn sv \<noteq> Blocked" using Suc.prems(2) q by (auto simp: engine_turn_def Let_def split: option.split)
  then obtain sv1 where m: "engine_turn sv = Moved sv1"
    using plain_engine_turn [OF Suc.prems(1)] by (cases "engine_turn sv") auto
  have "plain_server sv1" using plain_engine_turn [OF Suc.prems(1)] m by blast
  then obtain sv' where "drain_engine n sv1 = Done sv'" "q_items (eng_queue (sv_engine sv')) = []" "sv_workers sv' = sv_workers sv1"
    using Suc.IH [of sv1] engine_turn_moves [OF m] Suc.prems by auto
  then show ?case using m engine_turn_moves [OF m] by simp
qed simp

lemma joined_all_finished:
  assumes "pool_inv throws tp" and "joined tp" and "0 < length (tp_workers tp)"
  shows "mset (tp_finished tp) = mset (tp_accepted tp)"
proof -
  have "Exited \<in> set (tp_workers tp)" using assms(2,3) by (metis joined_work nth_mem)
  then show ?thesis using assms(1) joined_running [OF assms(2)] by (simp add: pool_inv_def)
qed

lemma stop_engine_drains:
  assumes "plain_server sv" and "ready sv"
  shows "\<exists>sv'. stop_engine sv = Done sv' \<and> q_items (eng_queue (sv_engine sv')) = [] \<and> sv_workers sv' = sv_workers sv"
proof -
  let ?e = "(sv_engine sv)\<lparr>eng_stopping := True, eng_queue := snd (close (eng_queue (sv_engine sv)))\<rparr>"
  have "plain_server (sv\<lparr>sv_engine := ?e\<rparr>)" using assms(1) by (simp add: plain_server_def close_def)
  then obtain sv' where "drain_engine (length (q_items (eng_queue ?e))) (sv\<lparr>sv_engine := ?e\<rparr>) = Done sv'"
      "q_items (eng_queue (sv_engine sv')) = []" "sv_workers sv' = sv_workers sv"
    using plain_drain [of "sv\<lparr>sv_engine := ?e\<rparr>"] assms(2) by (auto simp: ready_def)
  then show ?thesis using assms(2) by (simp add: stop_engine_def Let_def ready_def)
qed

end
