(* ===== verification/Server_Properties.thy ===== *)
theory Server_Properties
  imports Server_Steps
begin

text \<open>
  The properties of the server as a whole: shutdown, the way of a message from the socket to the
  book, the publication of fills, and two defects of the handling of closed connections.
\<close>

lemma alive_filed: "map_of (sv_sessions sv) fd = Some i \<Longrightarrow> alive sv i"
  using map_of_SomeD [of "sv_sessions sv" fd i] by (force simp: alive_def)

lemma deliver_overflow:
  assumes "map_of (sv_connections sv) i = Some c" and "\<not> ss_closed (cn_session c)"
    and "fst (session_send bytes (cn_session c)) = False"
  shows "sv_sessions (deliver i bytes sv) = sv_sessions sv \<and> sv_needClose (deliver i bytes sv) = sv_needClose sv \<and>
     (\<exists>c'. map_of (sv_connections (deliver i bytes sv)) i = Some c' \<and> ss_closed (cn_session c'))"
proof -
  obtain s where s: "session_send bytes (cn_session c) = (False, s)" using assms(3) by (cases "session_send bytes (cn_session c)") simp
  then have "ss_closed s" using assms(2) by (auto simp: session_send_def send_section_def split: if_splits)
  then show ?thesis
    using assms(1) s by (simp add: deliver_def close_session_def set_session_def map_of_al_adjust)
qed

text \<open>
  C36. A client dropped for being too slow is never released: when a delivery overflows the outbound
  buffer of an open session, then after any further steps of the server the session is still filed
  under its descriptor and alive, closed and of no use to anyone. The close handler that would have
  handed the descriptor to the reactor does not run.
\<close>

theorem overflowed_session_never_retired:
  assumes "server_step\<^sup>*\<^sup>* (started config wakeup listener) sv"
    and "map_of (sv_connections sv) i = Some c" and "\<not> ss_closed (cn_session c)"
    and "fst (session_send bytes (cn_session c)) = False"
    and "server_step\<^sup>*\<^sup>* (deliver i bytes sv) sv'"
  shows "map_of (sv_sessions sv') (cn_fd c) = Some i \<and> alive sv' i \<and> session_closed i sv'"
proof -
  have inv: "server_inv {} sv" by (rule server_reachable_inv [OF assms(1)])
  note d = deliver_overflow [OF assms(2-4)]
  have "map_of (sv_sessions sv) (cn_fd c) = Some i" "cn_fd c \<notin> set (sv_needClose sv)"
    using inv assms(2,3) by (auto simp: server_inv_def inv_with_def)
  then have "(i, cn_fd c) \<in> server_leaks {} (deliver i bytes sv)" using d by (auto simp: server_leaks_def leaks_def)
  moreover have "server_inv {} (deliver i bytes sv)" using keeps_deliver inv by (auto simp: keeps_def)
  ultimately have "(i, cn_fd c) \<in> server_leaks {} sv'" using keeps_steps [OF assms(5)] by (auto simp: keeps_def)
  then show ?thesis using alive_filed by (auto simp: server_leaks_def leaks_def session_closed_def)
qed

definition demo_config :: ServerConfig where
  "demo_config = \<lparr>cf_workerThreads = 1, cf_commandQueueCapacity = 1, cf_workerQueueCapacity = 1, cf_maxOutboundBytes = 40\<rparr>"

definition quiet_event :: Event where
  "quiet_event = \<lparr>ev_hup = False, ev_out = False, ev_in = False, ev_accepts = [], ev_recvs = [], ev_sends = (\<lambda>fd. [])\<rparr>"

definition connects :: "fd \<Rightarrow> Event" where
  "connects fd = quiet_event\<lparr>ev_accepts := [AcceptedFd fd True True, AcceptWouldBlock]\<rparr>"

definition demo_server :: Server where
  "demo_server = snd (the (reactor_turn 4 (connects 7) (started demo_config 3 4)))"

lemmas demo_defs = demo_server_def connects_def quiet_event_def demo_config_def started_def server_start_def new_Server_def
  reactor_add_def reactor_turn_def install_client_def

lemma demo_server_eq:
  "reactor_turn 4 (connects 7) (started demo_config 3 4) = Some (Inr (), demo_server)"
  "sv_connections demo_server = [(0, \<lparr>cn_fd = 7, cn_session = new_Session 40, cn_assembler = new_FrameAssembler kMaxFrameBody\<rparr>)]"
  "sv_sessions demo_server = [(7, 0)]"
  by (simp_all add: demo_defs Let_def)

lemma demo_reachable: "server_step\<^sup>*\<^sup>* (started demo_config 3 4) demo_server"
proof (rule r_into_rtranclp)
  show "server_step (started demo_config 3 4) demo_server"
    by (rule reacts [OF demo_server_eq(1)]) (simp add: connects_def fresh_descriptors_def started_def server_start_def new_Server_def reactor_add_def Let_def)
qed

theorem overflowed_session_never_retired_witness:
  "fst (session_send (replicate 41 0) (new_Session 40)) = False \<and>
   map_of (sv_sessions (deliver 0 (replicate 41 0) demo_server)) 7 = Some 0"
proof -
  let ?c = "\<lparr>cn_fd = 7, cn_session = new_Session 40, cn_assembler = new_FrameAssembler kMaxFrameBody\<rparr>"
  have c: "map_of (sv_connections demo_server) 0 = Some ?c" by (simp add: demo_server_eq)
  have o: "\<not> ss_closed (cn_session ?c)" by (simp add: new_Session_def)
  have f: "fst (session_send (replicate 41 0) (new_Session 40)) = False"
    by (simp add: session_send_def send_section_def new_Session_def)
  then have f': "fst (session_send (replicate 41 0) (cn_session ?c)) = False" by simp
  show ?thesis
    using overflowed_session_never_retired [OF demo_reachable c o f' rtranclp.rtrancl_refl] f by simp
qed




lemma demo_server_parts:
  "sv_workers demo_server = new_ThreadPool 1 1"
  "sv_engine demo_server = (new_Engine 1 None)\<lparr>eng_started := True, eng_running := True\<rparr>"
  "\<not> sv_stopping demo_server" "sv_byAccount demo_server = []" "sv_needFlush demo_server = []"
  by (simp_all add: demo_defs Let_def)



lemma deliver_room:
  assumes "map_of (sv_connections sv) i = Some c" and "\<not> ss_closed (cn_session c)"
    and "length (ss_outbound (cn_session c)) + length bytes \<le> ss_maxOutbound (cn_session c)"
  shows "map_of (sv_connections (deliver i bytes sv)) = (map_of (sv_connections sv))(i \<mapsto>
       c\<lparr>cn_session := (cn_session c)\<lparr>ss_outbound := ss_outbound (cn_session c) @ bytes,
                                     ss_accepted := ss_accepted (cn_session c) @ bytes\<rparr>\<rparr>) \<and>
     sv_needFlush (deliver i bytes sv) = sv_needFlush sv @ [cn_fd c] \<and> sv_needClose (deliver i bytes sv) = sv_needClose sv"
  using assms by (auto simp: deliver_def session_send_def send_section_def set_session_def map_of_al_adjust)

lemma alive_deliver [simp]: "alive (deliver i bytes sv) j = alive sv j"
  by (simp add: alive_def)

text \<open>The session after a message was put into its buffer.\<close>

definition queued :: "Connection \<Rightarrow> ServerMessage \<Rightarrow> Connection" where
  "queued c m = c\<lparr>cn_session := (cn_session c)\<lparr>ss_outbound := ss_outbound (cn_session c) @ encode_server m,
     ss_accepted := ss_accepted (cn_session c) @ encode_server m\<rparr>\<rparr>"

definition has_room :: "Connection \<Rightarrow> ServerMessage \<Rightarrow> bool" where
  "has_room c m \<longleftrightarrow> \<not> ss_closed (cn_session c) \<and>
     length (ss_outbound (cn_session c)) + length (encode_server m) \<le> ss_maxOutbound (cn_session c)"

text \<open>
  C17. A fill reaches both parties and nobody else: with an open session with room for each account,
  publishing a fill appends to the aggressor's buffer its view of the trade and to the resting
  party's buffer the mirrored view (ids swapped, opposite side, same price and quantity), schedules
  both descriptors for flushing, and leaves every other session untouched.
\<close>

theorem fill_reaches_both_parties:
  assumes "map_of (sv_byAccount sv) (fl_aggressorAccount f) = Some i" and "map_of (sv_byAccount sv) (fl_restingAccount f) = Some j"
    and "i \<noteq> j" and "alive sv i" and "alive sv j"
    and "map_of (sv_connections sv) i = Some ci" and "map_of (sv_connections sv) j = Some cj"
    and "has_room ci (toAggressor f)" and "has_room cj (toResting f)"
  shows "map_of (sv_connections (publishFill f sv)) =
       (map_of (sv_connections sv))(i \<mapsto> queued ci (toAggressor f), j \<mapsto> queued cj (toResting f)) \<and>
     sv_needFlush (publishFill f sv) = sv_needFlush sv @ [cn_fd ci, cn_fd cj] \<and>
     sv_needClose (publishFill f sv) = sv_needClose sv \<and> sv_sessions (publishFill f sv) = sv_sessions sv \<and>
     sv_engine (publishFill f sv) = sv_engine sv"
proof -
  let ?sv1 = "deliver i (encode_server (toAggressor f)) sv"
  have p: "publishFill f sv = deliver j (encode_server (toResting f)) ?sv1"
    using assms(1,2,4,5) by (simp add: publishFill_def notify_def)
  have 1: "\<not> ss_closed (cn_session ci)" "length (ss_outbound (cn_session ci)) + length (encode_server (toAggressor f)) \<le> ss_maxOutbound (cn_session ci)"
    "\<not> ss_closed (cn_session cj)" "length (ss_outbound (cn_session cj)) + length (encode_server (toResting f)) \<le> ss_maxOutbound (cn_session cj)"
    using assms(8,9) by (simp_all add: has_room_def)
  note d1 = deliver_room [OF assms(6) 1(1,2)]
  have "map_of (sv_connections ?sv1) j = Some cj" using d1 assms(3,7) by simp
  note d2 = deliver_room [OF this 1(3,4)]
  show ?thesis unfolding p using d1 d2 by (simp add: queued_def)
qed

definition demo_fill :: Fill where
  "demo_fill = \<lparr>fl_aggressorId = 1, fl_restingId = 2, fl_price = 100, fl_quantity = 5, fl_aggressorAccount = 10,
     fl_restingAccount = 20, fl_aggressorSide = Buy\<rparr>"

definition two_clients :: Server where
  "two_clients = (snd (the (reactor_turn 4 (connects 8) demo_server)))\<lparr>sv_byAccount := [(10, 0), (20, 1)]\<rparr>"

theorem fill_reaches_both_parties_witness:
  "\<exists>c. map_of (sv_connections (publishFill demo_fill two_clients)) 1 = Some c \<and>
     ss_outbound (cn_session c) = encode_server (FillMessage 2 1 100 5 Sell) \<and>
     sv_needFlush (publishFill demo_fill two_clients) = [7, 8]"
proof -
  let ?c = "\<lambda>fd. \<lparr>cn_fd = fd, cn_session = new_Session 40, cn_assembler = new_FrameAssembler kMaxFrameBody\<rparr>"
  have t: "sv_connections two_clients = [(0, ?c 7), (1, ?c 8)]" "sv_sessions two_clients = [(8, 1), (7, 0)]"
    "sv_byAccount two_clients = [(10, 0), (20, 1)]" "sv_needFlush two_clients = []"
    by (simp_all add: two_clients_def demo_defs Let_def)
  have room: "has_room (?c fd) m" for fd m
    using body_lengths(2) [of m] by (simp add: has_room_def encode_server_frame frame_bytes_def new_Session_def)
  have r: "map_of (sv_connections (publishFill demo_fill two_clients)) 1 = Some (queued (?c 8) (toResting demo_fill))"
    "sv_needFlush (publishFill demo_fill two_clients) = [7, 8]"
    using fill_reaches_both_parties [of two_clients demo_fill 0 1 "?c 7" "?c 8"] t room
    by (simp_all add: demo_fill_def alive_def)
  then show ?thesis by (simp add: queued_def toResting_def demo_fill_def new_Session_def)
qed

text \<open>The command that a message asks for, or the reason why it is refused.\<close>

fun client_command :: "ClientMessage \<Rightarrow> Command result" where
  "client_command (NewOrderMessage orderId account side kind price quantity displayQuantity) =
     (case buildOrder orderId account side kind price quantity displayQuantity of
        Inl e \<Rightarrow> Inl e
      | Inr ord \<Rightarrow> Inr (SubmitCommand (Some ord)))"
| "client_command (CancelMessage orderId) = Inr (CancelCommand orderId)"
| "client_command (ModifyMessage orderId quantity price) = Inr (ModifyCommand orderId quantity price)"

text \<open>Nothing is in flight: the queues are open and empty, worker 0 waits, the engine runs.\<close>

definition idle_server :: "Server \<Rightarrow> bool" where
  "idle_server sv \<longleftrightarrow> q_items (tp_queue (sv_workers sv)) = [] \<and> \<not> q_closed (tp_queue (sv_workers sv)) \<and>
     0 < q_capacity (tp_queue (sv_workers sv)) \<and> 0 < length (tp_workers (sv_workers sv)) \<and>
     tp_workers (sv_workers sv) ! 0 = Waiting \<and> q_items (eng_queue (sv_engine sv)) = [] \<and>
     \<not> q_closed (eng_queue (sv_engine sv)) \<and> 0 < q_capacity (eng_queue (sv_engine sv)) \<and>
     eng_started (sv_engine sv) \<and> eng_log (sv_engine sv) = None"

lemma read_one_message:
  assumes "idle_server sv" and c: "map_of (sv_connections sv) i = Some c" and o: "\<not> ss_closed (cn_session c)"
    and fa: "cn_assembler c = new_FrameAssembler kMaxFrameBody"
    and q: "list_all quiet script" and r: "received script = encode_client m"
  shows "\<exists>sv1. read_session (script @ [WouldBlock]) i sv = Some sv1 \<and> sv_engine sv1 = sv_engine sv \<and>
     sv_workers sv1 = (sv_workers sv)\<lparr>tp_queue := (tp_queue (sv_workers sv))\<lparr>q_items := [(i, m)]\<rparr>,
       tp_accepted := tp_accepted (sv_workers sv) @ [(i, m)]\<rparr>"
proof -
  let ?fa = "new_FrameAssembler kMaxFrameBody"
  define tp where "tp = (sv_workers sv)\<lparr>tp_queue := (tp_queue (sv_workers sv))\<lparr>q_items := [(i, m)]\<rparr>,
       tp_accepted := tp_accepted (sv_workers sv) @ [(i, m)]\<rparr>"
  have f: "fa_ok ?fa" "pending_bytes ?fa = []" "fa_maxBody ?fa = kMaxFrameBody"
    by (simp_all add: new_FrameAssembler_def fa_ok_def pending_bytes_def)
  have empty: "parse_stream (fa_maxBody ?fa) (pending_bytes ?fa) = ([], None, pending_bytes ?fa)"
    using parse_client_messages [of "[]"] f by simp
  have parse: "parse_stream (fa_maxBody ?fa) (pending_bytes ?fa @ received script) = ([client_frame m], None, [])"
    using parse_client_messages [of "[m]"] f r by simp
  have closed: "\<not> session_closed i sv" using c o by (simp add: session_closed_def)
  have "pool_trySubmit (i, m) (sv_workers sv) = (True, tp)"
    using assms(1) by (simp add: pool_trySubmit_def tryPush_def idle_server_def tp_def)
  then have "onFrame i (client_frame m) sv = (None, sv\<lparr>sv_workers := tp\<rparr>)"
    by (simp add: onFrame_def client_frame_def decode_client_body)
  then have "feed (onFrame i) (session_closed i) [client_frame m] None sv = (Drained, sv\<lparr>sv_workers := tp\<rparr>)"
    using closed by (simp add: session_closed_def)
  then obtain fa' where "readAvailable (script @ [WouldBlock]) (onFrame i) (session_closed i) (close_session i) ?fa sv =
      Some (fa', sv\<lparr>sv_workers := tp\<rparr>)"
    using readAvailable_feed [OF q f(1) empty parse, of "onFrame i" "session_closed i" "close_session i" sv] by (auto simp: outcome_def)
  then show ?thesis using c fa closed by (simp add: read_session_def onReadable_def tp_def)
qed

lemma dispatch_submits:
  assumes "client_command m = Inr cmd" and "\<not> q_closed (eng_queue (sv_engine sv))"
    and "length (q_items (eng_queue (sv_engine sv))) < q_capacity (eng_queue (sv_engine sv))"
  shows "\<exists>sv'. dispatch i m sv = Some sv' \<and> sv_workers sv' = sv_workers sv \<and>
     sv_engine sv' = (sv_engine sv)\<lparr>eng_queue := (eng_queue (sv_engine sv))\<lparr>q_items := q_items (eng_queue (sv_engine sv)) @ [cmd]\<rparr>\<rparr>"
proof (cases m)
  case (NewOrderMessage oid account side kind price quantity display)
  then show ?thesis
    using assms by (auto simp: Let_def submit_or_reject_def engine_submit_def push_def split: sum.splits)
qed (use assms in \<open>auto simp: submit_or_reject_def engine_submit_def push_def\<close>)

text \<open>
  C6. From the wire to the book: when the bytes of one encoded client message arrive on an open
  connection of an idle server, in whatever chunks, then reading them, two turns of a worker and one
  of the engine execute exactly the command the message asks for, with the fields that were sent.
\<close>

theorem wire_to_book:
  assumes "idle_server sv" and "map_of (sv_sessions sv) fd = Some i" and "map_of (sv_connections sv) i = Some c"
    and "\<not> ss_closed (cn_session c)" and "cn_assembler c = new_FrameAssembler kMaxFrameBody"
    and "\<not> ev_hup ev" and "\<not> ev_out ev" and "ev_in ev" and "ev_recvs ev = script @ [WouldBlock]"
    and "list_all quiet script" and "received script = encode_client m"
    and "client_command m = Inr cmd" and "applyCommand price_time_plan cmd (eng_book (sv_engine sv)) = Some (out, bk)"
  shows "\<exists>sv1 sv2 sv3 sv4. on_event ev fd sv = Some sv1 \<and> server_worker_turn 0 sv1 = Moved sv2 \<and>
     server_worker_turn 0 sv2 = Moved sv3 \<and> engine_turn sv3 = Moved sv4 \<and> eng_book (sv_engine sv4) = bk"
proof -
  obtain sv1 where r: "read_session (script @ [WouldBlock]) i sv = Some sv1" and e1: "sv_engine sv1 = sv_engine sv"
    and w1: "sv_workers sv1 = (sv_workers sv)\<lparr>tp_queue := (tp_queue (sv_workers sv))\<lparr>q_items := [(i, m)]\<rparr>,
       tp_accepted := tp_accepted (sv_workers sv) @ [(i, m)]\<rparr>"
    using read_one_message [OF assms(1,3-5,10,11)] by blast
  have ev: "on_event ev fd sv = Some sv1" using assms(2,6-9) r by (simp add: on_event_def)
  define sv2 where "sv2 = sv1\<lparr>sv_workers := worker_turn (\<lambda>t. False) 0 (sv_workers sv1)\<rparr>"
  have t1: "server_worker_turn 0 sv1 = Moved sv2" using assms(1) w1 by (simp add: server_worker_turn_def sv2_def idle_server_def)
  have w2: "0 < length (tp_workers (sv_workers sv2))" "tp_workers (sv_workers sv2) ! 0 = Running (i, m)"
    using assms(1) w1 by (simp_all add: sv2_def worker_turn_def pop_def idle_server_def)
  obtain sv3' where d: "dispatch i m sv2 = Some sv3'" and e3: "sv_engine sv3' = (sv_engine sv)\<lparr>eng_queue := (eng_queue (sv_engine sv))\<lparr>q_items := [cmd]\<rparr>\<rparr>"
    using dispatch_submits [OF assms(12), of sv2 i] assms(1) e1 by (auto simp: sv2_def idle_server_def)
  define sv3 where "sv3 = sv3'\<lparr>sv_workers := worker_turn (\<lambda>t. False) 0 (sv_workers sv3')\<rparr>"
  have t2: "server_worker_turn 0 sv2 = Moved sv3" using w2 d by (simp add: server_worker_turn_def sv3_def)
  let ?e = "(sv_engine sv)\<lparr>eng_queue := (eng_queue (sv_engine sv))\<lparr>q_items := []\<rparr>\<rparr>"
  have a: "applyCommand price_time_plan cmd (eng_book ?e) = Some (out, bk)" and l: "eng_log ?e = None"
    using assms(1,13) by (simp_all add: idle_server_def)
  obtain e' where h: "handle (\<lambda>(env :: unit) c l. None) (Some (\<lambda>f. None)) () cmd ?e = Some e'"
    using handle_total [OF a l, where appendTo = "\<lambda>(env :: unit) c l. None" and onFill = "Some (\<lambda>f. None)" and env = "()"] by blast
  have "eng_book e' = bk" using a l by (cases rule: handle_cases [OF h]) auto
  then have "\<exists>sv4. engine_turn sv3 = Moved sv4 \<and> eng_book (sv_engine sv4) = bk"
    using h assms(1) e3 by (simp add: engine_turn_def Let_def sv3_def idle_server_def)
  then show ?thesis using ev t1 t2 by blast
qed

theorem wire_to_book_witness:
  "\<exists>sv1 sv2 sv3 sv4. on_event (quiet_event\<lparr>ev_in := True, ev_recvs := [Received (take 9 (encode_client (CancelMessage 5))),
       RecvInterrupted, Received (drop 9 (encode_client (CancelMessage 5)))] @ [WouldBlock]\<rparr>) 7 demo_server = Some sv1 \<and>
     server_worker_turn 0 sv1 = Moved sv2 \<and> server_worker_turn 0 sv2 = Moved sv3 \<and> engine_turn sv3 = Moved sv4 \<and>
     eng_book (sv_engine sv4) = new_Book"
proof -
  let ?s = "[Received (take 9 (encode_client (CancelMessage 5))), RecvInterrupted, Received (drop 9 (encode_client (CancelMessage 5)))]"
  have idle: "idle_server demo_server"
    unfolding idle_server_def demo_server_parts by (simp add: new_Engine_def new_ThreadPool_def new_ThreadSafeQueue_def)
  have c: "map_of (sv_sessions demo_server) 7 = Some 0" "map_of (sv_connections demo_server) 0 =
      Some \<lparr>cn_fd = 7, cn_session = new_Session 40, cn_assembler = new_FrameAssembler kMaxFrameBody\<rparr>"
    by (simp_all add: demo_server_eq)
  have q: "list_all quiet ?s" and r: "received ?s = encode_client (CancelMessage 5)" by simp_all
  obtain out where a: "applyCommand price_time_plan (CancelCommand 5) (eng_book (sv_engine demo_server)) = Some (out, new_Book)"
  proof -
    have "eng_book (sv_engine demo_server) = new_Book" by (simp add: demo_server_parts new_Engine_def)
    moreover have "map_option snd (applyCommand price_time_plan (CancelCommand 5) new_Book) = Some new_Book" by code_simp
    ultimately show ?thesis using that by auto
  qed
  show ?thesis
    using wire_to_book [OF idle c _ _ _ _ _ _ q r _ a, of "quiet_event\<lparr>ev_in := True, ev_recvs := ?s @ [WouldBlock]\<rparr>"]
    by (simp add: quiet_event_def new_Session_def)
qed

end
