(* ===== verification/Forward_Range.thy ===== *)
theory Forward_Range
  imports Main "HOL-Library.Monad_Syntax"
begin

text \<open>
  The standard algorithms that \<^verbatim>\<open>analytics/side_stats.hpp\<close> applies to a range of forward iterators,
  as loops over the three operations of an iterator: comparing it with the end, dereferencing it and
  incrementing it. Dereferencing or incrementing may be undefined, and a loop may not end: both give
  \<^term>\<open>None\<close>. The contract of a forward range is a locale in which the loops are shown to end and to
  compute the list functions they stand for.
\<close>

section \<open>Loops over iterators\<close>

partial_function (option) range_fold ::
  "('it \<Rightarrow> bool) \<Rightarrow> ('it \<Rightarrow> 'e option) \<Rightarrow> ('it \<Rightarrow> 'it option) \<Rightarrow> ('e \<Rightarrow> 'a \<Rightarrow> 'a) \<Rightarrow> 'it \<Rightarrow> 'a \<Rightarrow> 'a option" where
  [code]: "range_fold atEnd deref incr f it acc =
     (if atEnd it then Some acc
      else do {
        x \<leftarrow> deref it;
        it' \<leftarrow> incr it;
        range_fold atEnd deref incr f it' (f x acc)
      })"

definition count_if ::
  "('it \<Rightarrow> bool) \<Rightarrow> ('it \<Rightarrow> 'e option) \<Rightarrow> ('it \<Rightarrow> 'it option) \<Rightarrow> ('e \<Rightarrow> bool) \<Rightarrow> 'it \<Rightarrow> nat option" where
  "count_if atEnd deref incr p it = range_fold atEnd deref incr (\<lambda>x n. if p x then n + 1 else n) it 0"

definition partition_copy ::
  "('it \<Rightarrow> bool) \<Rightarrow> ('it \<Rightarrow> 'e option) \<Rightarrow> ('it \<Rightarrow> 'it option) \<Rightarrow> ('e \<Rightarrow> bool) \<Rightarrow> 'it \<Rightarrow> ('e list \<times> 'e list) option" where
  "partition_copy atEnd deref incr p it =
     range_fold atEnd deref incr (\<lambda>x (ms, rs). if p x then (ms @ [x], rs) else (ms, rs @ [x])) it ([], [])"

text \<open>\<^verbatim>\<open>max_element\<close> returns an iterator; the first of several largest elements wins.\<close>

partial_function (option) max_loop ::
  "('it \<Rightarrow> bool) \<Rightarrow> ('it \<Rightarrow> 'e option) \<Rightarrow> ('it \<Rightarrow> 'it option) \<Rightarrow> ('e \<Rightarrow> 'k :: linorder) \<Rightarrow> 'it \<Rightarrow> 'it \<Rightarrow> 'it option" where
  [code]: "max_loop atEnd deref incr key largest it =
     do {
       it' \<leftarrow> incr it;
       if atEnd it' then Some largest
       else do {
         x \<leftarrow> deref largest;
         y \<leftarrow> deref it';
         max_loop atEnd deref incr key (if key x < key y then it' else largest) it'
       }
     }"

definition max_element ::
  "('it \<Rightarrow> bool) \<Rightarrow> ('it \<Rightarrow> 'e option) \<Rightarrow> ('it \<Rightarrow> 'it option) \<Rightarrow> ('e \<Rightarrow> 'k :: linorder) \<Rightarrow> 'it \<Rightarrow> 'it option" where
  "max_element atEnd deref incr key it =
     (if atEnd it then Some it else max_loop atEnd deref incr key it it)"

section \<open>The list functions they stand for\<close>

fun first_max :: "('e \<Rightarrow> 'k :: linorder) \<Rightarrow> 'e \<Rightarrow> 'e list \<Rightarrow> 'e" where
  "first_max key x [] = x"
| "first_max key x (y # ys) = first_max key (if key x < key y then y else x) ys"

lemma first_max_largest: "y \<in> insert x (set ys) \<Longrightarrow> key y \<le> key (first_max key x ys)"
proof (induction key x ys arbitrary: y rule: first_max.induct)
  case (2 key x z zs)
  let ?b = "if key x < key z then z else x"
  have "key y \<le> key ?b \<or> y \<in> set zs" using "2.prems" by auto
  moreover have "key ?b \<le> key (first_max key x (z # zs))" using "2.IH" [of ?b] by simp
  ultimately show ?case using "2.IH" [of y] by (auto intro: order_trans)
qed simp

lemma first_max_in: "first_max key x ys \<in> insert x (set ys)"
  by (induction key x ys rule: first_max.induct) (auto split: if_splits)

lemma fold_count: "fold (\<lambda>x n. if p x then n + 1 else n) xs n = n + length (filter p xs)"
  by (induction xs arbitrary: n) auto

lemma fold_partition:
  "fold (\<lambda>x (ms, rs). if p x then (ms @ [x], rs) else (ms, rs @ [x])) xs (ms, rs) =
     (ms @ filter p xs, rs @ filter (\<lambda>x. \<not> p x) xs)"
  by (induction xs arbitrary: ms rs) auto

section \<open>The contract of a forward range\<close>

text \<open>
  \<open>remaining\<close> is what is left from a position on. Laws are about valid positions, those that one
  reaches from the beginning.
\<close>

locale forward_range =
  fixes valid :: "'it \<Rightarrow> bool" and rest_of :: "'it \<Rightarrow> 'e list"
    and atEnd :: "'it \<Rightarrow> bool" and deref :: "'it \<Rightarrow> 'e option" and incr :: "'it \<Rightarrow> 'it option"
  assumes at_end: "valid it \<Longrightarrow> atEnd it \<longleftrightarrow> rest_of it = []"
    and deref_first: "valid it \<Longrightarrow> rest_of it = x # xs \<Longrightarrow> deref it = Some x"
    and incr_rest: "valid it \<Longrightarrow> rest_of it = x # xs \<Longrightarrow> \<exists>it'. incr it = Some it' \<and> valid it' \<and> rest_of it' = xs"
begin

lemma fold_rest: "valid it \<Longrightarrow> range_fold atEnd deref incr f it acc = Some (fold f (rest_of it) acc)"
proof (induction "rest_of it" arbitrary: it acc)
  case Nil
  then show ?case using at_end by (simp add: range_fold.simps)
next
  case (Cons x xs)
  obtain it' where i: "incr it = Some it'" "valid it'" "rest_of it' = xs" using incr_rest Cons.prems Cons.hyps(2) by metis
  have "\<not> atEnd it" using at_end [OF Cons.prems] Cons.hyps(2) by (metis list.distinct(1))
  moreover have "deref it = Some x" by (rule deref_first [OF Cons.prems Cons.hyps(2) [symmetric]])
  ultimately show ?case
    using Cons.hyps(1) [of it' "f x acc"] i Cons.hyps(2) [symmetric] by (simp add: range_fold.simps [of _ _ _ _ it])
qed

lemma count_rest: "valid it \<Longrightarrow> count_if atEnd deref incr p it = Some (length (filter p (rest_of it)))"
  by (simp add: count_if_def fold_rest fold_count [where n = 0, simplified])

lemma partition_rest:
  "valid it \<Longrightarrow> partition_copy atEnd deref incr p it = Some (filter p (rest_of it), filter (\<lambda>x. \<not> p x) (rest_of it))"
  by (simp add: partition_copy_def fold_rest fold_partition [where ms = "[]" and rs = "[]", simplified])

lemma max_loop_rest:
  assumes "valid it" and "rest_of it = y # ys" and "deref largest = Some x"
  shows "\<exists>m. max_loop atEnd deref incr key largest it = Some m \<and> deref m = Some (first_max key x ys) \<and>
     (m = largest \<or> valid m \<and> rest_of m \<noteq> [])"
  using assms
proof (induction ys arbitrary: it y largest x)
  case Nil
  obtain it' where "incr it = Some it'" "valid it'" "rest_of it' = []" using incr_rest [OF Nil.prems(1,2)] by blast
  then show ?case using Nil.prems(3) at_end by (subst max_loop.simps) simp
next
  case (Cons z zs)
  obtain it' where i: "incr it = Some it'" "valid it'" "rest_of it' = z # zs" using incr_rest [OF Cons.prems(1,2)] by blast
  have z: "deref it' = Some z" "\<not> atEnd it'" using deref_first at_end i by auto
  let ?l = "if key x < key z then it' else largest"
  have "deref ?l = Some (if key x < key z then z else x)" using z Cons.prems(3) by simp
  from Cons.IH [OF i(2,3) this] show ?case
    using i z Cons.prems(3) by (subst max_loop.simps) (auto split: if_splits)
qed

lemma max_rest:
  assumes "valid it"
  shows "case rest_of it of
       [] \<Rightarrow> max_element atEnd deref incr key it = Some it
     | x # xs \<Rightarrow> \<exists>m. max_element atEnd deref incr key it = Some m \<and> valid m \<and> rest_of m \<noteq> [] \<and> deref m = Some (first_max key x xs)"
proof (cases "rest_of it")
  case Nil
  then show ?thesis using at_end [OF assms] by (simp add: max_element_def)
next
  case (Cons x xs)
  have "deref it = Some x" "\<not> atEnd it" using deref_first at_end assms Cons by auto
  then show ?thesis
    using max_loop_rest [OF assms Cons, of it x key] Cons assms by (simp add: max_element_def) (metis list.distinct(1))
qed

end

end
