(* ===== verification/Book_Iterator.thy ===== *)
theory Book_Iterator
  imports Order_Book Forward_Range
begin

text \<open>
  \<^verbatim>\<open>core/book_iterator.hpp\<close>: the forward iterator that flattens one side of the book. A position in
  the map of levels is an index into the list of levels, a position in a queue an index into its
  list of nodes, with the length as the end; the singular order iterator of the end position is
  \<^term>\<open>None\<close>. The const and the non-const iterator share one template and so one model. The iterator
  satisfies the contract of a forward range whose elements are the orders of the side.
\<close>

section \<open>Model\<close>

record BookIterator =
  it_level :: nat
  it_order :: "nat option"

definition queue_at :: "levels \<Rightarrow> nat \<Rightarrow> queue" where
  "queue_at ls i = pl_orders (snd (ls ! i))"

function skipExhaustedLevels :: "levels \<Rightarrow> BookIterator \<Rightarrow> BookIterator" where
  "skipExhaustedLevels ls it =
     (if it_level it < length ls \<and> it_order it = Some (length (queue_at ls (it_level it)))
      then skipExhaustedLevels ls
             \<lparr>it_level = it_level it + 1,
              it_order = (if it_level it + 1 = length ls then None else Some 0)\<rparr>
      else it)"
  by pat_completeness auto

termination
  by (relation "measure (\<lambda>(ls, it). length ls - it_level it)") auto

declare skipExhaustedLevels.simps [simp del]

text \<open>The constructor from a level position, with the end of the map as the other argument.\<close>

definition new_BookIterator :: "levels \<Rightarrow> nat \<Rightarrow> BookIterator" where
  "new_BookIterator ls level =
     (if level \<noteq> length ls then skipExhaustedLevels ls \<lparr>it_level = level, it_order = Some 0\<rparr>
      else \<lparr>it_level = level, it_order = None\<rparr>)"

definition it_begin :: "levels \<Rightarrow> BookIterator" where
  "it_begin ls = new_BookIterator ls 0"

definition it_end :: "levels \<Rightarrow> BookIterator" where
  "it_end ls = new_BookIterator ls (length ls)"

text \<open>Dereferencing or incrementing the end iterator, or a position past its queue, is undefined.\<close>

definition it_deref :: "levels \<Rightarrow> BookIterator \<Rightarrow> order option" where
  "it_deref ls it =
     (if it_level it < length ls
      then case it_order it of
             None \<Rightarrow> None
           | Some k \<Rightarrow> if k < length (queue_at ls (it_level it)) then Some (snd (queue_at ls (it_level it) ! k)) else None
      else None)"

definition it_incr :: "levels \<Rightarrow> BookIterator \<Rightarrow> BookIterator option" where
  "it_incr ls it =
     (if it_level it < length ls
      then case it_order it of
             None \<Rightarrow> None
           | Some k \<Rightarrow>
               if k < length (queue_at ls (it_level it))
               then Some (skipExhaustedLevels ls (it\<lparr>it_order := Some (k + 1)\<rparr>))
               else None
      else None)"

definition it_price :: "levels \<Rightarrow> BookIterator \<Rightarrow> Price option" where
  "it_price ls it = (if it_level it < length ls then Some (pl_price (snd (ls ! it_level it))) else None)"

definition it_equal :: "levels \<Rightarrow> BookIterator \<Rightarrow> BookIterator \<Rightarrow> bool" where
  "it_equal ls lhs rhs =
     (if it_level lhs \<noteq> it_level rhs then False
      else if it_level lhs = length ls then True
      else it_order lhs = it_order rhs)"

definition at_end :: "levels \<Rightarrow> BookIterator \<Rightarrow> bool" where
  "at_end ls it = it_equal ls it (it_end ls)"

section \<open>The contract\<close>

definition it_rest :: "levels \<Rightarrow> BookIterator \<Rightarrow> order list" where
  "it_rest ls it =
     (if it_level it < length ls
      then drop (the (it_order it)) (map snd (queue_at ls (it_level it))) @ level_list (drop (Suc (it_level it)) ls)
      else [])"

text \<open>A valid position is the end or a place that can be dereferenced.\<close>

definition it_valid :: "levels \<Rightarrow> BookIterator \<Rightarrow> bool" where
  "it_valid ls it \<longleftrightarrow> it_level it = length ls \<or>
     it_level it < length ls \<and> (\<exists>k < length (queue_at ls (it_level it)). it_order it = Some k)"

text \<open>A position within a queue or right behind it.\<close>

definition it_near :: "levels \<Rightarrow> BookIterator \<Rightarrow> bool" where
  "it_near ls it \<longleftrightarrow> it_level it = length ls \<or>
     it_level it < length ls \<and> (\<exists>k \<le> length (queue_at ls (it_level it)). it_order it = Some k)"

lemma level_list_drop:
  "i < length ls \<Longrightarrow> level_list (drop i ls) = map snd (queue_at ls i) @ level_list (drop (Suc i) ls)"
  by (cases "ls ! i") (simp add: Cons_nth_drop_Suc [symmetric] queue_at_def)

lemma skip_valid:
  "it_near ls it \<Longrightarrow> it_valid ls (skipExhaustedLevels ls it) \<and> it_rest ls (skipExhaustedLevels ls it) = it_rest ls it"
proof (induction ls it rule: skipExhaustedLevels.induct)
  case (1 ls it)
  show ?case
  proof (cases "it_level it < length ls \<and> it_order it = Some (length (queue_at ls (it_level it)))")
    case True
    let ?it = "\<lparr>it_level = it_level it + 1, it_order = (if it_level it + 1 = length ls then None else Some 0)\<rparr>"
    have "it_near ls ?it" using True by (auto simp: it_near_def)
    moreover have "it_rest ls ?it = it_rest ls it" using True level_list_drop [of "Suc (it_level it)" ls] by (auto simp: it_rest_def)
    ultimately show ?thesis using "1.IH" [OF True] True by (simp add: skipExhaustedLevels.simps [of ls it])
  next
    case False
    then have "it_valid ls it" using "1.prems" by (auto simp: it_near_def it_valid_def le_less)
    moreover have "skipExhaustedLevels ls it = it" using False by (subst skipExhaustedLevels.simps) (rule if_not_P)
    ultimately show ?thesis by simp
  qed
qed

lemma at_end_level: "it_valid ls it \<Longrightarrow> at_end ls it \<longleftrightarrow> it_level it = length ls"
  by (auto simp: at_end_def it_equal_def it_end_def new_BookIterator_def)

interpretation book_range: forward_range "it_valid ls" "it_rest ls" "at_end ls" "it_deref ls" "it_incr ls" for ls
proof
  fix it x xs
  assume v: "it_valid ls it"
  show "at_end ls it \<longleftrightarrow> it_rest ls it = []"
    using v by (auto simp: at_end_level it_valid_def it_rest_def)
  assume r: "it_rest ls it = x # xs"
  then obtain k where k: "it_level it < length ls" "it_order it = Some k" "k < length (queue_at ls (it_level it))"
    using v by (auto simp: it_valid_def it_rest_def)
  have d: "drop k (map snd (queue_at ls (it_level it))) =
      snd (queue_at ls (it_level it) ! k) # drop (Suc k) (map snd (queue_at ls (it_level it)))"
    using k(3) by (simp add: Cons_nth_drop_Suc [symmetric])
  show "it_deref ls it = Some x" using k r d by (simp add: it_deref_def it_rest_def)
  let ?it = "it\<lparr>it_order := Some (k + 1)\<rparr>"
  have "it_near ls ?it" "it_rest ls ?it = xs" using k r d by (auto simp: it_near_def it_rest_def)
  then show "\<exists>it'. it_incr ls it = Some it' \<and> it_valid ls it' \<and> it_rest ls it' = xs"
    using skip_valid [of ls ?it] k by (simp add: it_incr_def)
qed

lemma begin_valid: "it_valid ls (it_begin ls) \<and> it_rest ls (it_begin ls) = level_list ls"
proof (cases "ls = []")
  case False
  let ?it = "\<lparr>it_level = 0, it_order = Some 0\<rparr>"
  have "it_near ls ?it" using False by (simp add: it_near_def)
  moreover have "it_rest ls ?it = level_list ls" using False level_list_drop [of 0 ls] by (simp add: it_rest_def)
  ultimately show ?thesis using skip_valid [of ls ?it] False by (simp add: it_begin_def new_BookIterator_def)
qed (simp add: it_valid_def it_rest_def it_begin_def new_BookIterator_def)

section \<open>Properties\<close>

text \<open>The orders seen by a loop from the beginning to the end.\<close>

definition traverse :: "levels \<Rightarrow> order list option" where
  "traverse ls = range_fold (at_end ls) (it_deref ls) (it_incr ls) (\<lambda>x xs. xs @ [x]) (it_begin ls) []"

text \<open>
  The iterator flattens a side exactly: whatever the levels, empty ones included, the loop from
  the beginning to the end terminates, never dereferences or increments an end position, and visits
  every resting order once, level by level in map order and in queue order within a level.
\<close>

lemma iterator_flattens: "traverse (sb_levels sd) = Some (side_orders sd)"
proof -
  have "fold (\<lambda>x xs. xs @ [x]) ys zs = zs @ ys" for ys zs :: "order list" by (induction ys arbitrary: zs) simp_all
  then show ?thesis using begin_valid [of "sb_levels sd"] by (simp add: traverse_def book_range.fold_rest side_orders_def)
qed

end
