(* ===== verification/Double.thy ===== *)
theory Double
  imports Complex_Main
begin

text \<open>
  The arithmetic of \<^verbatim>\<open>double\<close> as far as the analytics use it: every conversion and operation is the
  exact result rounded to 53 significant bits, to nearest, ties to even. The values that occur are
  sums and products of 64-bit integers and their quotients, far from the limits of the exponent, so
  overflow and subnormal numbers do not occur and the exponent is unbounded here.
\<close>

section \<open>Rounding\<close>

definition nearest_even :: "real \<Rightarrow> int" where
  "nearest_even y =
     (let f = \<lfloor>y\<rfloor>; d = y - of_int f
      in if d < 1 / 2 then f else if d > 1 / 2 then f + 1 else if even f then f else f + 1)"

definition unit_exp :: "real \<Rightarrow> int" where
  "unit_exp x = \<lfloor>log 2 \<bar>x\<bar>\<rfloor> - 52"

definition fl :: "real \<Rightarrow> real" where
  "fl x = (if x = 0 then 0 else of_int (nearest_even (x / 2 powr of_int (unit_exp x))) * 2 powr of_int (unit_exp x))"

definition d_add :: "real \<Rightarrow> real \<Rightarrow> real" where
  "d_add a b = fl (a + b)"

definition d_sub :: "real \<Rightarrow> real \<Rightarrow> real" where
  "d_sub a b = fl (a - b)"

definition d_mul :: "real \<Rightarrow> real \<Rightarrow> real" where
  "d_mul a b = fl (a * b)"

definition d_div :: "real \<Rightarrow> real \<Rightarrow> real" where
  "d_div a b = fl (a / b)"

section \<open>Rounding is monotone, odd and exact on powers of two\<close>

lemma nearest_even_int [simp]: "nearest_even (of_int n) = n"
  by (simp add: nearest_even_def)

lemma nearest_even_bounds: "\<lfloor>y\<rfloor> \<le> nearest_even y" "nearest_even y \<le> \<lfloor>y\<rfloor> + 1"
  by (simp_all add: nearest_even_def Let_def)

lemma nearest_even_mono: "y \<le> z \<Longrightarrow> nearest_even y \<le> nearest_even z"
proof (cases "\<lfloor>y\<rfloor> = \<lfloor>z\<rfloor>")
  case True
  assume "y \<le> z"
  then show ?thesis using True by (auto simp: nearest_even_def Let_def)
next
  case False
  assume "y \<le> z"
  then have "\<lfloor>y\<rfloor> + 1 \<le> \<lfloor>z\<rfloor>" using False floor_mono [of y z] by simp
  then show ?thesis using nearest_even_bounds [of y] nearest_even_bounds [of z] by linarith
qed

lemma nearest_even_minus: "nearest_even (- y) = - nearest_even y"
proof (cases "y = of_int \<lfloor>y\<rfloor>")
  case True
  then show ?thesis by (metis nearest_even_int of_int_minus)
next
  case False
  then have "\<lfloor>- y\<rfloor> = - \<lfloor>y\<rfloor> - 1" by linarith
  then show ?thesis by (auto simp: nearest_even_def Let_def)
qed

lemma fl_0 [simp]: "fl 0 = 0"
  by (simp add: fl_def)

lemma fl_minus: "fl (- x) = - fl x"
  by (simp add: fl_def unit_exp_def nearest_even_minus)

lemma unit_exp_bounds:
  assumes "0 < x"
  shows "2 powr of_int (unit_exp x + 52) \<le> x" and "x < 2 powr of_int (unit_exp x + 53)"
proof -
  have "of_int \<lfloor>log 2 x\<rfloor> \<le> log 2 x" "log 2 x < of_int (\<lfloor>log 2 x\<rfloor> + 1)" by linarith+
  then show "2 powr of_int (unit_exp x + 52) \<le> x" "x < 2 powr of_int (unit_exp x + 53)"
    using assms le_log_iff [of 2 x "of_int \<lfloor>log 2 x\<rfloor>"] log_less_iff [of 2 x "of_int (\<lfloor>log 2 x\<rfloor> + 1)"]
    by (simp_all add: unit_exp_def add.commute)
qed

lemma fl_between:
  assumes "0 < x"
  shows "2 powr of_int (unit_exp x + 52) \<le> fl x" and "fl x \<le> 2 powr of_int (unit_exp x + 53)"
proof -
  let ?u = "2 powr of_int (unit_exp x) :: real"
  have u: "0 < ?u" by simp
  have split: "2 powr of_int (unit_exp x + 52) = of_int (2 ^ 52) * ?u" "2 powr of_int (unit_exp x + 53) = of_int (2 ^ 53) * ?u"
    by (simp_all add: powr_add powr_numeral)
  have "of_int (2 ^ 52) \<le> x / ?u" "x / ?u \<le> of_int (2 ^ 53)"
    using unit_exp_bounds [OF assms] u unfolding split by (simp_all add: field_simps)
  then have "(2 ^ 52 :: int) \<le> nearest_even (x / ?u)" "nearest_even (x / ?u) \<le> (2 ^ 53 :: int)"
    using nearest_even_mono nearest_even_int by metis+
  then have "of_int (2 ^ 52) * ?u \<le> of_int (nearest_even (x / ?u)) * ?u" "of_int (nearest_even (x / ?u)) * ?u \<le> of_int (2 ^ 53) * ?u"
    using u by (simp_all only: mult_le_cancel_right_pos of_int_le_iff)
  then show "2 powr of_int (unit_exp x + 52) \<le> fl x" "fl x \<le> 2 powr of_int (unit_exp x + 53)"
    unfolding split using assms by (simp_all add: fl_def)
qed

lemma fl_pos: "0 < x \<Longrightarrow> 0 < fl x"
  using fl_between(1) [of x] powr_gt_zero [of 2 "of_int (unit_exp x + 52)"] by linarith

lemma fl_mono_pos:
  assumes "0 < x" and "x \<le> y"
  shows "fl x \<le> fl y"
proof (cases "unit_exp x = unit_exp y")
  case True
  let ?u = "2 powr of_int (unit_exp x) :: real"
  have "nearest_even (x / ?u) \<le> nearest_even (y / ?u)" using assms by (intro nearest_even_mono) (simp add: divide_right_mono)
  then show ?thesis using assms True by (simp add: fl_def)
next
  case False
  have "log 2 x \<le> log 2 y" using assms by simp
  then have "unit_exp x \<le> unit_exp y" using assms by (simp add: unit_exp_def floor_mono)
  then have "real_of_int (unit_exp x + 53) \<le> of_int (unit_exp y + 52)" using False by simp
  then have "2 powr of_int (unit_exp x + 53) \<le> (2 powr of_int (unit_exp y + 52) :: real)" by (rule powr_mono) simp
  then show ?thesis using fl_between(2) [OF assms(1)] fl_between(1) [of y] assms by linarith
qed

lemma fl_mono: "x \<le> y \<Longrightarrow> fl x \<le> fl y"
proof -
  assume le: "x \<le> y"
  consider "0 < x" | "y < 0" | "x \<le> 0" "0 \<le> y" by linarith
  then show ?thesis
  proof cases
    case 1
    then show ?thesis using fl_mono_pos le by simp
  next
    case 2
    then show ?thesis using fl_mono_pos [of "- y" "- x"] le by (simp add: fl_minus)
  next
    case 3
    have "fl x \<le> 0" using 3(1) fl_pos [of "- x"] by (cases "x = 0") (simp_all add: fl_minus)
    moreover have "0 \<le> fl y" using 3(2) fl_pos [of y] by (cases "y = 0") simp_all
    ultimately show ?thesis by linarith
  qed
qed

lemma fl_1 [simp]: "fl 1 = 1"
  by (simp add: fl_def unit_exp_def powr_minus divide_simps nearest_even_int [of "2 ^ 52", simplified] powr_numeral)

lemma fl_double: "fl (2 * x) = 2 * fl x"
proof (cases "x = 0")
  case False
  then have "log 2 \<bar>2 * x\<bar> = 1 + log 2 \<bar>x\<bar>" by (simp add: abs_mult log_mult)
  then have "unit_exp (2 * x) = unit_exp x + 1" by (simp add: unit_exp_def)
  then show ?thesis using False by (simp add: fl_def powr_add)
qed simp

lemma fl_power: "fl (2 powr of_int k) = 2 powr of_int k"
proof -
  have "2 powr of_int k / 2 powr of_int (k - 52) = (of_int (2 ^ 52) :: real)"
    by (simp add: powr_diff powr_numeral)
  then show ?thesis by (simp add: fl_def unit_exp_def nearest_even_int [of "2 ^ 52", simplified] powr_diff powr_numeral)
qed

lemma fl_idem_pos:
  assumes "0 < x"
  shows "fl (fl x) = fl x"
proof (cases "fl x = 2 powr of_int (unit_exp x + 53)")
  case True
  then show ?thesis by (simp only: fl_power)
next
  case False
  let ?y = "fl x"
  have y: "2 powr of_int (unit_exp x + 52) \<le> ?y" "?y < 2 powr of_int (unit_exp x + 53)"
    using fl_between [OF assms] False by auto
  have pos: "0 < ?y" by (rule fl_pos [OF assms])
  have "of_int (unit_exp x + 52) \<le> log 2 ?y" "log 2 ?y < of_int (unit_exp x + 53)"
    using y pos by (simp_all add: le_log_iff log_less_iff)
  then have "\<lfloor>log 2 ?y\<rfloor> = unit_exp x + 52" by linarith
  then have e: "unit_exp ?y = unit_exp x" using pos by (simp add: unit_exp_def)
  have m: "?y = of_int (nearest_even (x / 2 powr of_int (unit_exp x))) * 2 powr of_int (unit_exp x)"
    using assms by (simp add: fl_def)
  then have "?y / 2 powr of_int (unit_exp x) = of_int (nearest_even (x / 2 powr of_int (unit_exp x)))" by simp
  moreover have "fl ?y = of_int (nearest_even (?y / 2 powr of_int (unit_exp ?y))) * 2 powr of_int (unit_exp ?y)"
    unfolding fl_def [of "fl x"] using pos by simp
  ultimately show ?thesis by (simp only: e nearest_even_int m [symmetric])
qed

lemma fl_idem [simp]: "fl (fl x) = fl x"
proof -
  consider "0 < x" | "0 < - x" | "x = 0" by linarith
  then show ?thesis by cases (simp_all add: fl_idem_pos fl_idem_pos [of "- x", unfolded fl_minus, simplified])
qed

lemma fl_int_pos:
  assumes "0 < n" and "n \<le> 2 ^ 53"
  shows "fl (of_int n) = of_int n"
proof (cases "n = 2 ^ 53")
  case True
  then show ?thesis using fl_power [of 53] by (simp add: powr_numeral)
next
  case False
  let ?e = "unit_exp (of_int n)"
  have "real_of_int n < 2 powr 53" using assms(2) False by (simp add: powr_numeral)
  then have "log 2 (of_int n) < 53" using assms(1) by (simp add: log_less_iff)
  then have "?e \<le> 0" using assms(1) by (simp add: unit_exp_def)
  then have "real_of_int n / 2 powr of_int ?e = of_int (n * 2 ^ nat (- ?e))"
    using assms(1) by (simp add: divide_powr_uminus powr_realpow [symmetric])
  then have "nearest_even (of_int n / 2 powr of_int ?e) = n * 2 ^ nat (- ?e)" by (simp only: nearest_even_int)
  then show ?thesis
    using assms(1) \<open>?e \<le> 0\<close> by (simp add: fl_def powr_realpow [symmetric] powr_add [symmetric])
qed

lemma fl_int:
  assumes "\<bar>n\<bar> \<le> 2 ^ 53"
  shows "fl (of_int n) = of_int n"
proof -
  consider "0 < n" | "0 < - n" | "n = 0" by linarith
  then show ?thesis
  proof cases
    case 2
    then show ?thesis using fl_int_pos [of "- n"] assms by (simp add: fl_minus)
  qed (use fl_int_pos assms in auto)
qed

lemma fl_half: "fl (x / 2) = fl x / 2"
  using fl_double [of "x / 2"] by simp

end
