(* ===== verification/Analytics.thy ===== *)
theory Analytics
  imports Book_Iterator Book_Properties Double
begin

text \<open>
  \<^verbatim>\<open>analytics/side_stats.hpp\<close>, \<^verbatim>\<open>analytics/book_metrics.cpp\<close> and \<^verbatim>\<open>analytics/l2_feed.hpp\<close>: statistics of
  a side, metrics of the touch and the market-data snapshot. Algorithms on the map of levels are list
  functions on the sorted list of levels; algorithms on a side itself are the loops of
  \<^verbatim>\<open>Forward_Range\<close> over the book iterator. The lemmas show that each statistic is the one computed from
  the resting orders themselves.
\<close>

section \<open>Statistics of a side\<close>

definition addTotalQty :: "Quantity \<Rightarrow> Price \<times> price_level \<Rightarrow> Quantity" where
  "addTotalQty running entry = running + pl_totalQty (snd entry)"

definition addVisibleQty :: "Quantity \<Rightarrow> Price \<times> price_level \<Rightarrow> Quantity" where
  "addVisibleQty running entry = running + pl_visibleQty (snd entry)"

definition restingQty :: "order_book \<Rightarrow> Quantity" where
  "restingQty side = foldl addTotalQty 0 (sb_levels side)"

definition side_visibleQty :: "order_book \<Rightarrow> Quantity" where
  "side_visibleQty side = foldl addVisibleQty 0 (sb_levels side)"

text \<open>\<^verbatim>\<open>upper_bound\<close>: the entries before the first one that \<open>worst\<close> precedes.\<close>

definition before_upper_bound :: "ordering \<Rightarrow> Price \<Rightarrow> levels \<Rightarrow> levels" where
  "before_upper_bound cmp worst ls = takeWhile (\<lambda>entry. \<not> cmp worst (fst entry)) ls"

definition qtyThrough :: "ordering \<Rightarrow> Price \<Rightarrow> order_book \<Rightarrow> Quantity" where
  "qtyThrough cmp worst side = foldl addTotalQty 0 (before_upper_bound cmp worst (sb_levels side))"

text \<open>A depth that is negative as a signed distance is outside the contract of \<^verbatim>\<open>ranges::next\<close>
  with a bound and of \<^verbatim>\<open>views::take\<close>.\<close>

definition depthQty :: "order_book \<Rightarrow> 64 word \<Rightarrow> Quantity option" where
  "depthQty side depth =
     (if sint depth < 0 then None else Some (foldl addTotalQty 0 (take (unat depth) (sb_levels side))))"

text \<open>
  The reduction combines the levels from left to right, as the library does for iterators that are
  not random-access.
\<close>

record Weighted =
  wt_notional :: real
  wt_qty :: Quantity

definition combine :: "Weighted \<Rightarrow> Weighted \<Rightarrow> Weighted" where
  "combine lhs rhs = \<lparr>wt_notional = d_add (wt_notional lhs) (wt_notional rhs), wt_qty = wt_qty lhs + wt_qty rhs\<rparr>"

definition weigh :: "Price \<times> price_level \<Rightarrow> Weighted" where
  "weigh entry =
     (let qty = pl_totalQty (snd entry)
      in \<lparr>wt_notional = d_mul (fl (of_int (sint (fst entry)))) (fl (of_nat (unat qty))), wt_qty = qty\<rparr>)"

definition vwap :: "order_book \<Rightarrow> real option" where
  "vwap side =
     (let total = foldl (\<lambda>acc entry. combine acc (weigh entry)) \<lparr>wt_notional = 0, wt_qty = 0\<rparr> (sb_levels side)
      in if wt_qty total = 0 then None
         else Some (d_div (wt_notional total) (fl (of_nat (unat (wt_qty total))))))"

record L2Level =
  l2_price :: Price
  l2_visibleQty :: Quantity
  l2_totalQty :: Quantity
  l2_orderCount :: nat

definition l2_rung :: "Price \<times> price_level \<Rightarrow> L2Level" where
  "l2_rung entry =
     \<lparr>l2_price = fst entry, l2_visibleQty = pl_visibleQty (snd entry), l2_totalQty = pl_totalQty (snd entry),
      l2_orderCount = level_orderCount (snd entry)\<rparr>"

definition l2Snapshot :: "order_book \<Rightarrow> 64 word \<Rightarrow> L2Level list option" where
  "l2Snapshot side depth =
     (if sint depth < 0 then None else Some (map l2_rung (take (unat depth) (sb_levels side))))"

text \<open>The orders are given by value, where the source has pointers to them.\<close>

record OrderPartition =
  op_matching :: "order list"
  op_rest :: "order list"

definition partitionOrders :: "order_book \<Rightarrow> (order \<Rightarrow> bool) \<Rightarrow> OrderPartition option" where
  "partitionOrders side predicate =
     (let ls = sb_levels side
      in do {
        (matching, rest) \<leftarrow> partition_copy (at_end ls) (it_deref ls) (it_incr ls) predicate (it_begin ls);
        Some \<lparr>op_matching = matching, op_rest = rest\<rparr>
      })"

definition countOrders :: "order_book \<Rightarrow> (order \<Rightarrow> bool) \<Rightarrow> nat option" where
  "countOrders side predicate =
     (let ls = sb_levels side
      in count_if (at_end ls) (it_deref ls) (it_incr ls) predicate (it_begin ls))"

definition largestOrder :: "order_book \<Rightarrow> order option option" where
  "largestOrder side =
     (let ls = sb_levels side
      in do {
        largest \<leftarrow> max_element (at_end ls) (it_deref ls) (it_incr ls) remaining (it_begin ls);
        if at_end ls largest then Some None else map_option Some (it_deref ls largest)
      })"

section \<open>Metrics of the touch\<close>

record Touch =
  tc_bid :: Price
  tc_ask :: Price
  tc_bidQty :: real
  tc_askQty :: real

definition touch :: "Book \<Rightarrow> Touch option" where
  "touch bk =
     (case (bestPrice (bk_bids bk), bestPrice (bk_asks bk)) of
        (Some bid, Some ask) \<Rightarrow>
          Some \<lparr>tc_bid = bid, tc_ask = ask,
                tc_bidQty = fl (of_nat (unat (qtyAt BidOrdering bid (bk_bids bk)))),
                tc_askQty = fl (of_nat (unat (qtyAt AskOrdering ask (bk_asks bk))))\<rparr>
      | _ \<Rightarrow> None)"

definition spreadTicks :: "Book \<Rightarrow> Price option option" where
  "spreadTicks bk = spread bk"

record TouchQty =
  tq_bid :: Quantity
  tq_ask :: Quantity

definition touchQty :: "Book \<Rightarrow> TouchQty" where
  "touchQty bk =
     \<lparr>tq_bid = (case bestPrice (bk_bids bk) of None \<Rightarrow> 0 | Some bid \<Rightarrow> qtyAt BidOrdering bid (bk_bids bk)),
      tq_ask = (case bestPrice (bk_asks bk) of None \<Rightarrow> 0 | Some ask \<Rightarrow> qtyAt AskOrdering ask (bk_asks bk))\<rparr>"

definition midPrice :: "Book \<Rightarrow> real option" where
  "midPrice bk =
     (case touch bk of
        None \<Rightarrow> None
      | Some quote \<Rightarrow>
          Some (d_div (d_add (fl (of_int (sint (tc_bid quote)))) (fl (of_int (sint (tc_ask quote))))) 2))"

definition microPrice :: "Book \<Rightarrow> real option" where
  "microPrice bk =
     (case touch bk of
        None \<Rightarrow> None
      | Some quote \<Rightarrow>
          let totalQty = d_add (tc_bidQty quote) (tc_askQty quote)
          in if totalQty \<le> 0 then None
             else Some (d_div (d_add (d_mul (fl (of_int (sint (tc_ask quote)))) (tc_bidQty quote))
                                     (d_mul (fl (of_int (sint (tc_bid quote)))) (tc_askQty quote))) totalQty))"

definition imbalance :: "Book \<Rightarrow> real option" where
  "imbalance bk =
     (case touch bk of
        None \<Rightarrow> None
      | Some quote \<Rightarrow>
          let totalQty = d_add (tc_bidQty quote) (tc_askQty quote)
          in if totalQty \<le> 0 then None
             else Some (d_div (d_sub (tc_bidQty quote) (tc_askQty quote)) totalQty))"

section \<open>The market-data feed\<close>

record L2Snapshot =
  sn_bids :: "L2Level list"
  sn_asks :: "L2Level list"
  sn_sequence :: Sequence

record L2Publisher =
  pb_depth :: "64 word"
  pb_current :: L2Snapshot

definition new_L2Publisher :: "64 word \<Rightarrow> L2Publisher" where
  "new_L2Publisher depth = \<lparr>pb_depth = depth, pb_current = \<lparr>sn_bids = [], sn_asks = [], sn_sequence = 0\<rparr>\<rparr>"

text \<open>Both sides are built before the lock is taken; the exclusive section is one update.\<close>

definition publish_section :: "L2Level list \<Rightarrow> L2Level list \<Rightarrow> L2Publisher \<Rightarrow> L2Publisher" where
  "publish_section bids asks pb =
     pb\<lparr>pb_current := \<lparr>sn_bids = bids, sn_asks = asks, sn_sequence = sn_sequence (pb_current pb) + 1\<rparr>\<rparr>"

definition publish :: "Book \<Rightarrow> L2Publisher \<Rightarrow> L2Publisher option" where
  "publish bk pb = do {
     bids \<leftarrow> l2Snapshot (bk_bids bk) (pb_depth pb);
     asks \<leftarrow> l2Snapshot (bk_asks bk) (pb_depth pb);
     Some (publish_section bids asks pb)
   }"

definition l2_read :: "L2Publisher \<Rightarrow> L2Snapshot" where
  "l2_read pb = pb_current pb"

definition l2_sequence :: "L2Publisher \<Rightarrow> Sequence" where
  "l2_sequence pb = sn_sequence (pb_current pb)"

section \<open>Lemmas\<close>

lemma foldl_total: "foldl addTotalQty a ls = a + (\<Sum>(p, l) \<leftarrow> ls. pl_totalQty l)"
  by (induction ls arbitrary: a) (auto simp: addTotalQty_def ac_simps)

lemma foldl_visible: "foldl addVisibleQty a ls = a + (\<Sum>(p, l) \<leftarrow> ls. pl_visibleQty l)"
  by (induction ls arbitrary: a) (auto simp: addVisibleQty_def ac_simps)

lemma levels_total:
  assumes "\<forall>(q, k) \<in> set ls. level_ok s q k"
  shows "(\<Sum>(p, l) \<leftarrow> ls. pl_totalQty l) = (\<Sum>x \<leftarrow> level_list ls. remaining x)"
    and "(\<Sum>(p, l) \<leftarrow> ls. pl_visibleQty l) = (\<Sum>x \<leftarrow> level_list ls. visibleQty x)"
  using assms by (induction ls) (auto simp: level_ok_def aggregates_ok_def queue_total_orders queue_visible_orders)

text \<open>The levels not beyond a limit hold exactly the orders whose price is not beyond it.\<close>

definition no_worse_than :: "Side \<Rightarrow> Price \<Rightarrow> order \<Rightarrow> bool" where
  "no_worse_than s worst x \<longleftrightarrow> (\<exists>p. restingPrice x = Some p \<and> \<not> ordering_of s worst p)"

lemma level_prices: "level_ok s q l \<Longrightarrow> x \<in> snd ` set (pl_orders l) \<Longrightarrow> restingPrice x = Some q"
  by (auto simp: level_ok_def resting_ok_def)

lemma level_list_through:
  assumes "\<forall>(q, k) \<in> set ls. level_ok s q k" and "levels_sorted (ordering_of s) ls"
  shows "level_list (before_upper_bound (ordering_of s) worst ls) = filter (no_worse_than s worst) (level_list ls)"
  using assms
proof (induction ls)
  case (Cons e ls)
  obtain q l where e: "e = (q, l)" by (cases e)
  have ok: "level_ok s q l" "\<forall>(q, k) \<in> set ls. level_ok s q k" using Cons.prems(1) e by auto
  have head: "no_worse_than s worst x \<longleftrightarrow> \<not> ordering_of s worst q" if "x \<in> set (map snd (pl_orders l))" for x
    using level_prices [OF ok(1)] that by (simp add: no_worse_than_def)
  show ?case
  proof (cases "ordering_of s worst q")
    case False
    have "filter (no_worse_than s worst) (map snd (pl_orders l)) = map snd (pl_orders l)"
      using head False by (simp only: filter_id_conv) blast
    then show ?thesis using Cons e False by (simp add: before_upper_bound_def)
  next
    case True
    have "filter (no_worse_than s worst) (map snd (pl_orders l)) = []"
      using head True by (simp only: filter_empty_conv) blast
    moreover have "\<not> no_worse_than s worst x" if mem: "x \<in> set (level_list ls)" for x
    proof -
      obtain p where "p \<in> fst ` set ls" "restingPrice x = Some p" using level_list_prices [OF ok(2) mem] .
      then show ?thesis using Cons.prems(2) e True sided.trans [of s worst q p] by (auto simp: no_worse_than_def)
    qed
    ultimately show ?thesis using True e by (simp add: before_upper_bound_def filter_empty_conv)
  qed
qed (simp add: before_upper_bound_def)

lemma levels_prices:
  assumes "\<forall>(q, k) \<in> set ls. level_ok s q k \<and> \<not> level_empty k" and "levels_sorted (ordering_of s) ls"
  shows "remdups_adj (map (\<lambda>x. the (restingPrice x)) (level_list ls)) = map fst ls"
  using assms
proof (induction ls)
  case (Cons e ls)
  obtain q l where e: "e = (q, l)" by (cases e)
  have ok: "level_ok s q l" "pl_orders l \<noteq> []" using Cons.prems(1) e by (auto simp: level_empty_def)
  have rest: "\<forall>(q, k) \<in> set ls. level_ok s q k" using Cons.prems(1) by auto
  let ?f = "\<lambda>x. the (restingPrice x)"
  have "map ?f (map snd (pl_orders l)) = replicate (length (pl_orders l)) q"
    using level_prices [OF ok(1)] by (intro replicate_eqI) auto
  moreover have "?f x \<noteq> q" if "x \<in> set (level_list ls)" for x
    using level_list_prices [OF rest that] Cons.prems(2) e sided.irrefl [of s q] by (metis (no_types, lifting) fst_conv imageE option.sel sorted_wrt.simps(2))
  then have "level_list ls = [] \<or> q \<noteq> hd (map ?f (level_list ls))" by (metis hd_in_set hd_map)
  moreover have "remdups_adj (replicate (length (pl_orders l)) q) = [q]" using ok(2) by (simp add: remdups_adj_replicate)
  ultimately show ?case
    using Cons e ok(2) remdups_adj_append' [of "replicate (length (pl_orders l)) q" "map ?f (level_list ls)"]
    by auto
qed simp

text \<open>The rung a feed owes for a price, from the orders resting there.\<close>

definition rung_of :: "order list \<Rightarrow> Price \<Rightarrow> L2Level" where
  "rung_of xs p =
     (let here = filter (\<lambda>x. restingPrice x = Some p) xs
      in \<lparr>l2_price = p, l2_visibleQty = (\<Sum>x \<leftarrow> here. visibleQty x), l2_totalQty = (\<Sum>x \<leftarrow> here. remaining x),
          l2_orderCount = length here\<rparr>)"

definition ladder :: "order list \<Rightarrow> nat \<Rightarrow> L2Level list" where
  "ladder xs depth = map (rung_of xs) (take depth (remdups_adj (map (\<lambda>x. the (restingPrice x)) xs)))"

lemma l2_rung_of:
  assumes "\<forall>(q, k) \<in> set ls. level_ok s q k" and "distinct (map fst ls)" and "e \<in> set ls"
  shows "l2_rung e = rung_of (level_list ls) (fst e)"
proof -
  obtain q l where e: "e = (q, l)" by (cases e)
  have "map_of ls q = Some l" "level_ok s q l" using assms e by auto
  then show ?thesis
    using level_list_at_price [OF assms(1,2), of q] e
    by (simp add: l2_rung_def rung_of_def Let_def level_orderCount_def level_ok_def aggregates_ok_def queue_total_orders
        queue_visible_orders)
qed

lemma side_ok_levels:
  assumes "side_ok s sd"
  shows "\<forall>(q, k) \<in> set (sb_levels sd). level_ok s q k" and "\<forall>(q, k) \<in> set (sb_levels sd). level_ok s q k \<and> \<not> level_empty k"
    and "levels_sorted (ordering_of s) (sb_levels sd)" and "distinct (map fst (sb_levels sd))"
  using assms side_shape_distinct [of s sd] by (auto simp: side_ok_def side_shape_def)

lemma l2Snapshot_ladder:
  assumes "side_ok s sd" and "0 \<le> sint depth"
  shows "l2Snapshot sd depth = Some (ladder (side_orders sd) (unat depth))"
proof -
  note ok = side_ok_levels [OF assms(1)]
  have "map l2_rung (take n (sb_levels sd)) = map (rung_of (side_orders sd)) (take n (map fst (sb_levels sd)))" for n
    using l2_rung_of [OF ok(1,4)] by (auto simp: take_map side_orders_def dest: in_set_takeD)
  then show ?thesis
    using assms(2) levels_prices [OF ok(2,3)] by (simp add: l2Snapshot_def ladder_def side_orders_def)
qed

lemma touch_cases:
  assumes "touch bk = Some quote"
  shows "bestPrice (bk_bids bk) = Some (tc_bid quote)" and "bestPrice (bk_asks bk) = Some (tc_ask quote)"
    and "0 \<le> tc_bidQty quote" and "0 \<le> tc_askQty quote"
proof -
  have "0 \<le> fl (of_nat n)" for n using fl_mono [of 0 "of_nat n"] by simp
  then show "bestPrice (bk_bids bk) = Some (tc_bid quote)" "bestPrice (bk_asks bk) = Some (tc_ask quote)"
      "0 \<le> tc_bidQty quote" "0 \<le> tc_askQty quote"
    using assms by (auto simp: touch_def simp del: of_nat_unat split: option.splits)
qed

lemma d_div_unit:
  assumes "\<bar>a\<bar> \<le> b" and "0 < fl b"
  shows "d_div (fl a) (fl b) \<le> 1" and "- 1 \<le> d_div (fl a) (fl b)"
proof -
  have "fl a \<le> fl b" "- fl b \<le> fl a" using fl_mono [of a b] fl_mono [of "- b" a] assms(1) by (auto simp: fl_minus)
  then have "fl a / fl b \<le> 1" "- 1 \<le> fl a / fl b" using assms(2) by (auto simp: field_simps)
  then show "d_div (fl a) (fl b) \<le> 1" "- 1 \<le> d_div (fl a) (fl b)"
    using fl_mono [of _ 1] fl_mono [of "- 1"] by (auto simp: d_div_def fl_minus)
qed

lemma d_mid:
  assumes "fl a \<le> fl b"
  shows "fl a \<le> d_div (d_add (fl a) (fl b)) 2" and "d_div (d_add (fl a) (fl b)) 2 \<le> fl b"
proof -
  have "2 * fl a \<le> d_add (fl a) (fl b)" "d_add (fl a) (fl b) \<le> 2 * fl b"
    using fl_mono [of "2 * fl a" "fl a + fl b"] fl_mono [of "fl a + fl b" "2 * fl b"] assms by (auto simp: d_add_def fl_double)
  then show "fl a \<le> d_div (d_add (fl a) (fl b)) 2" "d_div (d_add (fl a) (fl b)) 2 \<le> fl b"
    using fl_mono [of "fl a" "d_add (fl a) (fl b) / 2"] fl_mono [of "d_add (fl a) (fl b) / 2" "fl b"] by (auto simp: d_div_def)
qed

lemma d_mid_exact:
  assumes "\<bar>a\<bar> \<le> 2 ^ 52" and "\<bar>b\<bar> \<le> 2 ^ 52"
  shows "d_div (d_add (fl (of_int a)) (fl (of_int b))) 2 = of_int (a + b) / 2"
  using fl_int [of a] fl_int [of b] fl_int [of "a + b"] assms by (simp add: d_add_def d_div_def fl_half)

section \<open>Properties\<close>

text \<open>
  C30. Every statistic that runs a standard algorithm over the book iterator ends and computes the
  list function it stands for on the resting orders in priority order: \<^verbatim>\<open>countOrders\<close>
  counts, \<^verbatim>\<open>partitionOrders\<close> splits keeping the order of both halves, and \<^verbatim>\<open>largestOrder\<close>
  is null exactly when the side is empty and otherwise the first order with the largest remaining
  quantity.
\<close>

theorem side_algorithms_exact:
  "countOrders sd p = Some (length (filter p (side_orders sd))) \<and>
   partitionOrders sd p =
     Some \<lparr>op_matching = filter p (side_orders sd), op_rest = filter (\<lambda>x. \<not> p x) (side_orders sd)\<rparr> \<and>
   largestOrder sd = Some (case side_orders sd of [] \<Rightarrow> None | x # xs \<Rightarrow> Some (first_max remaining x xs))"
proof -
  let ?ls = "sb_levels sd"
  have v: "it_valid ?ls (it_begin ?ls)" and r: "it_rest ?ls (it_begin ?ls) = side_orders sd"
    using begin_valid [of ?ls] by (simp_all add: side_orders_def)
  have "largestOrder sd = Some (case side_orders sd of [] \<Rightarrow> None | x # xs \<Rightarrow> Some (first_max remaining x xs))"
    using book_range.max_rest [OF v, of remaining] book_range.at_end [OF v] book_range.at_end [of ?ls]
    by (auto simp: largestOrder_def r split: list.splits)
  then show ?thesis
    using book_range.count_rest [OF v] book_range.partition_rest [OF v] by (simp add: countOrders_def partitionOrders_def r)
qed

text \<open>
  C31. The quantity statistics are exact: on a well-formed book the resting and the visible quantity
  of a side, accumulated from the cached totals of its levels, are the sums over its resting orders
  modulo \<open>2^64\<close>, \<^verbatim>\<open>qtyAt\<close> is the sum over the orders at that price, \<^verbatim>\<open>qtyThrough\<close>, which stops at the
  upper bound of the limit in the sorted map, is the sum over exactly the orders whose price is no
  worse than the limit, and the best price is the price of the order with priority.
\<close>

theorem side_quantities_exact:
  fixes s :: Side
  assumes "book_ok bk"
  defines "sd \<equiv> book_side s bk"
  shows "restingQty sd = (\<Sum>x \<leftarrow> side_orders sd. remaining x) \<and>
     side_visibleQty sd = (\<Sum>x \<leftarrow> side_orders sd. visibleQty x) \<and>
     qtyAt (ordering_of s) p sd = (\<Sum>x \<leftarrow> filter (\<lambda>x. restingPrice x = Some p) (side_orders sd). remaining x) \<and>
     qtyThrough (ordering_of s) worst sd = (\<Sum>x \<leftarrow> filter (no_worse_than s worst) (side_orders sd). remaining x) \<and>
     bestPrice sd = (case side_orders sd of [] \<Rightarrow> None | x # xs \<Rightarrow> restingPrice x)"
proof -
  have "side_ok s sd" using book_ok_shapes [OF assms(1)] sd_def by auto
  note ok = side_ok_levels [OF this]
  have "\<forall>(q, k) \<in> set (before_upper_bound (ordering_of s) worst (sb_levels sd)). level_ok s q k"
    using ok(1) by (auto simp: before_upper_bound_def dest: set_takeWhileD)
  then have "qtyThrough (ordering_of s) worst sd = (\<Sum>x \<leftarrow> filter (no_worse_than s worst) (side_orders sd). remaining x)"
    using levels_total(1) level_list_through [OF ok(1,3)] by (simp add: qtyThrough_def foldl_total side_orders_def)
  moreover have "restingQty sd = (\<Sum>x \<leftarrow> side_orders sd. remaining x)" "side_visibleQty sd = (\<Sum>x \<leftarrow> side_orders sd. visibleQty x)"
    using levels_total [OF ok(1)] by (simp_all add: restingQty_def side_visibleQty_def foldl_total foldl_visible side_orders_def)
  ultimately show ?thesis using depth_exact [OF assms(1), of s p] unfolding sd_def by blast
qed

theorem side_quantities_exact_witness:
  "qtyThrough AskOrdering 100 (bk_asks demo_book) = 8 \<and> bestPrice (bk_asks demo_book) = Some 100"
proof -
  have "(\<Sum>x \<leftarrow> filter (\<lambda>x. case restingPrice x of None \<Rightarrow> False | Some p \<Rightarrow> \<not> AskOrdering 100 p) (side_orders (book_side Sell demo_book)). remaining x) = 8"
    "(case side_orders (book_side Sell demo_book) of [] \<Rightarrow> None | x # xs \<Rightarrow> restingPrice x) = Some 100" by code_simp+
  moreover have "no_worse_than Sell w = (\<lambda>x. case restingPrice x of None \<Rightarrow> False | Some p \<Rightarrow> \<not> AskOrdering w p)" for w
    by (intro ext) (auto simp: no_worse_than_def split: option.splits)
  ultimately show ?thesis using side_quantities_exact [OF demo_book_ok, of Sell 100 100] by simp
qed

text \<open>
  C32. The feed shows the book: a publication succeeds, and what a reader gets afterwards is, for
  each side, one rung for each of the best prices at which an order rests, best first and up to the
  configured depth, with the visible and the total quantity and the number of the orders resting
  there, under a sequence number one higher than before.
\<close>

theorem feed_shows_book:
  assumes "book_ok bk" and "0 \<le> sint (pb_depth pb)"
  shows "\<exists>pb'. publish bk pb = Some pb' \<and> pb_depth pb' = pb_depth pb \<and> l2_sequence pb' = l2_sequence pb + 1 \<and>
     l2_read pb' = \<lparr>sn_bids = ladder (side_orders (bk_bids bk)) (unat (pb_depth pb)),
                    sn_asks = ladder (side_orders (bk_asks bk)) (unat (pb_depth pb)), sn_sequence = l2_sequence pb + 1\<rparr>"
proof -
  have "side_ok Buy (bk_bids bk)" "side_ok Sell (bk_asks bk)" using assms(1) by (simp_all add: book_ok_def)
  then show ?thesis
    using l2Snapshot_ladder assms(2) by (simp add: publish_def publish_section_def l2_read_def l2_sequence_def)
qed

theorem feed_shows_book_witness:
  "map_option (\<lambda>pb. map l2_totalQty (sn_asks (l2_read pb))) (publish demo_book (new_L2Publisher 1)) = Some [8]"
proof -
  have "map l2_totalQty (ladder (side_orders (bk_asks demo_book)) 1) = [8]" by code_simp
  then show ?thesis using feed_shows_book [OF demo_book_ok, of "new_L2Publisher 1"] by (auto simp: new_L2Publisher_def)
qed

text \<open>
  C33. The touch metrics survive the rounding of doubles: on a well-formed book a mid price exists
  exactly when both sides are quoted, it lies between the best bid and the best ask as doubles, it
  is exactly half their sum, half ticks included, for prices up to \<open>2^52\<close>, and a reported imbalance is
  between -1 and 1.
\<close>

theorem metrics_bounded:
  assumes "book_ok bk"
  shows "(midPrice bk = None \<longleftrightarrow> bestPrice (bk_bids bk) = None \<or> bestPrice (bk_asks bk) = None) \<and>
     (case midPrice bk of None \<Rightarrow> True
      | Some mid \<Rightarrow>
          let bid = sint (the (bestPrice (bk_bids bk))); ask = sint (the (bestPrice (bk_asks bk)))
          in fl (of_int bid) \<le> mid \<and> mid \<le> fl (of_int ask) \<and>
             (\<bar>bid\<bar> \<le> 2 ^ 52 \<and> \<bar>ask\<bar> \<le> 2 ^ 52 \<longrightarrow> mid = of_int (bid + ask) / 2)) \<and>
     (case imbalance bk of None \<Rightarrow> True | Some i \<Rightarrow> - 1 \<le> i \<and> i \<le> 1)"
proof (cases "touch bk")
  case None
  then show ?thesis by (auto simp: midPrice_def imbalance_def touch_def split: option.splits)
next
  case (Some quote)
  note t = touch_cases [OF Some]
  have "sint (tc_bid quote) < sint (tc_ask quote)"
    using assms bestPrice_in [OF t(1)] bestPrice_in [OF t(2)] by (auto simp: book_ok_def uncrossed_def)
  then have "fl (of_int (sint (tc_bid quote))) \<le> fl (of_int (sint (tc_ask quote)))" by (intro fl_mono) (simp only: of_int_le_iff less_imp_le)
  note mid = d_mid [OF this]
  have "\<bar>tc_bidQty quote - tc_askQty quote\<bar> \<le> tc_bidQty quote + tc_askQty quote" using t(3,4) by simp
  note d_div_unit [OF this]
  then show ?thesis using Some t(1,2) mid d_mid_exact
    by (simp add: midPrice_def imbalance_def Let_def d_sub_def d_add_def del: of_int_sint)
qed

theorem metrics_bounded_witness: "midPrice demo_book = Some (199 / 2)"
proof -
  have "bestPrice (bk_bids demo_book) = Some 99" "bestPrice (bk_asks demo_book) = Some 100" by code_simp+
  then show ?thesis using metrics_bounded [OF demo_book_ok] by (auto split: option.splits)
qed

end
