(* ===== verification/Store_Properties.thy ===== *)
theory Store_Properties
  imports Sqlite_Store
begin

text \<open>
  What the database promises, for every engine that keeps the contract of SQLite: a fill is recorded
  wholly and once or not at all, the ledger always balances and explains every balance, and what was
  recorded is what the queries return. An engine without failures of its own records every fill
  between known accounts whose value and whose balances stay within 64 bits.
\<close>

section \<open>Histories of a store\<close>

inductive store_step :: "(statement \<Rightarrow> 'db \<Rightarrow> reply \<times> 'db) \<Rightarrow> 'db \<Rightarrow> 'db \<Rightarrow> bool" for run where
  creates: "createAccount run a b db = (r, db') \<Longrightarrow> store_step run db db'"
| records: "recordFill run seq f timestamp db = Some (r, db') \<Longrightarrow> store_step run db db'"
| balances: "balanceOf run a db = (r, db') \<Longrightarrow> store_step run db db'"
| lists: "allBalances run db = (r, db') \<Longrightarrow> store_step run db db'"
| counts: "fillCount run db = (r, db') \<Longrightarrow> store_step run db db'"
| last: "lastFillSequence run db = (r, db') \<Longrightarrow> store_step run db db'"
| statements: "fillsForAccount run a limit db = (r, db') \<Longrightarrow> store_step run db db'"
| tape: "recentFills run limit db = (r, db') \<Longrightarrow> store_step run db db'"
| checks: "ledgerImbalance run db = (r, db') \<Longrightarrow> store_step run db db'"

text \<open>Postings that balance and explain how the balances changed.\<close>

definition accounted :: "tables \<Rightarrow> tables \<Rightarrow> bool" where
  "accounted t t' \<longleftrightarrow> (\<exists>rs. explains rs t t' \<and> (\<Sum>r \<leftarrow> rs. sint (lr_delta r)) = 0)"

lemma accounted_refl [simp]: "accounted t t"
  unfolding accounted_def by (rule exI [of _ "[]"]) simp

lemma accounted_trans: "accounted t t' \<Longrightarrow> accounted t' t'' \<Longrightarrow> accounted t t''"
proof -
  assume "accounted t t'" "accounted t' t''"
  then obtain rs rs' where "explains rs t t'" "explains rs' t' t''" "(\<Sum>r \<leftarrow> rs. sint (lr_delta r)) = 0" "(\<Sum>r \<leftarrow> rs'. sint (lr_delta r)) = 0"
    by (auto simp: accounted_def)
  then show ?thesis using explains_trans by (fastforce simp: accounted_def)
qed

lemma accounted_ledger: "accounted t t' \<Longrightarrow> ledger_sum t' = ledger_sum t"
  by (auto simp: accounted_def explains_def ledger_sum_def)

lemma trade_accounted: "trade_recorded seq f timestamp t t' \<Longrightarrow> accounted t t'"
  by (auto simp: trade_recorded_def accounted_def)

lemma fill_outcome_accounted: "fill_outcome seq f timestamp t r t' \<Longrightarrow> accounted t t'"
  by (auto simp: fill_outcome_def dest!: recorded_trade trade_accounted split: sum.splits if_splits)

context sqlite
begin

lemma create_effect:
  assumes "createAccount run a b db = (r, db')" and "base db = None"
  shows "base db' = None \<and> (view db' = view db \<or> view db' = insert_account (ucast a) b (view db))"
proof -
  obtain r1 db1 where r1: "exec run (InsertAccount (ucast a) b) db = (r1, db1)" by (cases "exec run (InsertAccount (ucast a) b) db")
  then have "db' = db1" using assms(1) by (auto simp: createAccount_def split: sum.splits)
  then show ?thesis
    using r1 assms(2) exec_ok [of "InsertAccount (ucast a) b" db] exec_fails(2) [of "InsertAccount (ucast a) b" db] by (cases r1) auto
qed

lemma store_step_accounted:
  assumes "store_step run db db'" and "base db = None"
  shows "base db' = None \<and> accounted (view db) (view db')"
proof -
  have q: "base db' = None \<and> accounted (view db) (view db')"
    if "snd (exec run st db) = db'" "\<not> control st" "\<And>t. change st t = Some t" for st
    using query_keeps [of st db "fst (exec run st db)" db'] that assms(2) by (metis accounted_refl prod.collapse)
  show ?thesis using assms
  proof cases
    case (creates a b r)
    have "accounted t (insert_account a b t)" for a b t
      unfolding accounted_def by (rule exI [of _ "[]"]) (simp add: insert_account_explains)
    then show ?thesis using create_effect [OF creates assms(2)] by auto
  next
    case (records seq f timestamp r)
    then show ?thesis using recordFill_effect [OF records assms(2)] fill_outcome_accounted by blast
  next
    case (balances a r)
    then show ?thesis by (intro q [of "SelectBalance (ucast a)"]) (auto simp: balanceOf_def split: prod.splits sum.splits list.splits)
  next
    case (lists r)
    then show ?thesis by (intro q [of SelectBalances]) (auto simp: allBalances_def split: prod.splits sum.splits)
  next
    case (counts r)
    then show ?thesis by (intro q [of CountFills]) (auto simp: fillCount_def scalar_def split: prod.splits sum.splits list.splits)
  next
    case (last r)
    then show ?thesis by (intro q [of MaxSequence]) (auto simp: lastFillSequence_def scalar_def split: prod.splits sum.splits list.splits)
  next
    case (statements a limit r)
    then show ?thesis by (intro q [of "SelectFillsFor (ucast a) limit"]) (auto simp: fillsForAccount_def split: prod.splits sum.splits)
  next
    case (tape limit r)
    then show ?thesis by (intro q [of "SelectTape ''EXCH'' limit"]) (auto simp: recentFills_def split: prod.splits sum.splits)
  next
    case (checks r)
    then show ?thesis by (intro q [of SumLedger]) (auto simp: ledgerImbalance_def scalar_def split: prod.splits sum.splits list.splits)
  qed
qed

lemma store_steps_accounted:
  assumes "(store_step run)\<^sup>*\<^sup>* db db'" and "base db = None"
  shows "base db' = None \<and> accounted (view db) (view db')"
  using assms
proof (induction rule: rtranclp_induct)
  case (step y z)
  then show ?case using store_step_accounted [of y z] accounted_trans by blast
qed simp

lemma imbalance_reported: "fst (ledgerImbalance run db) = Inr v \<Longrightarrow> sint v = ledger_sum (view db)"
proof -
  assume r: "fst (ledgerImbalance run db) = Inr v"
  obtain r1 db1 where r1: "exec run SumLedger db = (r1, db1)" by (cases "exec run SumLedger db")
  then obtain rs where rs: "r1 = Inr rs" using r by (cases r1) (auto simp: ledgerImbalance_def scalar_def)
  show ?thesis using exec_ok(2) [OF r1 [unfolded rs]] r r1 rs by (auto simp: ledgerImbalance_def scalar_def columnInt_def)
qed

end

section \<open>Recording without failures\<close>

definition fits :: "int \<Rightarrow> bool" where
  "fits i \<longleftrightarrow> - (2 ^ 63) \<le> i \<and> i < 2 ^ 63"

lemma sint_fits:
  "fits (sint a + sint b) \<Longrightarrow> sint (a + b :: 64 word) = sint a + sint b"
  "fits (sint a * sint b) \<Longrightarrow> sint (a * b :: 64 word) = sint a * sint b"
  "fits (- sint a) \<Longrightarrow> sint (- a :: 64 word) = - sint a"
  unfolding fits_def by (simp_all add: sint_word_ariths signed_take_bit_int_eq_self)

lemma adjust_defined:
  assumes "map_of (tb_accounts t) a = Some b" and "fits (sint b + sint d)"
  shows "adjust_balance a d t = Some (t\<lparr>tb_accounts := al_adjust a (\<lambda>_. b + d) (tb_accounts t)\<rparr>)"
  using assms sint_fits(1) [of b d] by (simp add: adjust_balance_def)

lemma account_known: "map_of (tb_accounts t) a = Some b \<Longrightarrow> a \<in> account_ids t"
  unfolding account_ids_def by (metis domI dom_map_of_conv_image_fst)

lemma posted_defined:
  assumes "seq \<in> fill_seqs t" and "map_of (tb_accounts t) (ucast a1) = Some bx" and "map_of (tb_accounts t) (ucast a2) = Some bz"
    and "(ucast a1 :: 64 word) \<noteq> ucast a2" and "fits (sint bx + sint d1)" and "fits (sint bz + sint d2)"
  shows "posted seq [\<lparr>le_account = a1, le_delta = d1\<rparr>, \<lparr>le_account = a2, le_delta = d2\<rparr>] t \<noteq> None"
proof -
  let ?t1 = "t\<lparr>tb_ledger := tb_ledger t @ [\<lparr>lr_fill = seq, lr_account = ucast a1, lr_delta = d1\<rparr>]\<rparr>"
  let ?t2 = "?t1\<lparr>tb_accounts := al_adjust (ucast a1) (\<lambda>_. bx + d1) (tb_accounts t)\<rparr>"
  let ?t3 = "?t2\<lparr>tb_ledger := tb_ledger ?t2 @ [\<lparr>lr_fill = seq, lr_account = ucast a2, lr_delta = d2\<rparr>]\<rparr>"
  have p1: "insert_posting seq (ucast a1) d1 t = Some ?t1"
    using assms(1) account_known [OF assms(2)] by (simp add: insert_posting_def)
  have a1: "adjust_balance (ucast a1) d1 ?t1 = Some ?t2" using adjust_defined [of ?t1 "ucast a1" bx d1] assms(2,5) by simp
  have m: "map_of (tb_accounts ?t2) (ucast a2) = Some bz" using assms(3,4) by (simp add: map_of_al_adjust)
  have p2: "insert_posting seq (ucast a2) d2 ?t2 = Some ?t3"
    using assms(1) account_known [OF m] by (simp add: insert_posting_def fill_seqs_def)
  have "adjust_balance (ucast a2) d2 ?t3 \<noteq> None" using adjust_defined [of ?t3 "ucast a2" bz d2] m assms(6) by simp
  then show ?thesis using p1 a1 p2 by auto
qed

lemma recorded_defined:
  assumes "seq \<notin> fill_seqs t" and "0 < sint (fl_quantity f)" and "fits (value_of f)" and "fits (- value_of f)"
    and "map_of (tb_accounts t) (buyer f) = Some b" and "map_of (tb_accounts t) (seller f) = Some s" and "buyer f \<noteq> seller f"
    and "fits (sint b - value_of f)" and "fits (sint s + value_of f)"
  shows "recorded seq f timestamp t \<noteq> None"
proof -
  let ?t = "t\<lparr>tb_fills := tb_fills t @ [row_of seq timestamp f]\<rparr>"
  let ?n = "fl_price f * fl_quantity f"
  have n: "sint ?n = value_of f" using sint_fits(2) assms(3) by (simp add: value_of_def)
  then have m: "sint (- ?n) = - value_of f" using sint_fits(3) [of ?n] assms(4) by simp
  have ins: "insert_fill (row_of seq timestamp f) t = Some ?t"
    using assms(1,2) by (simp add: insert_fill_def row_of_def)
  have es: "entries_of f = Some [\<lparr>le_account = fl_aggressorAccount f, le_delta = (if fl_aggressorSide f = Buy then - ?n else ?n)\<rparr>,
           \<lparr>le_account = fl_restingAccount f, le_delta = (if fl_aggressorSide f = Buy then ?n else - ?n)\<rparr>]"
    using n m by (simp add: entries_of_def notionalOf_def negated_def value_of_def Let_def)
  have "posted seq [\<lparr>le_account = fl_aggressorAccount f, le_delta = (if fl_aggressorSide f = Buy then - ?n else ?n)\<rparr>,
           \<lparr>le_account = fl_restingAccount f, le_delta = (if fl_aggressorSide f = Buy then ?n else - ?n)\<rparr>] ?t \<noteq> None"
    using assms(5-9) n m
    by (intro posted_defined [where bx = "if fl_aggressorSide f = Buy then b else s" and bz = "if fl_aggressorSide f = Buy then s else b"])
       (auto simp: buyer_def seller_def fill_seqs_def row_of_def split: if_splits)
  then show ?thesis using ins es by (simp add: recorded_def)
qed

context reliable_sqlite
begin

lemma exec_succeeds:
  assumes "\<not> control st" and "st \<noteq> SumLedger" and "change st (view db) = Some t"
  shows "\<exists>rs db'. exec run st db = (Inr rs, db') \<and> view db' = t \<and> base db' = base db \<and> answers st (view db) rs"
proof -
  obtain rs db' where "run st db = (Rows rs, db')" using executes [OF assms(1,2), of db] assms(3)
    by (metis option.distinct(1) prod.collapse reply.exhaust)
  then have "exec run st db = (Inr rs, db')" by (simp add: exec_def)
  then show ?thesis using exec_ok [OF _ assms(1)] assms(3) by fastforce
qed

lemma post_entries_succeeds:
  "posted seq es (view db) = Some t \<Longrightarrow> \<exists>db'. post_entries run seq es db = (Inr (), db') \<and> view db' = t \<and> base db' = base db"
proof (induction es arbitrary: db)
  case (Cons e es)
  obtain t1 t2 where t: "insert_posting seq (ucast (le_account e)) (le_delta e) (view db) = Some t1"
    "adjust_balance (ucast (le_account e)) (le_delta e) t1 = Some t2" "posted seq es t2 = Some t"
    using Cons.prems by (auto split: Option.bind_splits)
  obtain rs1 db1 where 1: "exec run (InsertPosting seq (ucast (le_account e)) (le_delta e)) db = (Inr rs1, db1)" "view db1 = t1" "base db1 = base db"
    using exec_succeeds [of "InsertPosting seq (ucast (le_account e)) (le_delta e)" db t1] t(1) by auto
  obtain rs2 db2 where 2: "exec run (AdjustBalance (ucast (le_account e)) (le_delta e)) db1 = (Inr rs2, db2)" "view db2 = t2" "base db2 = base db1"
    using exec_succeeds [of "AdjustBalance (ucast (le_account e)) (le_delta e)" db1 t2] t(2) 1 by auto
  show ?case using Cons.IH [of db2] t(3) 1 2 by simp
qed simp

lemma recordFill_succeeds:
  assumes "base db = None" and "recorded seq f timestamp (view db) = Some t"
  shows "\<exists>db'. recordFill run seq f timestamp db = Some (Inr True, db') \<and> view db' = t \<and> base db' = None"
proof -
  obtain t1 es where t1: "insert_fill (row_of seq timestamp f) (view db) = Some t1" and es: "entries_of f = Some es"
    and p: "posted seq es t1 = Some t"
    using assms(2) by (auto simp: recorded_def split: Option.bind_splits)
  have new: "seq \<notin> fill_seqs (view db)" using t1 by (auto simp: insert_fill_def row_of_def split: if_splits)
  obtain rs1 db1 where 1: "run Begin db = (Rows rs1, db1)" using begins [OF assms(1)] by (metis prod.collapse reply.exhaust)
  note b = begin_ok [OF 1]
  obtain rs2 db2 where 2: "exec run (SelectFill seq) db1 = (Inr rs2, db2)" "view db2 = view db" "base db2 = base db1"
      "answers (SelectFill seq) (view db) rs2"
    using exec_succeeds [of "SelectFill seq" db1 "view db"] b by auto
  obtain rs3 db3 where 3: "exec run (InsertFill (row_of seq timestamp f)) db2 = (Inr rs3, db3)" "view db3 = t1" "base db3 = base db2"
    using exec_succeeds [of "InsertFill (row_of seq timestamp f)" db2 t1] t1 2 by auto
  obtain db4 where 4: "post_entries run seq es db3 = (Inr (), db4)" "view db4 = t" "base db4 = base db3"
    using post_entries_succeeds [of seq es db3 t] p 3 by auto
  have "base db4 \<noteq> None" using 2 3 4 b by simp
  then obtain rs5 db5 where 5: "run Commit db4 = (Rows rs5, db5)" using commits by (metis prod.collapse reply.exhaust)
  have "record_body run seq f timestamp db1 = Some (Inr True, True, db5)"
    using 2 3 4 5 es new by (simp add: record_body_def commit_def exec_def [of run Commit])
  then have "recordFill run seq f timestamp db = Some (Inr True, db5)"
    using 1 by (simp add: recordFill_def in_transaction_def exec_def end_transaction_def)
  then show ?thesis using commit_ok [OF 5] 4 by simp
qed

end

section \<open>The tape\<close>

lemma fill_of_row_columns [simp]: "fill_of_row (columns (row_of seq timestamp f)) = f"
proof -
  have "int_side (side_int s) = s" for s by (cases s) (simp_all add: int_side_def)
  then show ?thesis by (simp add: fill_of_row_def columns_def row_of_def columnInt_def ucast_down_ucast_id is_down)
qed

lemma newest_is_first:
  assumes "newest_first p limit t rs" and "tb_fills t = olds @ [row]" and "p row" and "limit \<noteq> 0"
    and "\<forall>r \<in> set olds. sint (row_ts r) < sint (row_ts row)"
  shows "\<exists>rest. rs = columns row # rest"
proof -
  obtain rows where m: "mset rows = mset (filter p (olds @ [row]))"
    and s: "sorted_wrt (\<lambda>r r'. sint (row_ts r') \<le> sint (row_ts r)) rows" and rs: "rs = map columns (limited limit rows)"
    using assms(1,2) by (auto simp: newest_first_def)
  have set_rows: "set rows = set (filter p (olds @ [row]))" using mset_eq_setD [OF m] .
  then have "row \<in> set rows" using assms(3) by simp
  then obtain x xs where rows: "rows = x # xs" by (cases rows) auto
  have "sint (row_ts row) \<le> sint (row_ts x)" using s rows \<open>row \<in> set rows\<close> by auto
  moreover have "x = row \<or> x \<in> set olds"
  proof -
    have "x \<in> set (filter p (olds @ [row]))" using set_rows rows by (metis list.set_intros(1))
    then show ?thesis by (auto split: if_splits)
  qed
  ultimately have "x = row" using assms(5) by (metis not_less)
  moreover have "0 < unat limit" using assms(4) by (simp add: unat_gt_0)
  ultimately show ?thesis using rs rows by (cases "unat limit") (auto simp: limited_def)
qed

section \<open>Example databases\<close>

definition demo_trade :: Fill where
  "demo_trade = \<lparr>fl_aggressorId = 1, fl_restingId = 2, fl_price = 100, fl_quantity = 5, fl_aggressorAccount = 7,
     fl_restingAccount = 8, fl_aggressorSide = Buy\<rparr>"

definition demo_db :: ref_db where
  "demo_db = \<lparr>rd_view = \<lparr>tb_accounts = [(7, 1000), (8, 1000)], tb_fills = [], tb_ledger = []\<rparr>, rd_base = None\<rparr>"

text \<open>An engine that fails when the seller is to be paid.\<close>

definition fails_late :: "statement \<Rightarrow> bool" where
  "fails_late st \<longleftrightarrow> st = AdjustBalance 8 500"

lemmas store_defs = recordFill_def in_transaction_def record_body_def exec_def commit_def end_transaction_def entries_of_def
  notionalOf_def negated_def insert_fill_def insert_posting_def adjust_balance_def fill_seqs_def account_ids_def row_of_def
  demo_db_def demo_trade_def Let_def

lemma demo_base: "rd_base demo_db = None"
  by (simp add: demo_db_def)

section \<open>Properties\<close>

text \<open>
  C5. A fill is recorded wholly and once, or not at all, wherever the engine fails: after \<^verbatim>\<open>recordFill\<close>
  no transaction is open, and when it throws or returns false the tables are as before, false meaning
  that the sequence was already recorded. When it returns true the sequence was new and the tables
  have gained exactly the row of the fill and two postings under its sequence, in which the buyer
  pays and the seller receives price times quantity, and both balances changed by that.
\<close>

theorem record_fill_atomic:
  assumes "sqlite run view saved" and "saved db = None" and "recordFill run seq f timestamp db = Some (r, db')"
  shows "saved db' = None \<and>
     (case r of
        Inl e \<Rightarrow> view db' = view db
      | Inr new \<Rightarrow> if new then trade_recorded seq f timestamp (view db) (view db')
                   else seq \<in> fill_seqs (view db) \<and> view db' = view db)"
  using sqlite.recordFill_effect [OF assms(1,3,2)] recorded_trade
  by (auto simp: fill_outcome_def split: sum.splits)

theorem record_fill_atomic_witness:
  "\<exists>db'. recordFill (ref_run fails_late) 1 demo_trade 10 demo_db = Some (Inl StorageError, db') \<and> rd_view db' = rd_view demo_db"
proof -
  obtain db' where r: "recordFill (ref_run fails_late) 1 demo_trade 10 demo_db = Some (Inl StorageError, db')"
    by (simp add: store_defs fails_late_def)
  then show ?thesis using record_fill_atomic [OF ref.sqlite_axioms demo_base r] by auto
qed

text \<open>
  C15. Double entry holds over every history of the store, failures included: the postings that were
  added sum to zero, every balance changed by exactly the postings to its account, no account was
  lost, and when the ledger balanced at the start, the imbalance the store reports is zero.
\<close>

theorem double_entry:
  assumes "sqlite run view saved" and "saved db = None" and "(store_step run)\<^sup>*\<^sup>* db db'" and "ledger_sum (view db) = 0"
  shows "saved db' = None \<and> (\<exists>rs. explains rs (view db) (view db') \<and> (\<Sum>r \<leftarrow> rs. sint (lr_delta r)) = 0) \<and>
     (case fst (ledgerImbalance run db') of Inl e \<Rightarrow> True | Inr v \<Rightarrow> v = 0)"
proof -
  have s: "saved db' = None \<and> accounted (view db) (view db')" by (rule sqlite.store_steps_accounted [OF assms(1,3,2)])
  then have "ledger_sum (view db') = 0" using accounted_ledger assms(4) by metis
  then have "v = 0" if "fst (ledgerImbalance run db') = Inr v" for v
    using sqlite.imbalance_reported [OF assms(1) that] by (simp add: signed_eq_0_iff)
  then show ?thesis using s by (auto simp: accounted_def split: sum.splits)
qed

theorem double_entry_witness:
  "\<exists>db'. (store_step (ref_run (\<lambda>st. False)))\<^sup>*\<^sup>* demo_db db' \<and> length (tb_ledger (rd_view db')) = 2 \<and>
     fst (ledgerImbalance (ref_run (\<lambda>st. False)) db') = Inr 0"
proof -
  let ?run = "ref_run (\<lambda>st. False)"
  obtain db' where r: "recordFill ?run 1 demo_trade 10 demo_db = Some (Inr True, db')" and l: "length (tb_ledger (rd_view db')) = 2"
    and i: "\<exists>v. fst (ledgerImbalance ?run db') = Inr v"
    by (simp add: store_defs ledgerImbalance_def scalar_def columnInt_def ledger_sum_def)
  have s: "(store_step ?run)\<^sup>*\<^sup>* demo_db db'" by (rule r_into_rtranclp [of "store_step ?run", OF records [OF r]])
  have "ledger_sum (rd_view demo_db) = 0" by (simp add: demo_db_def ledger_sum_def)
  then show ?thesis using double_entry [OF ref.sqlite_axioms demo_base s] s l i by auto
qed

text \<open>
  C35. What was recorded is what the tape shows: after a fill newer than all others was recorded, the
  recent fills and the statement of the aggressor's account, whenever they return, begin with exactly
  that fill, ids beyond the signed range included.
\<close>

theorem recorded_fill_is_newest:
  assumes "sqlite run view saved" and "saved db = None" and "recordFill run seq f timestamp db = Some (Inr True, db1)"
    and "\<forall>row \<in> set (tb_fills (view db)). sint (row_ts row) < sint timestamp" and "limit \<noteq> 0"
  shows "(case fst (recentFills run limit db1) of Inl e \<Rightarrow> True | Inr fs \<Rightarrow> fs \<noteq> [] \<and> hd fs = f) \<and>
     (case fst (fillsForAccount run (fl_aggressorAccount f) limit db1) of Inl e \<Rightarrow> True | Inr fs \<Rightarrow> fs \<noteq> [] \<and> hd fs = f)"
proof -
  have fills: "tb_fills (view db1) = tb_fills (view db) @ [row_of seq timestamp f]"
    using sqlite.recordFill_effect [OF assms(1,3,2)] recorded_trade by (fastforce simp: fill_outcome_def trade_recorded_def)
  have newest: "map fill_of_row rs \<noteq> [] \<and> hd (map fill_of_row rs) = f"
    if shown: "newest_first p limit (view db1) rs" "p (row_of seq timestamp f)" for p rs
  proof -
    have "row_ts (row_of seq timestamp f) = timestamp" by (simp add: row_of_def)
    then obtain rest where "rs = columns (row_of seq timestamp f) # rest"
      using newest_is_first [OF shown(1) fills shown(2) assms(5)] assms(4) by auto
    then show ?thesis by simp
  qed
  have tape: "newest_first (\<lambda>r. row_symbol r = ''EXCH'') limit (view db1) rs" if "exec run (SelectTape ''EXCH'' limit) db1 = (Inr rs, db2)" for rs db2
    using sqlite.exec_ok(2) [OF assms(1) that] by simp
  have mine: "newest_first (\<lambda>r. row_aggressorAccount r = ucast a) limit (view db1) rs"
    if "exec run (SelectFillsFor (ucast a) limit) db1 = (Inr rs, db2)" for rs db2 and a :: AccountId
    using sqlite.exec_ok(2) [OF assms(1) that] by simp
  show ?thesis
    using newest [OF tape] newest [OF mine]
    by (auto simp: recentFills_def fillsForAccount_def row_of_def split: sum.splits prod.splits)
qed

theorem recorded_fill_is_newest_witness:
  "\<exists>db1 fs. recordFill (ref_run (\<lambda>st. False)) 1 demo_trade 10 demo_db = Some (Inr True, db1) \<and>
     fst (recentFills (ref_run (\<lambda>st. False)) 5 db1) = Inr fs \<and> hd fs = demo_trade"
proof -
  let ?run = "ref_run (\<lambda>st. False)"
  obtain db1 where r: "recordFill ?run 1 demo_trade 10 demo_db = Some (Inr True, db1)"
    and q: "\<exists>fs. fst (recentFills ?run 5 db1) = Inr fs"
    by (simp add: store_defs recentFills_def)
  have "\<forall>row \<in> set (tb_fills (rd_view demo_db)). sint (row_ts row) < sint (10 :: 64 word)" by (simp add: demo_db_def)
  then show ?thesis using recorded_fill_is_newest [OF ref.sqlite_axioms demo_base r, of 5] r q by auto
qed

text \<open>
  C34. Without failures of the engine a good fill is recorded: when the sequence is new, the quantity
  positive as a signed number, both accounts exist and differ, and the value, its negation and both
  new balances fit into 64 bits, then \<^verbatim>\<open>recordFill\<close> is defined, returns true and has recorded it.
\<close>

theorem good_fill_recorded:
  assumes "reliable_sqlite run view saved" and "saved db = None" and "seq \<notin> fill_seqs (view db)"
    and "0 < sint (fl_quantity f)" and "fits (value_of f)" and "fits (- value_of f)"
    and "map_of (tb_accounts (view db)) (buyer f) = Some b" and "map_of (tb_accounts (view db)) (seller f) = Some s"
    and "buyer f \<noteq> seller f" and "fits (sint b - value_of f)" and "fits (sint s + value_of f)"
  shows "\<exists>db'. recordFill run seq f timestamp db = Some (Inr True, db') \<and> saved db' = None \<and>
     trade_recorded seq f timestamp (view db) (view db')"
proof -
  obtain t where "recorded seq f timestamp (view db) = Some t"
    using recorded_defined [OF assms(3-11)] by (metis not_None_eq)
  then show ?thesis using reliable_sqlite.recordFill_succeeds [OF assms(1,2)] recorded_trade by metis
qed

theorem good_fill_recorded_witness:
  "\<exists>db'. recordFill (ref_run (\<lambda>st. False)) 1 demo_trade 10 demo_db = Some (Inr True, db') \<and>
     trade_recorded 1 demo_trade 10 (rd_view demo_db) (rd_view db')"
proof -
  have v: "value_of demo_trade = 500" "buyer demo_trade = 7" "seller demo_trade = 8"
    by (simp_all add: value_of_def buyer_def seller_def demo_trade_def)
  show ?thesis
    using good_fill_recorded [OF sound.reliable_sqlite_axioms demo_base, of 1 demo_trade 1000 1000 10] v
    by (auto simp: fits_def demo_db_def fill_seqs_def demo_trade_def)
qed

text \<open>
  A fill whose value does not fit is not refused but undefined: the row was inserted by then, and the
  multiplication of price and quantity overflows.
\<close>

lemma large_fill_undefined:
  "recordFill (ref_run (\<lambda>st. False)) 1 (demo_trade\<lparr>fl_price := 2 ^ 40, fl_quantity := 2 ^ 30\<rparr>) 10 demo_db = None"
  by (simp add: store_defs)

end
