(* ===== verification/Socket.thy ===== *)
theory Socket
  imports Exchange_Types
begin

text \<open>
  \<^verbatim>\<open>net/socket.hpp\<close> and \<^verbatim>\<open>net/socket.cpp\<close>: owning descriptors and the calls that make sockets. The kernel's
  table of open descriptors is explicit; the answers of the system calls are arguments. The lemmas
  show that every descriptor has one owner, is closed at most once and is not lost on an error path.
\<close>

section \<open>Owning descriptors\<close>

record kernel =
  kn_open :: "nat set"
  kn_flags :: "nat \<Rightarrow> 32 word"
  kn_opened :: "nat list"   \<comment> \<open>ghost: every descriptor handed out\<close>
  kn_closed :: "nat list"   \<comment> \<open>ghost: every call of \<^verbatim>\<open>close\<close>\<close>

text \<open>The sentinel -1 is \<^term>\<open>None\<close>.\<close>

type_synonym Fd = "nat option"

definition sys_open :: "nat \<Rightarrow> kernel \<Rightarrow> kernel" where
  "sys_open n k = k\<lparr>kn_open := insert n (kn_open k), kn_opened := kn_opened k @ [n]\<rparr>"

definition sys_close :: "nat \<Rightarrow> kernel \<Rightarrow> kernel" where
  "sys_close n k = k\<lparr>kn_open := kn_open k - {n}, kn_closed := kn_closed k @ [n]\<rparr>"

fun fd_reset :: "Fd \<Rightarrow> kernel \<Rightarrow> Fd \<times> kernel" where
  "fd_reset None k = (None, k)"
| "fd_reset (Some n) k = (None, sys_close n k)"

text \<open>\<^verbatim>\<open>std::exchange\<close> with the sentinel: what the move operations and \<^verbatim>\<open>release\<close> take, and what they leave.\<close>

definition fd_release :: "Fd \<Rightarrow> Fd \<times> Fd" where
  "fd_release fd = (fd, None)"

definition fd_valid :: "Fd \<Rightarrow> bool" where
  "fd_valid fd \<longleftrightarrow> fd \<noteq> None"

text \<open>Objects live in a table; assigning an object to itself does nothing.\<close>

type_synonym objects = "nat \<Rightarrow> Fd"

definition fd_move :: "nat \<Rightarrow> nat \<Rightarrow> objects \<Rightarrow> objects" where
  "fd_move this other os = (let (taken, left) = fd_release (os other) in os(other := left, this := taken))"

definition fd_assign :: "nat \<Rightarrow> nat \<Rightarrow> objects \<Rightarrow> kernel \<Rightarrow> objects \<times> kernel" where
  "fd_assign this other os k =
     (if this = other then (os, k)
      else let (empty, k') = fd_reset (os this) k
           in (fd_move this other (os(this := empty)), k'))"

section \<open>Socket calls\<close>

text \<open>\<open>getOk\<close> and \<open>setOk\<close> are whether the two \<^verbatim>\<open>fcntl\<close> calls succeed, \<open>nonblock\<close> is \<^verbatim>\<open>O_NONBLOCK\<close>.\<close>

definition setNonBlocking :: "32 word \<Rightarrow> bool \<Rightarrow> bool \<Rightarrow> nat \<Rightarrow> kernel \<Rightarrow> unit result \<times> kernel" where
  "setNonBlocking nonblock getOk setOk fd k =
     (if \<not> getOk then (Inl NetworkError, k)
      else if \<not> setOk then (Inl NetworkError, k)
      else (Inr (), k\<lparr>kn_flags := (kn_flags k)(fd := or (kn_flags k fd) nonblock)\<rparr>))"

text \<open>\<^verbatim>\<open>setNoDelay\<close>, \<^verbatim>\<open>setSendBufferSize\<close> and \<^verbatim>\<open>setReceiveBufferSize\<close>: one option each.\<close>

definition setOption :: "bool \<Rightarrow> unit result" where
  "setOption ok = (if ok then Inr () else Inl NetworkError)"

record listen_answers =
  la_socket :: "nat option"
  la_reuse :: bool
  la_bind :: bool
  la_listen :: bool
  la_getfl :: bool
  la_setfl :: bool

text \<open>The local owner closes the descriptor when an exception leaves the function.\<close>

definition give_up :: "nat \<Rightarrow> kernel \<Rightarrow> Fd result \<times> kernel" where
  "give_up fd k = (Inl NetworkError, snd (fd_reset (Some fd) k))"

definition listenOn :: "32 word \<Rightarrow> listen_answers \<Rightarrow> kernel \<Rightarrow> Fd result \<times> kernel" where
  "listenOn nonblock la k =
     (case la_socket la of
        None \<Rightarrow> (Inl NetworkError, k)
      | Some fd \<Rightarrow>
          let k1 = sys_open fd k
          in if \<not> la_reuse la then give_up fd k1
             else if \<not> la_bind la then give_up fd k1
             else if \<not> la_listen la then give_up fd k1
             else (case setNonBlocking nonblock (la_getfl la) (la_setfl la) fd k1 of
                     (Inl e, k2) \<Rightarrow> give_up fd k2
                   | (Inr u, k2) \<Rightarrow> (Inr (Some fd), k2)))"

text \<open>
  \<^verbatim>\<open>Session::create\<close> takes the accepted descriptor over and closes it when a step of the set-up fails; the
  send buffer is set only for a positive size. The result says whether a session owns the descriptor.
\<close>

definition session_create ::
  "32 word \<Rightarrow> bool \<Rightarrow> bool \<Rightarrow> bool \<Rightarrow> bool \<Rightarrow> int \<Rightarrow> nat \<Rightarrow> kernel \<Rightarrow> Fd result \<times> kernel" where
  "session_create nonblock getOk setOk noDelayOk bufferOk sendBufferBytes fd k =
     (case setNonBlocking nonblock getOk setOk fd k of
        (Inl e, k1) \<Rightarrow> give_up fd k1
      | (Inr u, k1) \<Rightarrow>
          (case setOption noDelayOk of
             Inl e \<Rightarrow> give_up fd k1
           | Inr u \<Rightarrow>
               (case if sendBufferBytes > 0 then setOption bufferOk else Inr () of
                  Inl e \<Rightarrow> give_up fd k1
                | Inr u \<Rightarrow> (Inr (Some fd), k1))))"

text \<open>\<open>port\<close> is what \<^verbatim>\<open>getsockname\<close> reports, if it succeeds.\<close>

definition boundPort :: "16 word option \<Rightarrow> 16 word result" where
  "boundPort port = (case port of None \<Rightarrow> Inl NetworkError | Some p \<Rightarrow> Inr p)"

definition connectToLoopback :: "nat option \<Rightarrow> bool \<Rightarrow> bool \<Rightarrow> kernel \<Rightarrow> Fd result \<times> kernel" where
  "connectToLoopback sock connectOk noDelayOk k =
     (case sock of
        None \<Rightarrow> (Inl NetworkError, k)
      | Some fd \<Rightarrow>
          let k1 = sys_open fd k
          in if \<not> connectOk then give_up fd k1
             else (case setOption noDelayOk of Inl e \<Rightarrow> give_up fd k1 | Inr u \<Rightarrow> (Inr (Some fd), k1)))"

section \<open>No descriptor is lost\<close>

text \<open>The kernel hands out a number that is not open.\<close>

lemma listenOn_keeps_descriptors:
  assumes "\<forall>fd. la_socket la = Some fd \<longrightarrow> fd \<notin> kn_open k" and "listenOn nonblock la k = (r, k')"
  shows "case r of
       Inl e \<Rightarrow> kn_open k' = kn_open k
     | Inr owner \<Rightarrow> \<exists>fd. owner = Some fd \<and> kn_open k' = insert fd (kn_open k) \<and> kn_flags k' fd = or (kn_flags k fd) nonblock"
  using assms
  by (auto simp: listenOn_def give_up_def sys_open_def sys_close_def setNonBlocking_def Let_def split: option.splits if_splits)

lemma connect_keeps_descriptors:
  assumes "\<forall>fd. sock = Some fd \<longrightarrow> fd \<notin> kn_open k" and "connectToLoopback sock connectOk noDelayOk k = (r, k')"
  shows "case r of Inl e \<Rightarrow> kn_open k' = kn_open k | Inr owner \<Rightarrow> \<exists>fd. owner = Some fd \<and> kn_open k' = insert fd (kn_open k)"
  using assms
  by (auto simp: connectToLoopback_def give_up_def sys_open_def sys_close_def setOption_def Let_def split: option.splits if_splits)

text \<open>A session that was made owns a non-blocking descriptor, as edge-triggered events require.\<close>

lemma session_create_nonblocking:
  assumes "fd \<in> kn_open k" and "session_create nonblock getOk setOk noDelayOk bufferOk bytes fd k = (r, k')"
  shows "case r of
       Inl e \<Rightarrow> kn_open k' = kn_open k - {fd}
     | Inr owner \<Rightarrow> owner = Some fd \<and> kn_open k' = kn_open k \<and> kn_flags k' fd = or (kn_flags k fd) nonblock"
  using assms
  by (auto simp: session_create_def give_up_def sys_close_def setNonBlocking_def setOption_def split: if_splits)

text \<open>The life of descriptors under any sequence of operations on the objects that own them.\<close>

inductive fd_step :: "objects \<times> kernel \<Rightarrow> objects \<times> kernel \<Rightarrow> bool" where
  acquires: "n \<notin> kn_open k \<Longrightarrow> os x = None \<Longrightarrow> fd_step (os, k) (os(x := Some n), sys_open n k)"
| constructs: "os x = None \<Longrightarrow> x \<noteq> y \<Longrightarrow> fd_step (os, k) (fd_move x y os, k)"
| assigns: "fd_assign x y os k = (os', k') \<Longrightarrow> fd_step (os, k) (os', k')"
| resets: "fd_reset (os x) k = (fd, k') \<Longrightarrow> fd_step (os, k) (os(x := fd), k')"

text \<open>Owners are distinct, own what is open, and everything open is owned; closes match opens.\<close>

definition owned :: "objects \<times> kernel \<Rightarrow> bool" where
  "owned s \<longleftrightarrow> (\<forall>x y n. fst s x = Some n \<longrightarrow> fst s y = Some n \<longrightarrow> x = y) \<and>
     (\<forall>n. n \<in> kn_open (snd s) \<longleftrightarrow> (\<exists>x. fst s x = Some n)) \<and>
     (\<forall>n. count_list (kn_opened (snd s)) n = count_list (kn_closed (snd s)) n + (if n \<in> kn_open (snd s) then 1 else 0))"

lemma owned_acquire: "owned (os, k) \<Longrightarrow> n \<notin> kn_open k \<Longrightarrow> os x = None \<Longrightarrow> owned (os(x := Some n), sys_open n k)"
  unfolding owned_def by (auto simp: sys_open_def) (metis option.distinct(1))

lemma owned_reset:
  assumes "owned (os, k)" and "fd_reset (os x) k = (fd, k')"
  shows "owned (os(x := fd), k')" and "fd = None"
proof -
  show "fd = None" using assms(2) by (cases "os x") simp_all
  show "owned (os(x := fd), k')"
  proof (cases "os x")
    case None
    then show ?thesis using assms by (simp add: fun_upd_idem)
  next
    case (Some n)
    then have "fd = None" "k' = sys_close n k" using assms(2) by simp_all
    then show ?thesis using assms(1) Some unfolding owned_def by (auto simp: sys_close_def) (metis option.inject)
  qed
qed

lemma owned_move: "owned (os, k) \<Longrightarrow> os x = None \<Longrightarrow> x \<noteq> y \<Longrightarrow> owned (fd_move x y os, k)"
  unfolding owned_def fd_move_def fd_release_def by (auto split: if_splits) (metis option.distinct(1))

lemma owned_step: "fd_step s s' \<Longrightarrow> owned s \<Longrightarrow> owned s'"
proof (induction rule: fd_step.induct)
  case (assigns x y os k os' k')
  obtain fd k1 where r: "fd_reset (os x) k = (fd, k1)" by (cases "fd_reset (os x) k")
  note o = owned_reset [OF assigns.prems r]
  show ?case
  proof (cases "x = y")
    case True
    then show ?thesis using assigns by (simp add: fd_assign_def)
  next
    case False
    then have "os' = fd_move x y (os(x := fd))" "k' = k1" using assigns.hyps r by (simp_all add: fd_assign_def)
    then show ?thesis using owned_move [OF o(1)] o(2) False by simp
  qed
qed (simp_all add: owned_acquire owned_move owned_reset)

lemma descriptors_closed_once:
  assumes "fd_step\<^sup>*\<^sup>* (\<lambda>x. None, \<lparr>kn_open = {}, kn_flags = \<lambda>n. 0, kn_opened = [], kn_closed = []\<rparr>) s"
  shows "owned s"
  using assms
proof (induction rule: rtranclp_induct)
  case base
  then show ?case by (simp add: owned_def)
next
  case (step y z)
  then show ?case using owned_step by metis
qed

end
