(* ===== verification/Spec2Isabelle.thy ===== *)
theory Spec2Isabelle
  imports Recovery Server_Properties Analytics Store_Properties Socket
begin

text \<open>
  A verification development for a multithreaded exchange server in C++20 (\<^verbatim>\<open>src/\<close>).

  \<^bold>\<open>The program.\<close> Clients connect over TCP and send orders, cancels and amendments in a length-prefixed
  binary protocol. One reactor thread (\<^verbatim>\<open>net/reactor\<close>, \<^verbatim>\<open>net/session\<close>, \<^verbatim>\<open>net/frame_assembler\<close>,
  \<^verbatim>\<open>net/protocol\<close>, \<^verbatim>\<open>net/socket\<close>) reads and decodes them and gives each message as a task to a pool of
  workers (\<^verbatim>\<open>concurrent/thread_pool\<close>), which build orders and push commands into the bounded queue
  (\<^verbatim>\<open>concurrent/thread_safe_queue\<close>) of the engine thread (\<^verbatim>\<open>core/engine\<close>). The engine appends a command to
  the write-ahead log, if it has one (\<^verbatim>\<open>store/write_ahead_log\<close>, \<^verbatim>\<open>store/wal_record\<close>, \<^verbatim>\<open>store/crc32\<close>), and
  then executes it on the order book, which only it touches (\<^verbatim>\<open>core/apply\<close>, \<^verbatim>\<open>core/book\<close>,
  \<^verbatim>\<open>core/order_book\<close>, \<^verbatim>\<open>core/price_level\<close>, \<^verbatim>\<open>core/price_time_strategy\<close>, \<^verbatim>\<open>core/order\<close>). Fills go back to the
  sessions of both parties (\<^verbatim>\<open>net/server\<close>). After a crash \<^verbatim>\<open>store/recovery\<close> replays the log. Beside this
  path stand the statistics and the market-data feed (\<^verbatim>\<open>analytics/\<close>, \<^verbatim>\<open>core/book_iterator\<close>) and the
  database of accounts, fills and ledger (\<^verbatim>\<open>store/sqlite_store\<close>, \<^verbatim>\<open>store/sqlite\<close>).

  \<^bold>\<open>Conventions.\<close> Machine integers are words at their width; signed ones are read through \<^const>\<open>sint\<close>. A
  reference that is mutated is passed in and returned. Undefined behaviour (a violated
  \<^verbatim>\<open>EXCHANGE_PRECONDITION\<close>, a dangling or end iterator, signed overflow) is \<^term>\<open>None\<close>, an exception is
  \<^term>\<open>Inl\<close> of an error. Ordered maps, hash maps and lists of nodes are association lists; the address of a
  list node is a number that it keeps when it is relinked. What the system answers (\<^verbatim>\<open>read\<close>, \<^verbatim>\<open>write\<close>,
  \<^verbatim>\<open>recv\<close>, \<^verbatim>\<open>send\<close>, \<^verbatim>\<open>accept4\<close>, \<^verbatim>\<open>epoll_wait\<close>, \<^verbatim>\<open>fdatasync\<close>) is a script of results given to the operation, and
  retry loops recurse on the script; a script that ends before the loop does is \<^term>\<open>None\<close>, and the
  theorems say which scripts suffice. There is no other fuel: every other loop has a termination
  proof. Memory allocation is taken to succeed. Threads are step relations whose steps are the critical
  sections and the atomic accesses of the code.

  \<^bold>\<open>The book.\<close>
  \<^item> \<^verbatim>\<open>Exchange_Prelude\<close>, \<^verbatim>\<open>Exchange_Types\<close>: machine types, exceptions, lemmas on association lists and words;
    sides and price orderings, with the locale \<open>price_comparator\<close> interpreted on both orderings.
  \<^item> \<^verbatim>\<open>Orders\<close> (\<^verbatim>\<open>order.hpp\<close>, \<^verbatim>\<open>order.cpp\<close>): limit, market and iceberg orders, one definition per virtual function.
  \<^item> \<^verbatim>\<open>Price_Level\<close>: the queue at one price with its cached totals; every operation keeps them exact.
  \<^item> \<^verbatim>\<open>Matching\<close>, \<^verbatim>\<open>Price_Time\<close>: plans, fills and the planning loop of \<^verbatim>\<open>PriceTimeStrategy\<close>; the locale
    \<open>matching_strategy\<close> states what \<^verbatim>\<open>Book\<close> relies on, and the strategy is an instance.
  \<^item> \<^verbatim>\<open>Order_Book\<close>: one side, the level map with the index; its invariant (sorted levels, exact aggregates,
    index and queues in bijection) under every operation.
  \<^item> \<^verbatim>\<open>Book\<close>: validation, planning, preparing, committing, cancelling and amending on two sides.
  \<^item> \<^verbatim>\<open>Book_Spec\<close>, \<^verbatim>\<open>Book_Properties\<close>: the textbook algorithm on plain lists of orders, and the refinement of
    \<^verbatim>\<open>submit\<close> to it; safety, conservation of quantity, price and time priority, limits and self-match
    prevention; exactness of \<^verbatim>\<open>cancel\<close>, \<^verbatim>\<open>modify\<close>, lookup and depth; the defect of incoming icebergs, which is
    why the other properties exclude an iceberg that trades through its tranche on the way in.
  \<^item> \<^verbatim>\<open>Commands\<close> (\<^verbatim>\<open>command.hpp\<close>, \<^verbatim>\<open>apply.cpp\<close>): commands and their serial execution; every history without
    icebergs is defined and keeps the book sound.

  \<^bold>\<open>Durability.\<close>
  \<^item> \<^verbatim>\<open>Wire\<close>, \<^verbatim>\<open>Crc32\<close>, \<^verbatim>\<open>Wal_Record\<close>: little-endian readers and writers; the table-driven checksum equals the
    bitwise register and detects every change within a byte; records decode to what was encoded, a torn
    record is incomplete, a damaged one corrupt.
  \<^item> \<^verbatim>\<open>Command_Log\<close>, \<^verbatim>\<open>Write_Ahead_Log\<close>: the interface \<^verbatim>\<open>ICommandLog\<close> as the locale \<open>command_log\<close>, and the log
    as its instance: append then replay, torn appends, sync policy, reopening, and what a partial write
    that failed hides.
  \<^item> \<^verbatim>\<open>Recovery\<close>: replaying into a book; after a crash in the middle of an append the live book and the
    intact log come back exactly; two ways in which log and book can still disagree; the database is read
    and never written.

  \<^bold>\<open>Threads.\<close>
  \<^item> \<^verbatim>\<open>Thread_Safe_Queue\<close>: mutex, condition variables and notifications as steps of any number of threads:
    bounded FIFO, draining after close, no lost wakeup.
  \<^item> \<^verbatim>\<open>Thread_Pool\<close>: workers over that queue; every accepted task runs once and stopping drains.
  \<^item> \<^verbatim>\<open>Engine\<close>: under every interleaving of producers and the engine thread the book is the serial execution
    of the accepted commands, and stopping drains them.

  \<^bold>\<open>Network.\<close>
  \<^item> \<^verbatim>\<open>Protocol\<close>, \<^verbatim>\<open>Frame_Assembler\<close>, \<^verbatim>\<open>Session\<close>: the codec of all messages, reassembly of frames and the two
    halves of a connection: messages survive any chunking; the outbound buffer is bounded and lossless
    under any interleaving of senders and the flushing reactor.
  \<^item> \<^verbatim>\<open>Socket\<close>: owning descriptors (every descriptor has one owner and is closed at most once) and the
    socket calls, none of which loses a descriptor on an error path.
  \<^item> \<^verbatim>\<open>Reactor\<close>: handler table, loop over batches and the wakeup descriptor, through which no work handed
    over is forgotten.
  \<^item> \<^verbatim>\<open>Server\<close>, \<^verbatim>\<open>Server_Steps\<close>, \<^verbatim>\<open>Server_Properties\<close>: the whole server as turns of the reactor, the workers and
    the engine on one state: from the bytes on the wire to the command on the book, fills to both
    parties, shutdown that completes under every fair schedule, and two defects in the handling of
    closed connections. \<open>server_work\<close> bounds the rounds of a schedule that shutdown needs.

  \<^bold>\<open>Analytics and database.\<close>
  \<^item> \<^verbatim>\<open>Forward_Range\<close>, \<^verbatim>\<open>Book_Iterator\<close>: standard algorithms as loops over an iterator, under the locale
    \<open>forward_range\<close>, which the book iterator satisfies. These loops are partial functions in the option
    monad; the locale's lemmas show that they end.
  \<^item> \<^verbatim>\<open>Double\<close>, \<^verbatim>\<open>Analytics\<close>: rounding to 53 bits; statistics of a side, touch metrics and the feed, shown
    equal to what the resting orders give, and bounded despite rounding.
  \<^item> \<^verbatim>\<open>Sqlite\<close>, \<^verbatim>\<open>Sqlite_Store\<close>, \<^verbatim>\<open>Store_Properties\<close>: the schema and the SQL statements as definitions on tables;
    SQLite as a parameter under the locale \<open>sqlite\<close> (what success and failure of a statement do, and
    what \<^verbatim>\<open>COMMIT\<close> and \<^verbatim>\<open>ROLLBACK\<close> do), extended by \<open>reliable_sqlite\<close> for an engine that fails only where it
    must, both interpreted on a reference engine. Recording a fill is atomic and idempotent, the ledger
    balances over every history, queries return what was recorded.

  \<^bold>\<open>Not modelled.\<close> The kernel (sockets, epoll, files, clock) and SQLite, which are parameters; the texts of
  error messages and \<^verbatim>\<open>operator<<\<close> for fills, which nothing reads; the type erasure of \<^verbatim>\<open>Task\<close>, where a
  task is a value; lifetimes of SQLite handles and \<^verbatim>\<open>Statement::columnText\<close>, which nothing calls; failure
  of memory allocation; memory orderings weaker than sequential consistency, since the atomics of the
  code are flags and counters that are not used to publish other data. A smart pointer is the object it
  owns, except for sessions, where a weak reference can fail. Within the server theories an operation
  of one thread is one turn; the interleavings inside the queue, the outbound buffer and the wakeup are
  the subject of the theories of those parts.
\<close>

end
